(* ===== verification/Prelude.thy ===== *)
theory Prelude
  imports Main "HOL-Library.Word"
begin

text \<open>
  Shared vocabulary of the development: the machine types of the C++ sources
  (\<^verbatim>\<open>innodb0types.h\<close>: \<^verbatim>\<open>byte\<close>, \<^verbatim>\<open>ulint\<close>, the fixed-width integers), byte-addressed memory,
  the reading of word operations as arithmetic on naturals (collection \<open>unat_arith_simps\<close>),
  and list lemmas the component theories share.
\<close>

unbundle bit_operations_syntax

section \<open>Machine types\<close>

type_synonym byte = "8 word"
type_synonym uint16 = "16 word"
type_synonym uint32 = "32 word"
type_synonym uint64 = "64 word"
type_synonym ulint = "64 word"

text \<open>A buffer the code addresses with \<^verbatim>\<open>byte *\<close>: pointers are the addresses of its bytes.\<close>

type_synonym ptr = nat
type_synonym mem = "ptr \<Rightarrow> byte"

section \<open>Words as naturals\<close>

named_theorems unat_arith_simps \<open>word operations read as arithmetic on naturals\<close>

lemma unat_ucast_mod [unat_arith_simps]:
  "unat (ucast (x :: 'a::len word) :: 'b::len word) = unat x mod 2 ^ LENGTH('b)"
  by (simp add: unsigned_ucast_eq take_bit_eq_mod)

lemma unat_drop_bit_div [unat_arith_simps]:
  "unat (drop_bit n (x :: 'a::len word)) = unat x div 2 ^ n"
  by (simp only: unat_drop_bit_eq drop_bit_eq_div [where 'a = nat])

lemma unat_push_bit_mod [unat_arith_simps]:
  "unat (push_bit n (x :: 'a::len word)) = unat x * 2 ^ n mod 2 ^ LENGTH('a)"
  by (simp only: unsigned_push_bit_eq push_bit_eq_mult [where 'a = nat] take_bit_eq_mod [where 'a = nat])

lemma unat_add_mod [unat_arith_simps]:
  "unat ((x :: 'a::len word) + y) = (unat x + unat y) mod 2 ^ LENGTH('a)"
  by (simp add: unat_word_ariths)

lemma unat_byte_less: "unat (x :: byte) < 256"
  using unsigned_less [of x] by simp

lemma unat_uint32_less: "unat (x :: uint32) < 2 ^ 32"
  using unsigned_less [of x] by simp

lemma unat_uint64_less: "unat (x :: uint64) < 2 ^ 64"
  using unsigned_less [of x] by simp

lemma unat_widen: "unat (ucast (x :: uint32) :: uint64) = unat x"
  using unat_uint32_less [of x] by (simp add: unat_ucast_mod)

text \<open>A number is the sum of its base-256 digits.\<close>

lemma digits_2: "(x :: nat) = x div 256 * 256 + x mod 256"
  by simp

lemma digits_3: "(x :: nat) = x div 65536 * 65536 + x div 256 mod 256 * 256 + x mod 256"
proof -
  have "x div 256 = x div 65536 * 256 + x div 256 mod 256"
    using digits_2 [of "x div 256"] by (simp add: div_mult2_eq [symmetric])
  with digits_2 [of x] show ?thesis by linarith
qed

lemma digits_4:
  "(x :: nat) = x div 16777216 * 16777216 + x div 65536 mod 256 * 65536
     + x div 256 mod 256 * 256 + x mod 256"
proof -
  have "x div 65536 = x div 16777216 * 256 + x div 65536 mod 256"
    using digits_2 [of "x div 65536"] by (simp add: div_mult2_eq [symmetric])
  with digits_3 [of x] show ?thesis by linarith
qed

lemma unat_and_mask:
  "k \<le> LENGTH('a) \<Longrightarrow> unat ((x :: 'a::len word) AND mask k) = unat x mod 2 ^ k"
  by (simp only: take_bit_eq_mask [symmetric] unsigned_take_bit_eq take_bit_eq_mod [where 'a = nat])

text \<open>Or-ing a value below \<open>2 ^ k\<close> with a multiple of \<open>2 ^ k\<close> adds the two.\<close>

lemma unat_or_disjoint:
  fixes x c :: "'a::len word"
  assumes x: "unat x < 2 ^ k" and c: "2 ^ k dvd unat c"
  shows "unat (x OR c) = unat x + unat c"
proof -
  have "unat x AND unat c = 0"
  proof (rule bit_eqI)
    fix n
    from c obtain d where d: "unat c = 2 ^ k * d" ..
    have "bit (unat x) n \<Longrightarrow> n < k"
      using x by (metis bit_take_bit_iff take_bit_nat_eq_self)
    then show "bit (unat x AND unat c) n = bit (0 :: nat) n"
      using d by (auto simp: bit_and_iff mult.commute [of "2 ^ k"] simp flip: push_bit_eq_mult
          simp add: bit_push_bit_iff)
  qed
  then have "unat x + unat c = unat x OR unat c"
    by (rule disjunctive_add_eq_or)
  then show ?thesis by (simp add: unsigned_or_eq)
qed

lemma mod_mult_div: "(x :: nat) mod (a * b) div a = x div a mod b"
  by (cases "a = 0") (simp_all add: mod_mult2_eq)

lemma div_shrinks: "1 < k \<Longrightarrow> (y :: nat) = y div k \<longleftrightarrow> y = 0"
  by (metis div_eq_dividend_iff div_0 less_irrefl neq0_conv)

lemma mod_mult_add_absorb: "((x :: nat) mod M * c + s) mod M = (x * c + s) mod M"
  by (metis mod_add_left_eq mod_mult_left_eq)

lemma unat_eq_iff: "(x :: 'a::len word) = y \<longleftrightarrow> unat x = unat y"
  by (simp add: word_unat_eq_iff)

end
