(* ===== verification/Mach_Data.thy ===== *)
theory Mach_Data
  imports Prelude
begin

text \<open>
  Model of \<^verbatim>\<open>include/mach0data.h\<close> and \<^verbatim>\<open>mach/mach0data.cc\<close>: conversion between machine
  integers and the big-endian file format, the variable-length (compressed) integer
  format of log and undo records, and the host-order helpers.  A function that writes
  through \<^verbatim>\<open>byte *b\<close> takes the memory and the address and returns the new memory; one that
  advances a pointer returns the new address; \<^verbatim>\<open>nullptr\<close> is \<open>None\<close>.  The host is
  little-endian (\<^verbatim>\<open>WORDS_BIGENDIAN\<close> undefined), the debug-only \<^verbatim>\<open>ut_ad\<close> checks are not
  part of the behaviour.
\<close>

section \<open>Fixed-width big-endian integers\<close>

definition mach_write_to_1 :: "mem \<Rightarrow> ptr \<Rightarrow> ulint \<Rightarrow> mem" where
  "mach_write_to_1 m b v = m(b := ucast v)"

definition mach_read_from_1 :: "mem \<Rightarrow> ptr \<Rightarrow> ulint" where
  "mach_read_from_1 m b = ucast (m b)"

definition mach_write_to_2 :: "mem \<Rightarrow> ptr \<Rightarrow> ulint \<Rightarrow> mem" where
  "mach_write_to_2 m b v = m(b := ucast (drop_bit 8 v), b + 1 := ucast v)"

definition mach_read_from_2 :: "mem \<Rightarrow> ptr \<Rightarrow> ulint" where
  "mach_read_from_2 m b = push_bit 8 (ucast (m b)) + ucast (m (b + 1))"

definition mach_write_to_3 :: "mem \<Rightarrow> ptr \<Rightarrow> uint32 \<Rightarrow> mem" where
  "mach_write_to_3 m b v =
     m(b := ucast (drop_bit 16 v), b + 1 := ucast (drop_bit 8 v), b + 2 := ucast v)"

definition mach_read_from_3 :: "mem \<Rightarrow> ptr \<Rightarrow> ulint" where
  "mach_read_from_3 m b =
     push_bit 16 (ucast (m b)) + push_bit 8 (ucast (m (b + 1))) + ucast (m (b + 2))"

definition mach_write_to_4 :: "mem \<Rightarrow> ptr \<Rightarrow> uint32 \<Rightarrow> mem" where
  "mach_write_to_4 m b v =
     m(b := ucast (drop_bit 24 v), b + 1 := ucast (drop_bit 16 v),
       b + 2 := ucast (drop_bit 8 v), b + 3 := ucast v)"

definition mach_read_from_4 :: "mem \<Rightarrow> ptr \<Rightarrow> ulint" where
  "mach_read_from_4 m b =
     push_bit 24 (ucast (m b)) + push_bit 16 (ucast (m (b + 1)))
     + push_bit 8 (ucast (m (b + 2))) + ucast (m (b + 3))"

definition mach_write_to_8 :: "mem \<Rightarrow> ptr \<Rightarrow> uint64 \<Rightarrow> mem" where
  "mach_write_to_8 m b v =
     mach_write_to_4 (mach_write_to_4 m b (ucast (drop_bit 32 v))) (b + 4) (ucast v)"

definition mach_read_from_8 :: "mem \<Rightarrow> ptr \<Rightarrow> uint64" where
  "mach_read_from_8 m b =
     push_bit 32 (mach_read_from_4 m b) OR mach_read_from_4 m (b + 4)"

definition mach_write_to_7 :: "mem \<Rightarrow> ptr \<Rightarrow> uint64 \<Rightarrow> mem" where
  "mach_write_to_7 m b v =
     mach_write_to_4 (mach_write_to_3 m b (ucast (drop_bit 32 v))) (b + 3) (ucast v)"

definition mach_read_from_7 :: "mem \<Rightarrow> ptr \<Rightarrow> uint64" where
  "mach_read_from_7 m b =
     push_bit 32 (mach_read_from_4 m b) OR mach_read_from_4 m (b + 3)"

definition mach_write_to_6 :: "mem \<Rightarrow> ptr \<Rightarrow> uint64 \<Rightarrow> mem" where
  "mach_write_to_6 m b v =
     mach_write_to_4 (mach_write_to_2 m b (drop_bit 32 v)) (b + 2) (ucast v)"

definition mach_read_from_6 :: "mem \<Rightarrow> ptr \<Rightarrow> uint64" where
  "mach_read_from_6 m b =
     push_bit 32 (mach_read_from_4 m b) OR mach_read_from_4 m (b + 2)"

section \<open>Compressed integers\<close>

definition mach_write_compressed :: "mem \<Rightarrow> ptr \<Rightarrow> ulint \<Rightarrow> mem \<times> nat" where
  "mach_write_compressed m b v =
     (if v < 0x80 then (mach_write_to_1 m b v, 1)
      else if v < 0x4000 then (mach_write_to_2 m b (v OR 0x8000), 2)
      else if v < 0x200000 then (mach_write_to_3 m b (ucast (v OR 0xC00000)), 3)
      else if v < 0x10000000 then (mach_write_to_4 m b (ucast (v OR 0xE0000000)), 4)
      else if v \<ge> 0xFFFFFC00 then (mach_write_to_2 m b ((v AND 0x3FF) OR 0xF800), 2)
      else if v \<ge> 0xFFFE0000 then (mach_write_to_3 m b (ucast ((v AND 0x1FFFF) OR 0xFC0000)), 3)
      else if v \<ge> 0xFF000000 then (mach_write_to_4 m b (ucast ((v AND 0xFFFFFF) OR 0xFE000000)), 4)
      else (mach_write_to_4 (mach_write_to_1 m b 0xF0) (b + 1) (ucast v), 5))"

definition mach_get_compressed_size :: "ulint \<Rightarrow> nat" where
  "mach_get_compressed_size v =
     (if v < 0x80 then 1
      else if v < 0x4000 then 2
      else if v < 0x200000 then 3
      else if v < 0x10000000 then 4
      else if v \<ge> 0xFFFFFC00 then 2
      else if v \<ge> 0xFFFE0000 then 3
      else if v \<ge> 0xFF000000 then 4
      else 5)"

definition mach_read_compressed :: "mem \<Rightarrow> ptr \<Rightarrow> ulint" where
  "mach_read_compressed m b =
     (let val = mach_read_from_1 m b in
      if val < 0x80 then val
      else if val < 0xC0 then mach_read_from_2 m b AND 0x3FFF
      else if val < 0xE0 then mach_read_from_3 m b AND 0x1FFFFF
      else if val < 0xF0 then mach_read_from_4 m b AND 0xFFFFFFF
      else if val < 0xF8 then mach_read_from_4 m (b + 1)
      else if val < 0xFC then (mach_read_from_2 m b AND 0x3FF) OR 0xFFFFFC00
      else if val < 0xFE then (mach_read_from_3 m b AND 0x1FFFF) OR 0xFFFE0000
      else mach_read_from_3 m (b + 1) OR 0xFF000000)"

definition mach_uint32_read_compressed :: "mem \<Rightarrow> ptr \<Rightarrow> uint32 \<times> ptr" where
  "mach_uint32_read_compressed m b =
     (let val = mach_read_from_1 m b in
      if val < 0x80 then (ucast val, b + 1)
      else if val < 0xC0 then (ucast (mach_read_from_2 m b AND 0x3FFF), b + 2)
      else if val < 0xE0 then (ucast (mach_read_from_3 m b AND 0x1FFFFF), b + 3)
      else if val < 0xF0 then (ucast (mach_read_from_4 m b AND 0xFFFFFFF), b + 4)
      else if val < 0xF8 then (ucast (mach_read_from_4 m (b + 1)), b + 5)
      else if val < 0xFC then (ucast ((mach_read_from_2 m b AND 0x3FF) OR 0xFFFFFC00), b + 2)
      else if val < 0xFE then (ucast ((mach_read_from_3 m b AND 0x1FFFF) OR 0xFFFE0000), b + 3)
      else (ucast (mach_read_from_3 m (b + 1) OR 0xFF000000), b + 4))"

definition mach_uint64_write_compressed :: "mem \<Rightarrow> ptr \<Rightarrow> uint64 \<Rightarrow> mem \<times> nat" where
  "mach_uint64_write_compressed m b v =
     (let (m', size) = mach_write_compressed m b (drop_bit 32 v)
      in (mach_write_to_4 m' (b + size) (ucast v), size + 4))"

definition mach_uint64_get_compressed_size :: "uint64 \<Rightarrow> nat" where
  "mach_uint64_get_compressed_size v = 4 + mach_get_compressed_size (drop_bit 32 v)"

definition mach_uint64_read_compressed :: "mem \<Rightarrow> ptr \<Rightarrow> uint64" where
  "mach_uint64_read_compressed m b =
     (let (hi, b') = mach_uint32_read_compressed m b
      in push_bit 32 (ucast hi) OR mach_read_from_4 m b')"

definition mach_uint64_write_much_compressed :: "mem \<Rightarrow> ptr \<Rightarrow> uint64 \<Rightarrow> mem \<times> nat" where
  "mach_uint64_write_much_compressed m b v =
     (if v = 0 then mach_write_compressed m b v
      else
        let m1 = m(b := 0xFF);
            (m2, s) = mach_write_compressed m1 (b + 1) (drop_bit 32 v);
            size = 1 + s;
            (m3, s') = mach_write_compressed m2 (b + size) (v AND 0xFFFFFFFF)
        in (m3, size + s'))"

definition mach_uint64_get_much_compressed_size :: "uint64 \<Rightarrow> nat" where
  "mach_uint64_get_much_compressed_size v =
     (if v = 0 then mach_get_compressed_size 0
      else 1 + mach_get_compressed_size (drop_bit 32 v)
             + mach_get_compressed_size (v AND 0xFFFFFFFF))"

definition mach_uint64_read_much_compressed :: "mem \<Rightarrow> ptr \<Rightarrow> uint64" where
  "mach_uint64_read_much_compressed m b =
     (let (high, size) =
        (if m b = 0xFF then
           let high = push_bit 32 (mach_read_compressed m (b + 1))
           in (high, 1 + mach_get_compressed_size high)
         else (0, 0))
      in high OR mach_read_compressed m (b + size))"

text \<open>Parsing from a log buffer that may end inside the field: \<open>None\<close> is a null pointer.\<close>

definition mach_parse_compressed :: "mem \<Rightarrow> ptr \<Rightarrow> ptr \<Rightarrow> uint32 \<times> ptr option" where
  "mach_parse_compressed m p end_ptr =
     (if p \<ge> end_ptr then (0, None)
      else
        let val = mach_read_from_1 m p in
        if val < 0x80 then (ucast val, Some (p + 1))
        else if val < 0xC0 then
          (if end_ptr \<ge> p + 2 then (ucast (mach_read_from_2 m p AND 0x3FFF), Some (p + 2))
           else (0, None))
        else if val < 0xE0 then
          (if end_ptr \<ge> p + 3 then (ucast (mach_read_from_3 m p AND 0x1FFFFF), Some (p + 3))
           else (0, None))
        else if val < 0xF0 then
          (if end_ptr \<ge> p + 4 then (ucast (mach_read_from_4 m p AND 0xFFFFFFF), Some (p + 4))
           else (0, None))
        else if val < 0xF8 then
          (if end_ptr \<ge> p + 5 then (ucast (mach_read_from_4 m (p + 1)), Some (p + 5))
           else (0, None))
        else if val < 0xFC then
          (if end_ptr \<ge> p + 2
           then (ucast ((mach_read_from_2 m p AND 0x3FF) OR 0xFFFFFC00), Some (p + 2))
           else (0, None))
        else if val < 0xFE then
          (if end_ptr \<ge> p + 3
           then (ucast ((mach_read_from_3 m p AND 0x1FFFF) OR 0xFFFE0000), Some (p + 3))
           else (0, None))
        else
          (if end_ptr \<ge> p + 4 then (ucast (mach_read_from_3 m (p + 1) OR 0xFF000000), Some (p + 4))
           else (0, None)))"

definition mach_uint64_parse_compressed :: "mem \<Rightarrow> ptr \<Rightarrow> ptr \<Rightarrow> (ptr \<times> uint64) option" where
  "mach_uint64_parse_compressed m p end_ptr =
     (if end_ptr < p + 5 then None
      else
        let high = mach_read_compressed m p;
            size = mach_get_compressed_size high;
            p = p + size
        in if end_ptr < p + 4 then None
           else let low = mach_read_from_4 m p
                in Some (p + 4, push_bit 32 high OR low))"

section \<open>Host-order values\<close>

text \<open>
  A variable of \<open>n\<close> bytes reinterpreted as \<^verbatim>\<open>byte *\<close> on a little-endian host: byte \<open>i\<close>
  is bits \<open>8 * i\<close> to \<open>8 * i + 7\<close>.
\<close>

definition host_byte :: "'a::len word \<Rightarrow> nat \<Rightarrow> byte" where
  "host_byte v i = ucast (drop_bit (8 * i) v)"

fun host_load :: "nat \<Rightarrow> (nat \<Rightarrow> byte) \<Rightarrow> 'a::len word" where
  "host_load 0 f = 0"
| "host_load (Suc n) f = host_load n f OR push_bit (8 * n) (ucast (f n))"

definition host_store :: "nat \<Rightarrow> mem \<Rightarrow> ptr \<Rightarrow> (nat \<Rightarrow> byte) \<Rightarrow> mem" where
  "host_store n m b f = fold (\<lambda>i m. m(b + i := f i)) [0..<n] m"

definition mach_encode_2 :: "ulint \<Rightarrow> uint16" where
  "mach_encode_2 v = host_load 2 (mach_write_to_2 (\<lambda>_. 0) 0 v)"

definition mach_decode_2 :: "uint16 \<Rightarrow> ulint" where
  "mach_decode_2 v = mach_read_from_2 (host_byte v) 0"

definition mach_double_read :: "mem \<Rightarrow> ptr \<Rightarrow> uint64" where
  "mach_double_read m b = host_load 8 (\<lambda>i. m (b + i))"

definition mach_double_ptr_write :: "mem \<Rightarrow> ptr \<Rightarrow> (nat \<Rightarrow> byte) \<Rightarrow> mem" where
  "mach_double_ptr_write m b p = host_store 8 m b p"

definition mach_double_write :: "mem \<Rightarrow> ptr \<Rightarrow> uint64 \<Rightarrow> mem" where
  "mach_double_write m b v = mach_double_ptr_write m b (host_byte v)"

definition mach_float_read :: "mem \<Rightarrow> ptr \<Rightarrow> uint32" where
  "mach_float_read m b = host_load 4 (\<lambda>i. m (b + i))"

definition mach_float_ptr_write :: "mem \<Rightarrow> ptr \<Rightarrow> (nat \<Rightarrow> byte) \<Rightarrow> mem" where
  "mach_float_ptr_write m b p = host_store 4 m b p"

definition mach_float_write :: "mem \<Rightarrow> ptr \<Rightarrow> uint32 \<Rightarrow> mem" where
  "mach_float_write m b v = mach_float_ptr_write m b (host_byte v)"

text \<open>
  The loop reads \<open>n\<close> bytes from the last one down and tests for the end after each byte.  It runs
  at least once: with \<open>n = 0\<close> the pointer starts on the end, steps over it and leaves the buffer,
  which is \<open>None\<close>.  The write loop does the same upwards.
\<close>

fun mach_read_n_le_loop :: "mem \<Rightarrow> ptr \<Rightarrow> nat \<Rightarrow> ulint \<Rightarrow> ulint option" where
  "mach_read_n_le_loop m buf 0 v = None"
| "mach_read_n_le_loop m buf (Suc k) v =
    (let v = push_bit 8 v + ucast (m (buf + k))
     in if k = 0 then Some v else mach_read_n_le_loop m buf k v)"

definition mach_read_from_n_little_endian :: "mem \<Rightarrow> ptr \<Rightarrow> nat \<Rightarrow> ulint option" where
  "mach_read_from_n_little_endian m buf n = mach_read_n_le_loop m buf n 0"

fun mach_write_to_n_little_endian :: "mem \<Rightarrow> ptr \<Rightarrow> nat \<Rightarrow> ulint \<Rightarrow> mem option" where
  "mach_write_to_n_little_endian m b 0 n = None"
| "mach_write_to_n_little_endian m b (Suc k) n =
    (let m = m(b := ucast (n AND 0xFF))
     in if k = 0 then Some m else mach_write_to_n_little_endian m (b + 1) k (drop_bit 8 n))"

definition mach_read_from_2_little_endian :: "mem \<Rightarrow> ptr \<Rightarrow> ulint" where
  "mach_read_from_2_little_endian m b = ucast (m b) + ucast (m (b + 1)) * 256"

definition mach_write_to_2_little_endian :: "mem \<Rightarrow> ptr \<Rightarrow> ulint \<Rightarrow> mem" where
  "mach_write_to_2_little_endian m b n =
     m(b := ucast (n AND 0xFF), b + 1 := ucast (drop_bit 8 n AND 0xFF))"

text \<open>
  The fall-through switch copies \<open>len mod 8\<close> bytes, eight for a multiple of eight, from
  \<open>from\<close> upwards to \<open>dest + len\<close> downwards; the two buffers are distinct objects.
\<close>

definition mach_swap_byte_order :: "mem \<Rightarrow> ptr \<Rightarrow> mem \<Rightarrow> ptr \<Rightarrow> nat \<Rightarrow> mem" where
  "mach_swap_byte_order d dest s from_p len =
     (let n = (if len mod 8 = 0 then 8 else len mod 8)
      in fold (\<lambda>i d. d(dest + len - Suc i := s (from_p + i))) [0..<n] d)"

definition mach_read_int_type :: "mem \<Rightarrow> ptr \<Rightarrow> mem \<Rightarrow> ptr \<Rightarrow> nat \<Rightarrow> bool \<Rightarrow> mem" where
  "mach_read_int_type d dst s src len usign =
     (let d = mach_swap_byte_order d dst s src len
      in if usign then d(dst + len - 1 := d (dst + len - 1) XOR 0x80) else d)"

definition mach_write_int_type :: "mem \<Rightarrow> ptr \<Rightarrow> mem \<Rightarrow> ptr \<Rightarrow> nat \<Rightarrow> bool \<Rightarrow> mem" where
  "mach_write_int_type d dest s src len usign =
     (let d = mach_swap_byte_order d dest s src len
      in if usign then d(dest := d dest XOR 0x80) else d)"

definition mach_read_uint64 :: "mem \<Rightarrow> ptr \<Rightarrow> uint64" where
  "mach_read_uint64 m b = host_load 8 (mach_read_int_type (\<lambda>_. 0) 0 m b 8 True)"

definition mach_read_int64 :: "mem \<Rightarrow> ptr \<Rightarrow> uint64" where
  "mach_read_int64 m b = host_load 8 (mach_read_int_type (\<lambda>_. 0) 0 m b 8 False)"

definition mach_read_uint32 :: "mem \<Rightarrow> ptr \<Rightarrow> uint32" where
  "mach_read_uint32 m b = host_load 4 (mach_read_int_type (\<lambda>_. 0) 0 m b 4 True)"

definition mach_read_int32 :: "mem \<Rightarrow> ptr \<Rightarrow> uint32" where
  "mach_read_int32 m b = host_load 4 (mach_read_int_type (\<lambda>_. 0) 0 m b 4 False)"

definition mach_write_uint64 :: "mem \<Rightarrow> ptr \<Rightarrow> uint64 \<Rightarrow> mem" where
  "mach_write_uint64 m b v = mach_write_int_type m b (host_byte v) 0 8 True"

definition mach_write_int64 :: "mem \<Rightarrow> ptr \<Rightarrow> uint64 \<Rightarrow> mem" where
  "mach_write_int64 m b v = mach_write_int_type m b (host_byte v) 0 8 False"

definition mach_write_uint32 :: "mem \<Rightarrow> ptr \<Rightarrow> uint32 \<Rightarrow> mem" where
  "mach_write_uint32 m b v = mach_write_int_type m b (host_byte v) 0 4 True"

definition mach_write_int32 :: "mem \<Rightarrow> ptr \<Rightarrow> uint32 \<Rightarrow> mem" where
  "mach_write_int32 m b v = mach_write_int_type m b (host_byte v) 0 4 False"

section \<open>Reading and writing as arithmetic\<close>

lemma mask_consts:
  "(0xFF :: ulint) = mask 8" "(0x3FF :: ulint) = mask 10" "(0x3FFF :: ulint) = mask 14"
  "(0x1FFFF :: ulint) = mask 17" "(0x1FFFFF :: ulint) = mask 21" "(0xFFFFFF :: ulint) = mask 24"
  "(0xFFFFFFF :: ulint) = mask 28" "(0xFFFFFFFF :: ulint) = mask 32"
  by (simp_all add: mask_eq_exp_minus_1)

lemma unat_and_consts [unat_arith_simps]:
  "unat ((x :: ulint) AND 0xFF) = unat x mod 0x100"
  "unat ((x :: ulint) AND 0x3FF) = unat x mod 0x400"
  "unat ((x :: ulint) AND 0x3FFF) = unat x mod 0x4000"
  "unat ((x :: ulint) AND 0x1FFFF) = unat x mod 0x20000"
  "unat ((x :: ulint) AND 0x1FFFFF) = unat x mod 0x200000"
  "unat ((x :: ulint) AND 0xFFFFFF) = unat x mod 0x1000000"
  "unat ((x :: ulint) AND 0xFFFFFFF) = unat x mod 0x10000000"
  "unat ((x :: ulint) AND 0xFFFFFFFF) = unat x mod 0x100000000"
  unfolding mask_consts by (simp_all add: unat_and_mask del: mask_numeral)

lemma unat_mach_read_from_1 [unat_arith_simps]: "unat (mach_read_from_1 m b) = unat (m b)"
  using unat_byte_less [of "m b"] by (simp add: mach_read_from_1_def unat_arith_simps)

lemma unat_mach_read_from_2 [unat_arith_simps]:
  "unat (mach_read_from_2 m b) = unat (m b) * 2 ^ 8 + unat (m (b + 1))"
  using unat_byte_less [of "m b"] unat_byte_less [of "m (b + 1)"]
  by (simp add: mach_read_from_2_def unat_arith_simps)

lemma unat_mach_read_from_3 [unat_arith_simps]:
  "unat (mach_read_from_3 m b) =
     unat (m b) * 2 ^ 16 + unat (m (b + 1)) * 2 ^ 8 + unat (m (b + 2))"
  using unat_byte_less [of "m b"] unat_byte_less [of "m (b + 1)"] unat_byte_less [of "m (b + 2)"]
  by (simp add: mach_read_from_3_def unat_arith_simps)

lemma unat_mach_read_from_4 [unat_arith_simps]:
  "unat (mach_read_from_4 m b) =
     unat (m b) * 2 ^ 24 + unat (m (b + 1)) * 2 ^ 16 + unat (m (b + 2)) * 2 ^ 8 + unat (m (b + 3))"
  using unat_byte_less [of "m b"] unat_byte_less [of "m (b + 1)"]
    unat_byte_less [of "m (b + 2)"] unat_byte_less [of "m (b + 3)"]
  by (simp add: mach_read_from_4_def unat_arith_simps)

lemmas mach_write_defs =
  mach_write_to_1_def mach_write_to_2_def mach_write_to_3_def mach_write_to_4_def

lemma mach_read_from_4_less: "unat (mach_read_from_4 m b) < 2 ^ 32"
  using unat_byte_less [of "m b"] unat_byte_less [of "m (b + 1)"]
    unat_byte_less [of "m (b + 2)"] unat_byte_less [of "m (b + 3)"]
  by (simp add: unat_arith_simps)

text \<open>Joining a high and a low half, as every 64-bit reader does.\<close>

lemma unat_or_halves:
  fixes high low :: uint64
  assumes "unat low < 2 ^ 32"
  shows "unat (push_bit 32 high OR low) = (unat high mod 2 ^ 32) * 2 ^ 32 + unat low"
proof -
  have "unat (push_bit 32 high) = (unat high mod 2 ^ 32) * 2 ^ 32"
    using mult_mod_right [of "2 ^ 32" "unat high" "2 ^ 32"]
    by (simp add: unat_arith_simps mult.commute)
  moreover have "unat (low OR push_bit 32 high) = unat low + unat (push_bit 32 high)"
    by (rule unat_or_disjoint [OF assms]) (simp add: calculation)
  ultimately show ?thesis by (simp add: or.commute)
qed

lemma split_halves: "unat (v :: uint64) = unat v div 2 ^ 32 * 2 ^ 32 + unat v mod 2 ^ 32"
  by simp

section \<open>Contract of a fixed-width field\<close>

locale byte_codec =
  fixes n :: nat
    and wr :: "mem \<Rightarrow> ptr \<Rightarrow> 'v \<Rightarrow> mem"
    and rd :: "mem \<Rightarrow> ptr \<Rightarrow> 'r"
    and ok :: "'v \<Rightarrow> bool"
    and val :: "'v \<Rightarrow> 'r"
  assumes wr_frame: "a < b \<or> b + n \<le> a \<Longrightarrow> wr m b v a = m a"
    and rd_local: "(\<And>i. i < n \<Longrightarrow> m (b + i) = m' (b + i)) \<Longrightarrow> rd m b = rd m' b"
    and rd_wr: "ok v \<Longrightarrow> rd (wr m b v) b = val v"
begin

lemma rd_wr_other: "b' + n \<le> b \<or> b + n \<le> b' \<Longrightarrow> rd (wr m b v) b' = rd m b'"
  by (rule rd_local) (auto intro!: wr_frame)

lemma rd_wr_far: "(\<And>i. i < n \<Longrightarrow> a < b' + i \<or> b' + i < a) \<Longrightarrow> rd (m(a := x)) b' = rd m b'"
  by (rule rd_local) auto

lemma rd_overwrite: "ok v \<Longrightarrow> rd (wr (wr m b u) b v) b = val v"
  by (rule rd_wr)

end

interpretation codec1: byte_codec 1 mach_write_to_1 mach_read_from_1 "\<lambda>v. unat v < 2 ^ 8" id
proof
  show "mach_write_to_1 m b v a = m a" if "a < b \<or> b + 1 \<le> a" for a b m v
    using that by (auto simp: mach_write_defs)
  show "mach_read_from_1 m b = mach_read_from_1 m' b" if "\<And>i. i < 1 \<Longrightarrow> m (b + i) = m' (b + i)"
    for m m' b using that [of 0] by (simp add: mach_read_from_1_def)
  show "mach_read_from_1 (mach_write_to_1 m b v) b = id v" if "unat v < 2 ^ 8" for m b v
    using that by (simp add: unat_eq_iff unat_arith_simps) (simp add: mach_write_defs unat_arith_simps)
qed

interpretation codec2: byte_codec 2 mach_write_to_2 mach_read_from_2 "\<lambda>v. unat v < 2 ^ 16" id
proof
  show "mach_write_to_2 m b v a = m a" if "a < b \<or> b + 2 \<le> a" for a b m v
    using that by (auto simp: mach_write_defs)
  show "mach_read_from_2 m b = mach_read_from_2 m' b" if "\<And>i. i < 2 \<Longrightarrow> m (b + i) = m' (b + i)"
    for m m' b using that [of 0] that [of 1] by (simp add: mach_read_from_2_def)
  show "mach_read_from_2 (mach_write_to_2 m b v) b = id v" if "unat v < 2 ^ 16" for m b v
    using that by (simp add: unat_eq_iff unat_arith_simps) (simp add: mach_write_defs unat_arith_simps)
qed

interpretation codec3: byte_codec 3 mach_write_to_3 mach_read_from_3 "\<lambda>v. unat v < 2 ^ 24" ucast
proof
  show "mach_write_to_3 m b v a = m a" if "a < b \<or> b + 3 \<le> a" for a b m v
    using that by (auto simp: mach_write_defs)
  show "mach_read_from_3 m b = mach_read_from_3 m' b" if "\<And>i. i < 3 \<Longrightarrow> m (b + i) = m' (b + i)"
    for m m' b using that [of 0] that [of 1] that [of 2] by (simp add: mach_read_from_3_def)
  show "mach_read_from_3 (mach_write_to_3 m b v) b = ucast v" if "unat v < 2 ^ 24" for m b v
    using that digits_3 [of "unat v"]
    by (simp add: unat_eq_iff unat_arith_simps) (simp add: mach_write_defs unat_arith_simps)
qed

interpretation codec4: byte_codec 4 mach_write_to_4 mach_read_from_4 "\<lambda>_. True" ucast
proof
  show "mach_write_to_4 m b v a = m a" if "a < b \<or> b + 4 \<le> a" for a b m v
    using that by (auto simp: mach_write_defs)
  show "mach_read_from_4 m b = mach_read_from_4 m' b" if "\<And>i. i < 4 \<Longrightarrow> m (b + i) = m' (b + i)"
    for m m' b using that [of 0] that [of 1] that [of 2] that [of 3]
    by (simp add: mach_read_from_4_def)
  show "mach_read_from_4 (mach_write_to_4 m b v) b = ucast v" for m b v
    using unat_uint32_less [of v] digits_4 [of "unat v"]
    by (simp add: unat_eq_iff unat_arith_simps) (simp add: mach_write_defs unat_arith_simps)
qed

interpretation codec8: byte_codec 8 mach_write_to_8 mach_read_from_8 "\<lambda>_. True" id
proof
  show "mach_write_to_8 m b v a = m a" if "a < b \<or> b + 8 \<le> a" for a b m v
    using that by (auto simp: mach_write_to_8_def codec4.wr_frame)
  show "mach_read_from_8 m b = mach_read_from_8 m' b" if "\<And>i. i < 8 \<Longrightarrow> m (b + i) = m' (b + i)"
    for m m' b
  proof -
    have "mach_read_from_4 m b = mach_read_from_4 m' b"
      by (rule codec4.rd_local) (simp add: that)
    moreover have "mach_read_from_4 m (b + 4) = mach_read_from_4 m' (b + 4)"
      by (rule codec4.rd_local) (simp add: that add.assoc)
    ultimately show ?thesis by (simp add: mach_read_from_8_def)
  qed
  show "mach_read_from_8 (mach_write_to_8 m b v) b = id v" for m b v
    using split_halves [of v] unat_uint64_less [of v]
    by (simp add: unat_eq_iff mach_read_from_8_def mach_write_to_8_def codec4.rd_wr
        codec4.rd_wr_other unat_or_halves) (simp add: unat_arith_simps unat_or_halves)
qed
section \<open>Contract of a variable-length field\<close>

text \<open>
  A writer that reports how many bytes it used, and a reader that finds the value again in
  any memory that agrees with the written bytes.
\<close>

locale var_codec =
  fixes wr :: "mem \<Rightarrow> ptr \<Rightarrow> 'v \<Rightarrow> mem \<times> nat"
    and sz :: "'v \<Rightarrow> nat"
    and rd :: "mem \<Rightarrow> ptr \<Rightarrow> 'v"
    and ok :: "'v \<Rightarrow> bool"
  assumes wr_size: "snd (wr m b v) = sz v"
    and wr_frame: "a < b \<or> b + sz v \<le> a \<Longrightarrow> fst (wr m b v) a = m a"
    and rd_agree: "ok v \<Longrightarrow> (\<And>i. i < sz v \<Longrightarrow> m' (b + i) = fst (wr m b v) (b + i)) \<Longrightarrow> rd m' b = v"
begin

lemma rd_wr: "ok v \<Longrightarrow> rd (fst (wr m b v)) b = v"
  by (rule rd_agree) auto

text \<open>Two fields written one after the other, as the undo record header does.\<close>

lemma rd_wr_seq:
  assumes "ok u" "ok v" "wr m b u = (m1, s1)" "wr m1 (b + s1) v = (m2, s2)"
  shows "rd m2 b = u \<and> rd m2 (b + sz u) = v \<and> s1 = sz u \<and> s2 = sz v"
proof -
  have s: "s1 = sz u" "s2 = sz v" "m1 = fst (wr m b u)" "m2 = fst (wr m1 (b + s1) v)"
    using wr_size [of m b u] wr_size [of m1 "b + s1" v] assms(3,4) by auto
  have "m2 (b + i) = fst (wr m b u) (b + i)" if "i < sz u" for i
    unfolding s(4) using that by (subst wr_frame) (auto simp: s(1,3))
  then have "rd m2 b = u" by (intro rd_agree [OF \<open>ok u\<close>])
  moreover have "rd m2 (b + sz u) = v" using s rd_wr [OF \<open>ok v\<close>] by simp
  ultimately show ?thesis using s by simp
qed

end

lemma or_consts [unat_arith_simps]:
  "unat v < 0x4000 \<Longrightarrow> unat ((v :: ulint) OR 0x8000) = unat v + 0x8000"
  "unat v < 0x200000 \<Longrightarrow> unat ((v :: ulint) OR 0xC00000) = unat v + 0xC00000"
  "unat v < 0x10000000 \<Longrightarrow> unat ((v :: ulint) OR 0xE0000000) = unat v + 0xE0000000"
  "unat v < 0x400 \<Longrightarrow> unat ((v :: ulint) OR 0xF800) = unat v + 0xF800"
  "unat v < 0x20000 \<Longrightarrow> unat ((v :: ulint) OR 0xFC0000) = unat v + 0xFC0000"
  "unat v < 0x1000000 \<Longrightarrow> unat ((v :: ulint) OR 0xFE000000) = unat v + 0xFE000000"
  "unat v < 0x400 \<Longrightarrow> unat ((v :: ulint) OR 0xFFFFFC00) = unat v + 0xFFFFFC00"
  "unat v < 0x20000 \<Longrightarrow> unat ((v :: ulint) OR 0xFFFE0000) = unat v + 0xFFFE0000"
  "unat v < 0x1000000 \<Longrightarrow> unat ((v :: ulint) OR 0xFF000000) = unat v + 0xFF000000"
  using unat_or_disjoint [of v 14 "0x8000"] unat_or_disjoint [of v 21 "0xC00000"]
    unat_or_disjoint [of v 28 "0xE0000000"] unat_or_disjoint [of v 10 "0xF800"]
    unat_or_disjoint [of v 17 "0xFC0000"] unat_or_disjoint [of v 24 "0xFE000000"]
    unat_or_disjoint [of v 10 "0xFFFFFC00"] unat_or_disjoint [of v 17 "0xFFFE0000"]
    unat_or_disjoint [of v 24 "0xFF000000"]
  by simp_all

lemma mach_write_compressed_size [simp]:
  "snd (mach_write_compressed m b v) = mach_get_compressed_size v"
  by (simp add: mach_write_compressed_def mach_get_compressed_size_def)

lemma mach_write_compressed_frame:
  assumes "a < b \<or> b + mach_get_compressed_size v \<le> a"
  shows "fst (mach_write_compressed m b v) a = m a"
  using assms codec1.wr_frame [of a b m] codec2.wr_frame [of a b m] codec3.wr_frame [of a b m]
    codec4.wr_frame [of a b m] codec4.wr_frame [of a "b + 1"] codec1.wr_frame [of a b m]
  by (simp add: mach_write_compressed_def mach_get_compressed_size_def split: if_split_asm) auto

lemma mach_get_compressed_size_bounds: "1 \<le> mach_get_compressed_size v \<and> mach_get_compressed_size v \<le> 5"
  by (simp add: mach_get_compressed_size_def)

text \<open>The bytes of the compressed form, by the range of the value.\<close>

lemmas compressed_ranges = word_less_nat_alt word_le_nat_alt

lemma mod_offset:
  assumes "(c :: nat) \<le> x" "x < c + d" "d dvd c"
  shows "x mod d = x - c"
proof -
  from \<open>d dvd c\<close> have "x mod d = (x - c) mod d"
    using \<open>c \<le> x\<close> by (metis add_diff_inverse_nat dvd_imp_mod_0 mod_add_left_eq not_le add_0)
  also have "\<dots> = x - c" using assms(1,2) by simp
  finally show ?thesis .
qed

lemma first_byte_of_2: "unat (m b) = unat (mach_read_from_2 m b) div 2 ^ 8"
  using unat_byte_less [of "m (b + 1)"] by (simp add: unat_arith_simps)

lemma first_byte_of_3: "unat (m b) = unat (mach_read_from_3 m b) div 2 ^ 16"
  using unat_byte_less [of "m (b + 1)"] unat_byte_less [of "m (b + 2)"]
  by (simp add: unat_arith_simps)

lemma first_byte_of_4: "unat (m b) = unat (mach_read_from_4 m b) div 2 ^ 24"
  using unat_byte_less [of "m (b + 1)"] unat_byte_less [of "m (b + 2)"] unat_byte_less [of "m (b + 3)"]
  by (simp add: unat_arith_simps)

lemma agree_2:
  assumes "\<And>i. i < 2 \<Longrightarrow> m' (b + i) = mach_write_to_2 m b w (b + i)" "unat w < 2 ^ 16"
  shows "mach_read_from_2 m' b = w \<and> unat (m' b) = unat w div 2 ^ 8"
  using codec2.rd_local [of m' b "mach_write_to_2 m b w"] assms(1) codec2.rd_wr [OF assms(2)] first_byte_of_2 [of m' b] by simp

lemma agree_3:
  assumes "\<And>i. i < 3 \<Longrightarrow> m' (b + i) = mach_write_to_3 m b w (b + i)" "unat w < 2 ^ 24"
  shows "mach_read_from_3 m' b = ucast w \<and> unat (m' b) = unat w div 2 ^ 16"
  using codec3.rd_local [of m' b "mach_write_to_3 m b w"] assms(1) codec3.rd_wr [OF assms(2)] first_byte_of_3 [of m' b] assms(2)
  by (simp add: unat_arith_simps)

lemma agree_4:
  assumes "\<And>i. i < 4 \<Longrightarrow> m' (b + i) = mach_write_to_4 m b w (b + i)"
  shows "mach_read_from_4 m' b = ucast w \<and> unat (m' b) = unat w div 2 ^ 24"
  using codec4.rd_local [of m' b "mach_write_to_4 m b w"] assms codec4.rd_wr [of m b w] first_byte_of_4 [of m' b]
    unat_uint32_less [of w]
  by (simp add: unat_arith_simps)

text \<open>The length of a stored value as its first byte announces it.\<close>

definition compressed_len :: "byte \<Rightarrow> nat" where
  "compressed_len x =
     (if x < 0x80 then 1 else if x < 0xC0 then 2 else if x < 0xE0 then 3 else if x < 0xF0 then 4
      else if x < 0xF8 then 5 else if x < 0xFC then 2 else if x < 0xFE then 3 else 4)"

lemma read_compressed_branches:
  "unat (m b) < 0x80 \<Longrightarrow>
     mach_read_compressed m b = mach_read_from_1 m b \<and> compressed_len (m b) = 1"
  "0x80 \<le> unat (m b) \<Longrightarrow> unat (m b) < 0xC0 \<Longrightarrow>
     mach_read_compressed m b = mach_read_from_2 m b AND 0x3FFF \<and> compressed_len (m b) = 2"
  "0xC0 \<le> unat (m b) \<Longrightarrow> unat (m b) < 0xE0 \<Longrightarrow>
     mach_read_compressed m b = mach_read_from_3 m b AND 0x1FFFFF \<and> compressed_len (m b) = 3"
  "0xE0 \<le> unat (m b) \<Longrightarrow> unat (m b) < 0xF0 \<Longrightarrow>
     mach_read_compressed m b = mach_read_from_4 m b AND 0xFFFFFFF \<and> compressed_len (m b) = 4"
  "0xF0 \<le> unat (m b) \<Longrightarrow> unat (m b) < 0xF8 \<Longrightarrow>
     mach_read_compressed m b = mach_read_from_4 m (b + 1) \<and> compressed_len (m b) = 5"
  "0xF8 \<le> unat (m b) \<Longrightarrow> unat (m b) < 0xFC \<Longrightarrow>
     mach_read_compressed m b = (mach_read_from_2 m b AND 0x3FF) OR 0xFFFFFC00 \<and> compressed_len (m b) = 2"
  "0xFC \<le> unat (m b) \<Longrightarrow> unat (m b) < 0xFE \<Longrightarrow>
     mach_read_compressed m b = (mach_read_from_3 m b AND 0x1FFFF) OR 0xFFFE0000 \<and> compressed_len (m b) = 3"
  "0xFE \<le> unat (m b) \<Longrightarrow>
     mach_read_compressed m b = mach_read_from_3 m (b + 1) OR 0xFF000000 \<and> compressed_len (m b) = 4"
  by (simp_all add: mach_read_compressed_def compressed_len_def compressed_ranges
      unat_mach_read_from_1 Let_def del: numeral_plus_numeral)

lemma mach_compressed_agree_short:
  assumes v: "unat v < 0x10000000"
    and eq: "\<And>i. i < mach_get_compressed_size v \<Longrightarrow> m' (b + i) = fst (mach_write_compressed m b v) (b + i)"
  shows "mach_read_compressed m' b = v \<and> compressed_len (m' b) = mach_get_compressed_size v"
proof -
  note defs = mach_write_compressed_def mach_get_compressed_size_def compressed_ranges
  consider (s1) "unat v < 0x80" | (s2) "0x80 \<le> unat v" "unat v < 0x4000"
    | (s3) "0x4000 \<le> unat v" "unat v < 0x200000"
    | (s4) "0x200000 \<le> unat v" "unat v < 0x10000000"
    using v by linarith
  then show ?thesis
  proof cases
    case s1
    then have "m' b = ucast v" using eq [of 0] by (simp add: defs mach_write_defs)
    then show ?thesis using s1 read_compressed_branches(1) [of m' b]
      by (simp add: defs unat_eq_iff unat_arith_simps)
  next
    case s2
    define w where "w = v OR 0x8000"
    have w: "unat w = unat v + 0x8000" using s2 by (simp add: w_def unat_arith_simps)
    have r: "mach_read_from_2 m' b = w \<and> unat (m' b) = unat w div 2 ^ 8"
      using eq s2 w by (intro agree_2 [where m = m]) (simp_all add: defs w_def)
    then show ?thesis using s2 w read_compressed_branches(2) [of m' b]
        mod_offset [of "0x8000" "unat w" "0x4000"]
      by (simp add: defs unat_eq_iff unat_and_consts)
  next
    case s3
    define w where "w = (ucast (v OR 0xC00000) :: uint32)"
    have w: "unat w = unat v + 0xC00000" using s3 by (simp add: w_def unat_arith_simps)
    have r: "mach_read_from_3 m' b = ucast w \<and> unat (m' b) = unat w div 2 ^ 16"
      using eq s3 w by (intro agree_3 [where m = m]) (simp_all add: defs w_def)
    then show ?thesis using s3 w read_compressed_branches(3) [of m' b]
        mod_offset [of "0xC00000" "unat w" "0x200000"]
      by (simp add: defs unat_eq_iff unat_and_consts unat_ucast_mod)
  next
    case s4
    define w where "w = (ucast (v OR 0xE0000000) :: uint32)"
    have w: "unat w = unat v + 0xE0000000" using s4 by (simp add: w_def unat_arith_simps)
    have r: "mach_read_from_4 m' b = ucast w \<and> unat (m' b) = unat w div 2 ^ 24"
      using eq s4 w by (intro agree_4 [where m = m]) (simp_all add: defs w_def)
    then show ?thesis using s4 w read_compressed_branches(4) [of m' b]
        mod_offset [of "0xE0000000" "unat w" "0x10000000"]
      by (simp add: defs unat_eq_iff unat_and_consts unat_ucast_mod)
  qed
qed

lemma mach_compressed_agree_long:
  assumes v: "0x10000000 \<le> unat v" "unat v < 2 ^ 32"
    and eq: "\<And>i. i < mach_get_compressed_size v \<Longrightarrow> m' (b + i) = fst (mach_write_compressed m b v) (b + i)"
  shows "mach_read_compressed m' b = v \<and> compressed_len (m' b) = mach_get_compressed_size v"
proof -
  note defs = mach_write_compressed_def mach_get_compressed_size_def compressed_ranges
  consider (s5) "0x10000000 \<le> unat v" "unat v < 0xFF000000"
    | (e4) "0xFF000000 \<le> unat v" "unat v < 0xFFFE0000"
    | (e3) "0xFFFE0000 \<le> unat v" "unat v < 0xFFFFFC00"
    | (e2) "0xFFFFFC00 \<le> unat v" "unat v < 2 ^ 32"
    using v by linarith
  then show ?thesis
  proof cases
    case s5
    have e: "m' (b + i) = mach_write_to_4 (mach_write_to_1 m b 0xF0) (b + 1) (ucast v) (b + i)"
      if "i < 5" for i using eq [of i] s5 that by (simp add: defs)
    have "m' b = 0xF0" using e [of 0] by (simp add: mach_write_defs)
    moreover have "mach_read_from_4 m' (b + 1) = ucast (ucast v :: uint32) \<and>
        unat (m' (b + 1)) = unat (ucast v :: uint32) div 2 ^ 24"
      using e [of "Suc _"] by (intro agree_4 [where m = "mach_write_to_1 m b 0xF0"]) simp
    ultimately show ?thesis using s5 read_compressed_branches(5) [of m' b]
      by (simp add: defs unat_eq_iff unat_ucast_mod)
  next
    case e4
    define w where "w = (ucast ((v AND 0xFFFFFF) OR 0xFE000000) :: uint32)"
    have w: "unat w = unat v - 0xFF000000 + 0xFE000000"
      using e4 mod_offset [of "0xFF000000" "unat v" "0x1000000"] by (simp add: w_def unat_arith_simps)
    have r: "mach_read_from_4 m' b = ucast w \<and> unat (m' b) = unat w div 2 ^ 24"
      using eq e4 w by (intro agree_4 [where m = m]) (simp_all add: defs w_def)
    then have "unat (m' b) = 0xFE" using e4 w by simp
    moreover have "unat (mach_read_from_3 m' (b + 1)) = unat v - 0xFF000000"
      using r [THEN conjunct1] w e4 \<open>unat (m' b) = 0xFE\<close>
      by (simp add: unat_eq_iff unat_mach_read_from_3 unat_mach_read_from_4 unat_ucast_mod numeral_3_eq_3)
    ultimately show ?thesis using e4 read_compressed_branches(8) [of m' b]
      by (simp add: defs unat_eq_iff or_consts)
  next
    case e3
    define w where "w = (ucast ((v AND 0x1FFFF) OR 0xFC0000) :: uint32)"
    have w: "unat w = unat v - 0xFFFE0000 + 0xFC0000"
      using e3 mod_offset [of "0xFFFE0000" "unat v" "0x20000"] by (simp add: w_def unat_arith_simps)
    have r: "mach_read_from_3 m' b = ucast w \<and> unat (m' b) = unat w div 2 ^ 16"
      using eq e3 w by (intro agree_3 [where m = m]) (simp_all add: defs w_def)
    then show ?thesis using e3 w read_compressed_branches(7) [of m' b]
        mod_offset [of "0xFC0000" "unat w" "0x20000"]
      by (simp add: defs unat_eq_iff unat_and_consts unat_ucast_mod or_consts)
  next
    case e2
    define w where "w = (v AND 0x3FF) OR 0xF800"
    have w: "unat w = unat v - 0xFFFFFC00 + 0xF800"
      using e2 mod_offset [of "0xFFFFFC00" "unat v" "0x400"] by (simp add: w_def unat_arith_simps)
    have r: "mach_read_from_2 m' b = w \<and> unat (m' b) = unat w div 2 ^ 8"
      using eq e2 w by (intro agree_2 [where m = m]) (simp_all add: defs w_def)
    then show ?thesis using e2 w read_compressed_branches(6) [of m' b]
        mod_offset [of "0xF800" "unat w" "0x400"]
      by (simp add: defs unat_eq_iff unat_and_consts or_consts)
  qed
qed

lemma mach_compressed_agree:
  assumes "unat v < 2 ^ 32"
    and "\<And>i. i < mach_get_compressed_size v \<Longrightarrow> m' (b + i) = fst (mach_write_compressed m b v) (b + i)"
  shows "mach_read_compressed m' b = v \<and> compressed_len (m' b) = mach_get_compressed_size v"
  using mach_compressed_agree_short [of v m' b m] mach_compressed_agree_long [of v m' b m] assms
  by (cases "unat v < 0x10000000") auto

interpretation compressed: var_codec mach_write_compressed mach_get_compressed_size
  mach_read_compressed "\<lambda>v. unat v < 2 ^ 32"
  using mach_compressed_agree mach_write_compressed_frame by unfold_locales auto

text \<open>The two other readers in terms of the first.\<close>

lemma mach_uint32_read_compressed_eq:
  "mach_uint32_read_compressed m b = (ucast (mach_read_compressed m b), b + compressed_len (m b))"
  by (simp add: mach_uint32_read_compressed_def mach_read_compressed_def compressed_len_def
      compressed_ranges unat_mach_read_from_1 Let_def)

lemma mach_parse_compressed_eq:
  "mach_parse_compressed m p end_ptr =
     (if p + compressed_len (m p) \<le> end_ptr
      then (ucast (mach_read_compressed m p), Some (p + compressed_len (m p)))
      else (0, None))"
  by (simp add: mach_parse_compressed_def mach_read_compressed_def compressed_len_def
      compressed_ranges unat_mach_read_from_1 Let_def)

section \<open>64-bit compressed forms\<close>

lemma ucast32_roundtrip: "unat v < 2 ^ 32 \<Longrightarrow> ucast (ucast (v :: uint64) :: uint32) = v"
  by (simp add: unat_eq_iff unat_arith_simps)

lemma unat_high_half: "unat (drop_bit 32 (v :: uint64)) < 2 ^ 32"
  using unat_uint64_less [of v] by (simp add: unat_arith_simps less_mult_imp_div_less)

lemma join_halves: "push_bit 32 (drop_bit 32 v) OR ucast (ucast v :: uint32) = (v :: uint64)"
  using split_halves [of v] unat_high_half [of v]
  by (simp add: unat_eq_iff unat_or_halves unat_arith_simps)

lemma mach_uint64_compressed_parts:
  assumes "mach_uint64_write_compressed m b v = (m', n)"
  defines "s \<equiv> mach_get_compressed_size (drop_bit 32 v)"
  shows "n = s + 4" and "mach_read_compressed m' b = drop_bit 32 v"
    and "compressed_len (m' b) = s" and "mach_read_from_4 m' (b + s) = ucast (ucast v :: uint32)"
proof -
  obtain m1 where m1: "mach_write_compressed m b (drop_bit 32 v) = (m1, s)"
    using mach_write_compressed_size [of m b "drop_bit 32 v"]
    by (cases "mach_write_compressed m b (drop_bit 32 v)") (simp add: s_def)
  with assms have n: "n = s + 4" and m': "m' = mach_write_to_4 m1 (b + s) (ucast v)"
    by (auto simp: mach_uint64_write_compressed_def)
  have "m' (b + i) = fst (mach_write_compressed m b (drop_bit 32 v)) (b + i)" if "i < s" for i
    using that m1 by (simp add: m' codec4.wr_frame)
  then have "mach_read_compressed m' b = drop_bit 32 v \<and> compressed_len (m' b) = s"
    unfolding s_def by (intro mach_compressed_agree [OF unat_high_half])
  then show "mach_read_compressed m' b = drop_bit 32 v" "compressed_len (m' b) = s" by auto
  show "n = s + 4" by (fact n)
  show "mach_read_from_4 m' (b + s) = ucast (ucast v :: uint32)"
    by (simp add: m' codec4.rd_wr)
qed

section \<open>Little-endian integers\<close>

text \<open>What the loops do on widths they are made for, as plain recursions.\<close>

fun le_value :: "mem \<Rightarrow> ptr \<Rightarrow> nat \<Rightarrow> ulint \<Rightarrow> ulint" where
  "le_value m buf 0 v = v"
| "le_value m buf (Suc k) v = le_value m buf k (push_bit 8 v + ucast (m (buf + k)))"

fun le_store :: "mem \<Rightarrow> ptr \<Rightarrow> nat \<Rightarrow> ulint \<Rightarrow> mem" where
  "le_store m b 0 n = m"
| "le_store m b (Suc k) n = le_store (m(b := ucast (n AND 0xFF))) (b + 1) k (drop_bit 8 n)"

lemma read_n_le_loop_eq: "mach_read_n_le_loop m buf n v = (if n = 0 then None else Some (le_value m buf n v))"
  by (induction m buf n v rule: mach_read_n_le_loop.induct) (auto simp: Let_def)

lemma write_n_le_eq: "mach_write_to_n_little_endian m b n v = (if n = 0 then None else Some (le_store m b n v))"
  by (induction m b n v rule: mach_write_to_n_little_endian.induct) (auto simp: Let_def fun_upd_def)

lemma le_store_frame: "a < b \<or> b + n \<le> a \<Longrightarrow> le_store m b n v a = m a"
  by (induction m b n v rule: le_store.induct) auto

lemma le_value_unat:
  "unat (le_value m buf k v) =
     (unat v * 256 ^ k + (\<Sum>i<k. unat (m (buf + i)) * 256 ^ i)) mod 2 ^ 64"
proof (induction m buf k v rule: le_value.induct)
  case (1 m buf v)
  then show ?case using unat_uint64_less [of v] by simp
next
  case (2 m buf k v)
  let ?S = "\<Sum>i<k. unat (m (buf + i)) * 256 ^ i"
  have "unat (push_bit 8 v + ucast (m (buf + k)) :: ulint) = (unat v * 256 + unat (m (buf + k))) mod 2 ^ 64"
    by (simp add: unat_arith_simps mod_add_eq)
  then have "unat (le_value m buf (Suc k) v) =
      ((unat v * 256 + unat (m (buf + k))) mod 2 ^ 64 * 256 ^ k + ?S) mod 2 ^ 64"
    by (simp only: le_value.simps 2)
  also have "\<dots> = ((unat v * 256 + unat (m (buf + k))) * 256 ^ k + ?S) mod 2 ^ 64"
    by (rule mod_mult_add_absorb)
  finally show ?case by (simp add: algebra_simps)
qed

lemma le_store_digit:
  "i < n \<Longrightarrow> unat (le_store m b n v (b + i)) = unat v div 256 ^ i mod 256"
proof (induction m b n v arbitrary: i rule: le_store.induct)
  case (1 m b n)
  then show ?case by simp
next
  case (2 m b k n)
  show ?case
  proof (cases i)
    case 0
    then show ?thesis by (simp add: le_store_frame unat_arith_simps)
  next
    case (Suc j)
    have "unat (le_store (m(b := ucast (n AND 0xFF))) (b + 1) k (drop_bit 8 n)
        (b + 1 + j)) = unat (drop_bit 8 n) div 256 ^ j mod 256"
      by (rule 2) (use 2(2) Suc in simp)
    then show ?thesis using Suc by (simp add: unat_drop_bit_div div_mult2_eq)
  qed
qed

lemma digits_sum: "(\<Sum>i<k. (v :: nat) div 256 ^ i mod 256 * 256 ^ i) = v mod 256 ^ k"
proof (induction k)
  case (Suc k)
  then show ?case using mod_mult2_eq [of v "256 ^ k" 256] by (simp add: algebra_simps)
qed simp

lemma n_little_endian_roundtrip:
  assumes "unat v < 256 ^ n" "0 < n"
  shows "\<exists>m'. mach_write_to_n_little_endian m b n v = Some m' \<and> mach_read_from_n_little_endian m' b n = Some v
    \<and> (\<forall>a. a < b \<or> b + n \<le> a \<longrightarrow> m' a = m a)"
proof -
  have "le_value (le_store m b n v) b n 0 = v"
    using assms unat_uint64_less [of v] by (simp add: unat_eq_iff le_value_unat le_store_digit digits_sum)
  then show ?thesis
    using assms(2) by (simp add: write_n_le_eq mach_read_from_n_little_endian_def read_n_le_loop_eq le_store_frame)
qed

section \<open>Host-order values\<close>

lemma bit_host_load:
  "bit (host_load n f :: 'a::len word) k \<longleftrightarrow> k < LENGTH('a) \<and> k < 8 * n \<and> bit (f (k div 8)) (k mod 8)"
proof (induction n)
  case (Suc n)
  have "bit (f n) (k - 8 * n) \<longleftrightarrow> bit (f (k div 8)) (k mod 8)" if "8 * n \<le> k" "k < 8 * Suc n"
  proof -
    have "k div 8 = n" "k mod 8 = k - 8 * n" using that by (auto simp: div_nat_eqI mod_nat_eqI)
    then show ?thesis by simp
  qed
  moreover have "\<not> bit (f n) (k - 8 * n)" if "8 * Suc n \<le> k"
    using that bit_imp_le_length [of "f n" "k - 8 * n"] by auto
  moreover have "bit (host_load (Suc n) f :: 'a word) k \<longleftrightarrow>
      bit (host_load n f :: 'a word) k \<or> k < LENGTH('a) \<and> 8 * n \<le> k \<and> bit (f n) (k - 8 * n)"
    by (auto simp: bit_simps)
  ultimately show ?case
    using Suc by (cases "k < 8 * n"; cases "k < 8 * Suc n") auto
qed simp

lemma bit_host_byte: "bit (host_byte (v :: 'a::len word) i) k \<longleftrightarrow> k < 8 \<and> bit v (8 * i + k)"
  by (auto simp: host_byte_def bit_simps)

lemma host_load_byte: "LENGTH('a) \<le> 8 * n \<Longrightarrow> host_load n (host_byte (v :: 'a::len word)) = v"
  by (rule bit_eqI) (auto simp: bit_host_load bit_host_byte dest: bit_imp_le_length)

lemma host_load_cong: "(\<And>i. i < n \<Longrightarrow> f i = g i) \<Longrightarrow> host_load n f = host_load n g"
  by (induction n) auto

lemma host_store_at: "i < n \<Longrightarrow> host_store n m b f (b + i) = f i"
  unfolding host_store_def by (induction n) (auto simp: less_Suc_eq)

lemma host_store_frame: "a < b \<or> b + n \<le> a \<Longrightarrow> host_store n m b f a = m a"
  unfolding host_store_def by (induction n) auto
lemma swap_fold:
  "n \<le> len \<Longrightarrow> fold (\<lambda>i d. d(dest + len - Suc i := s (from_p + i))) [0..<n] d a =
     (if dest + (len - n) \<le> a \<and> a < dest + len then s (from_p + (dest + len - Suc a)) else d a)"
  by (induction n) (auto simp: Suc_diff_Suc)

lemma mach_swap_byte_order_at:
  assumes "1 \<le> len" "len \<le> 8"
  shows "mach_swap_byte_order d dest s from_p len a =
     (if dest \<le> a \<and> a < dest + len then s (from_p + (dest + len - Suc a)) else d a)"
proof (cases "len = 8")
  case True
  then show ?thesis using swap_fold [of 8 8 dest s from_p d a] by (simp add: mach_swap_byte_order_def)
next
  case False
  with assms have "len mod 8 = len" by simp
  then show ?thesis using assms swap_fold [of len len dest s from_p d a] by (simp add: mach_swap_byte_order_def Let_def)
qed

lemma mach_write_int_type_at:
  assumes "1 \<le> len" "len \<le> 8" "i < len"
  shows "mach_write_int_type d dest s src len usign (dest + i) =
     (if usign \<and> i = 0 then s (src + (len - 1)) XOR 0x80 else s (src + (len - Suc i)))"
  using assms by (simp add: mach_write_int_type_def mach_swap_byte_order_at Let_def)

lemma mach_int_type_roundtrip:
  assumes "1 \<le> len" "len \<le> 8" "i < len"
  shows "mach_read_int_type d dst (mach_write_int_type d' dest s src len usign) dest len usign (dst + i)
    = s (src + i)"
proof -
  have idx: "dest + (dst + len - Suc (dst + i)) = dest + (len - Suc i)" by simp
  have "mach_swap_byte_order d dst (mach_write_int_type d' dest s src len usign) dest len (dst + i) =
      (if usign \<and> Suc i = len then s (src + i) XOR 0x80 else s (src + i))"
    using assms mach_write_int_type_at [of len "len - Suc i" d' dest s src usign]
    by (cases "Suc i = len") (auto simp: mach_swap_byte_order_at idx)
  moreover have "dst + i = dst + len - 1 \<longleftrightarrow> Suc i = len" using assms by auto
  moreover have "(x XOR 0x80) XOR 0x80 = x" for x :: byte by (simp add: xor.assoc)
  ultimately show ?thesis
    unfolding mach_read_int_type_def Let_def
    by (cases "Suc i = len"; cases usign) (simp_all del: One_nat_def)
qed

section \<open>Byte order of stored integers\<close>

definition buf_bytes :: "mem \<Rightarrow> ptr \<Rightarrow> nat \<Rightarrow> byte list" where
  "buf_bytes m b n = map (\<lambda>i. m (b + i)) [0..<n]"

text \<open>\<^verbatim>\<open>memcmp(a, b, n) < 0\<close> of the C library.\<close>

fun memcmp_less :: "byte list \<Rightarrow> byte list \<Rightarrow> bool" where
  "memcmp_less (x # xs) (y # ys) = (x < y \<or> x = y \<and> memcmp_less xs ys)"
| "memcmp_less _ _ = False"

fun be_value :: "byte list \<Rightarrow> nat" where
  "be_value [] = 0"
| "be_value (x # xs) = unat x * 256 ^ length xs + be_value xs"

lemma be_value_less: "be_value xs < 256 ^ length xs"
proof (induction xs)
  case (Cons x xs)
  have "be_value (x # xs) < (unat x + 1) * 256 ^ length xs" using Cons by simp
  also have "\<dots> \<le> 256 * 256 ^ length xs"
    using unat_byte_less [of x] by (intro mult_right_mono) auto
  finally show ?case by simp
qed simp

lemma memcmp_less_be_value:
  "length xs = length ys \<Longrightarrow> memcmp_less xs ys \<longleftrightarrow> be_value xs < be_value ys"
proof (induction xs ys rule: list_induct2)
  case (Cons x xs y ys)
  have lex: "p * c + a < q * c + b" if "a < c" "p < q" for a b c p q :: nat
  proof -
    have "p * c + a < (p + 1) * c" using that by simp
    also have "\<dots> \<le> q * c" using that by (intro mult_right_mono) auto
    finally show ?thesis by simp
  qed
  have "x < y \<Longrightarrow> be_value (x # xs) < be_value (y # ys)"
    "y < x \<Longrightarrow> be_value (y # ys) < be_value (x # xs)"
    using Cons(1) be_value_less [of xs] be_value_less [of ys]
    by (auto intro!: lex simp: word_less_nat_alt)
  then show ?case using Cons by (cases x y rule: linorder_cases) auto
qed simp

lemma be_value_map_rev: "be_value (map f (rev [0..<n])) = (\<Sum>i<n. unat (f i) * 256 ^ i)"
  by (induction n) auto

lemma unat_host_byte: "unat (host_byte (v :: 'a::len word) i) = unat v div 256 ^ i mod 256"
  by (simp add: host_byte_def unat_arith_simps power_mult)

lemma be_value_host: "be_value (map (host_byte v) (rev [0..<n])) = unat (v :: 'a::len word) mod 256 ^ n"
  by (simp add: be_value_map_rev unat_host_byte digits_sum)

definition flip_sign :: "'a::len word \<Rightarrow> 'a word" where
  "flip_sign v = v XOR 2 ^ (LENGTH('a) - 1)"

lemma host_byte_flip_sign:
  assumes "LENGTH('a::len) = 8 * n" "i < n"
  shows "host_byte (flip_sign (v :: 'a word)) i =
    (if Suc i = n then host_byte v i XOR 0x80 else host_byte v i)"
proof (rule bit_word_eqI)
  fix k assume k: "k < LENGTH(8)"
  have "(0x80 :: byte) = 2 ^ 7" by simp
  then have "bit (0x80 :: byte) k \<longleftrightarrow> k = 7" using k by (simp only: bit_exp_iff) auto
  moreover have "8 * n - 1 = 8 * i + k \<longleftrightarrow> Suc i = n \<and> k = 7" using k assms(2) by auto
  ultimately show "bit (host_byte (flip_sign v) i) k =
     bit (if Suc i = n then host_byte v i XOR 0x80 else host_byte v i) k"
    using k assms unfolding flip_sign_def
    by (auto simp: bit_host_byte bit_xor_iff bit_exp_iff)
qed

lemma flip_sign_add: "flip_sign v = v + (2 ^ (LENGTH('a) - 1) :: 'a::len word)"
proof (cases "bit v (LENGTH('a) - 1)")
  case False
  then have "v AND 2 ^ (LENGTH('a) - 1) = 0"
    by (intro bit_eqI) (auto simp: bit_and_iff bit_exp_iff)
  then show ?thesis by (simp add: flip_sign_def disjunctive_add_eq_xor)
next
  case True
  let ?t = "2 ^ (LENGTH('a) - 1) :: 'a word"
  have "(v XOR ?t) AND ?t = 0"
    using True by (intro bit_eqI) (auto simp: bit_and_iff bit_xor_iff bit_exp_iff)
  then have "(v XOR ?t) + ?t = (v XOR ?t) XOR ?t" by (rule disjunctive_add_eq_xor)
  then have "v = (v XOR ?t) + ?t" by (simp add: xor.assoc)
  then have "v + ?t = (v XOR ?t) + (?t + ?t)" by (metis add.assoc)
  moreover have "?t + ?t = 0"
    by (metis One_nat_def Suc_diff_1 exp_eq_zero_iff len_gt_0 mult_2 order_refl power_Suc)
  ultimately show ?thesis by (simp only: flip_sign_def add_0_right)
qed

lemma uint_flip_sign: "uint (flip_sign (v :: 'a::len word)) = sint v + 2 ^ (LENGTH('a) - 1)"
proof -
  have "uint (2 ^ (LENGTH('a) - 1) :: 'a word) = 2 ^ (LENGTH('a) - 1) mod 2 ^ LENGTH('a)"
    by (metis of_int_numeral of_int_power uint_word_of_int)
  then have "uint (flip_sign v) = take_bit LENGTH('a) (uint v + 2 ^ (LENGTH('a) - 1))"
    by (simp add: flip_sign_add uint_word_ariths take_bit_eq_mod mod_add_right_eq)
  also have "\<dots> = signed_take_bit (LENGTH('a) - 1) (uint v) + 2 ^ (LENGTH('a) - 1)"
    by (simp add: signed_take_bit_eq_take_bit_shift)
  finally show ?thesis by (simp add: sint_uint)
qed

lemma flip_sign_less: "flip_sign v < flip_sign w \<longleftrightarrow> sint v < sint w"
  by (simp add: word_less_def uint_flip_sign)

text \<open>What \<^verbatim>\<open>mach_write_int_type\<close> leaves in the buffer, read as a big-endian number.\<close>

lemma buf_bytes_write_int_type:
  fixes v :: "'a::len word"
  assumes "LENGTH('a) = 8 * n" "1 \<le> n" "n \<le> 8"
  shows "buf_bytes (mach_write_int_type m b (host_byte v) 0 n usign) b n =
    map (host_byte (if usign then flip_sign v else v)) (rev [0..<n])"
  using assms by (intro nth_equalityI)
    (auto simp: buf_bytes_def mach_write_int_type_at rev_nth host_byte_flip_sign)

lemma memcmp_stored:
  fixes v w :: "'a::len word"
  assumes "LENGTH('a) = 8 * n" "1 \<le> n" "n \<le> 8"
  shows "memcmp_less (buf_bytes (mach_write_int_type m b (host_byte v) 0 n usign) b n)
      (buf_bytes (mach_write_int_type m' b' (host_byte w) 0 n usign) b' n) \<longleftrightarrow>
    (if usign then sint v < sint w else v < w)"
proof -
  have "unat x mod 256 ^ n = unat x" for x :: "'a word"
  proof -
    have "unat x < 2 ^ LENGTH('a)" by (rule unsigned_less)
    with assms show ?thesis by (simp add: power_mult)
  qed
  then show ?thesis
    by (simp add: memcmp_less_be_value buf_bytes_write_int_type [OF assms] be_value_host
        flip: word_less_nat_alt flip_sign_less)
qed
section \<open>Properties\<close>

text \<open>
  C1. Compressed 32-bit integers round-trip: what \<^verbatim>\<open>mach_write_compressed\<close> writes is read
  back by both readers, \<^verbatim>\<open>mach_uint32_read_compressed\<close> advances its pointer by the number
  of bytes written, that number is \<^verbatim>\<open>mach_get_compressed_size\<close> (one to five), and no
  other byte of the buffer changes.
\<close>

theorem mach_compressed_roundtrip:
  assumes "unat v < 2 ^ 32" and "mach_write_compressed m b v = (m', n)"
  shows "mach_read_compressed m' b = v
    \<and> mach_uint32_read_compressed m' b = (ucast v, b + n)
    \<and> n = mach_get_compressed_size v \<and> 1 \<le> n \<and> n \<le> 5
    \<and> (\<forall>a. a < b \<or> b + n \<le> a \<longrightarrow> m' a = m a)"
proof -
  have m': "m' = fst (mach_write_compressed m b v)" and n: "n = mach_get_compressed_size v"
    using assms(2) mach_write_compressed_size [of m b v] by auto
  have "mach_read_compressed m' b = v \<and> compressed_len (m' b) = n"
    unfolding n by (rule mach_compressed_agree [OF assms(1)]) (simp add: m')
  then show ?thesis
    using n mach_get_compressed_size_bounds [of v] mach_write_compressed_frame [of _ b v m]
    by (auto simp: mach_uint32_read_compressed_eq m')
qed

theorem mach_compressed_roundtrip_witness:
  "mach_read_compressed (fst (mach_write_compressed (\<lambda>_. 0) 10 0xFFFFFFFF)) 10 = 0xFFFFFFFF
   \<and> snd (mach_write_compressed (\<lambda>_. 0) 10 0xFFFFFFFF) = 2"
proof -
  have eq: "mach_write_compressed (\<lambda>_. 0) 10 0xFFFFFFFF =
      (fst (mach_write_compressed (\<lambda>_. 0) 10 0xFFFFFFFF), 2)"
    by (simp add: mach_write_compressed_def)
  show ?thesis using mach_compressed_roundtrip [OF _ eq] by (simp add: mach_get_compressed_size_def)
qed

text \<open>
  C2. \<^verbatim>\<open>mach_parse_compressed\<close> on a log buffer: if the buffer holds the whole written field
  the value and the advanced pointer come back, and if it ends anywhere inside the field the
  parser reports an incomplete record (a null pointer) instead of a value.
\<close>

theorem mach_parse_compressed_correct:
  assumes "unat v < 2 ^ 32" and "mach_write_compressed m b v = (m', n)"
  shows "mach_parse_compressed m' b end_ptr =
    (if b + n \<le> end_ptr then (ucast v, Some (b + n)) else (0, None))"
proof -
  have m': "m' = fst (mach_write_compressed m b v)" and n: "n = mach_get_compressed_size v"
    using assms(2) mach_write_compressed_size [of m b v] by auto
  have "mach_read_compressed m' b = v \<and> compressed_len (m' b) = n"
    unfolding n by (rule mach_compressed_agree [OF assms(1)]) (simp add: m')
  then show ?thesis by (simp add: mach_parse_compressed_eq)
qed

theorem mach_parse_compressed_correct_witness:
  "mach_parse_compressed (fst (mach_write_compressed (\<lambda>_. 0) 10 300)) 10 12 = (300, Some 12)
   \<and> mach_parse_compressed (fst (mach_write_compressed (\<lambda>_. 0) 10 300)) 10 11 = (0, None)"
proof -
  have "mach_write_compressed (\<lambda>_. 0) 10 300 = (fst (mach_write_compressed (\<lambda>_. 0) 10 300), 2)"
    by (simp add: mach_write_compressed_def)
  from mach_parse_compressed_correct [OF _ this, of 12] mach_parse_compressed_correct [OF _ this, of 11]
  show ?thesis by simp
qed

text \<open>
  C3. 64-bit integers in the 5..9-byte compressed form round-trip, through the plain reader
  and through the log parser, which returns nothing when the buffer ends inside the field.
\<close>

theorem mach_uint64_compressed_roundtrip:
  assumes "mach_uint64_write_compressed m b v = (m', n)"
  shows "mach_uint64_read_compressed m' b = v
    \<and> n = mach_uint64_get_compressed_size v \<and> 5 \<le> n \<and> n \<le> 9
    \<and> mach_uint64_parse_compressed m' b end_ptr =
        (if b + n \<le> end_ptr then Some (b + n, v) else None)"
proof -
  note parts = mach_uint64_compressed_parts [OF assms]
  have hi: "ucast (ucast (drop_bit 32 v) :: uint32) = drop_bit 32 v"
    by (rule ucast32_roundtrip [OF unat_high_half])
  show ?thesis
    using parts mach_get_compressed_size_bounds [of "drop_bit 32 v"]
    by (auto simp: mach_uint64_read_compressed_def mach_uint32_read_compressed_eq hi join_halves
        mach_uint64_get_compressed_size_def mach_uint64_parse_compressed_def Let_def)
qed

theorem mach_uint64_compressed_roundtrip_witness:
  "mach_uint64_read_compressed (fst (mach_uint64_write_compressed (\<lambda>_. 0) 3 0x123456789A)) 3
     = 0x123456789A"
  using mach_uint64_compressed_roundtrip [of "\<lambda>_. 0" 3 "0x123456789A"
      "fst (mach_uint64_write_compressed (\<lambda>_. 0) 3 0x123456789A)"
      "snd (mach_uint64_write_compressed (\<lambda>_. 0) 3 0x123456789A)"] by simp

text \<open>
  C4. The fixed-width big-endian fields of 1, 2, 3, 4 and 8 bytes read back what was written
  and leave every byte outside the field alone.
\<close>

theorem mach_fixed_width_roundtrip:
  assumes "unat v1 < 2 ^ 8" "unat v2 < 2 ^ 16" "unat v3 < 2 ^ 24"
  shows "mach_read_from_1 (mach_write_to_1 m b v1) b = v1
    \<and> mach_read_from_2 (mach_write_to_2 m b v2) b = v2
    \<and> mach_read_from_3 (mach_write_to_3 m b v3) b = ucast v3
    \<and> mach_read_from_4 (mach_write_to_4 m b v4) b = ucast v4
    \<and> mach_read_from_8 (mach_write_to_8 m b v8) b = v8
    \<and> (\<forall>a. a < b \<or> b + 1 \<le> a \<longrightarrow> mach_write_to_1 m b v1 a = m a)
    \<and> (\<forall>a. a < b \<or> b + 2 \<le> a \<longrightarrow> mach_write_to_2 m b v2 a = m a)
    \<and> (\<forall>a. a < b \<or> b + 3 \<le> a \<longrightarrow> mach_write_to_3 m b v3 a = m a)
    \<and> (\<forall>a. a < b \<or> b + 4 \<le> a \<longrightarrow> mach_write_to_4 m b v4 a = m a)
    \<and> (\<forall>a. a < b \<or> b + 8 \<le> a \<longrightarrow> mach_write_to_8 m b v8 a = m a)"
  using assms codec1.rd_wr codec2.rd_wr codec3.rd_wr codec4.rd_wr codec8.rd_wr
  by (auto simp: codec1.wr_frame codec2.wr_frame codec3.wr_frame codec4.wr_frame codec8.wr_frame)

theorem mach_fixed_width_roundtrip_witness:
  "mach_read_from_2 (mach_write_to_2 (\<lambda>_. 7) 5 0xBEEF) 5 = 0xBEEF"
  using mach_fixed_width_roundtrip [of 1 "0xBEEF" 1 "\<lambda>_. 7" 5] by simp

text \<open>
  C5. The 6-byte reader used for transaction and row ids takes its high part from four bytes
  instead of two: a stored id comes back unchanged exactly when it is below \<open>2 ^ 16\<close>.
\<close>

theorem mach_6_byte_roundtrip_exact:
  assumes "unat v < 2 ^ 48"
  shows "mach_read_from_6 (mach_write_to_6 m b v) b = v \<longleftrightarrow> unat v < 2 ^ 16"
proof -
  let ?m = "mach_write_to_6 m b v"
  let ?x = "unat v"
  have lo: "unat (mach_read_from_4 ?m (b + 2)) = ?x mod 2 ^ 32"
    by (simp add: mach_write_to_6_def codec4.rd_wr) (simp add: unat_arith_simps)
  have "?m b = mach_write_to_2 m b (drop_bit 32 v) b" "?m (b + 1) = mach_write_to_2 m b (drop_bit 32 v) (b + 1)"
    by (simp_all add: mach_write_to_6_def codec4.wr_frame)
  then have hi: "unat (mach_read_from_4 ?m b) = ?x div 2 ^ 16"
    using assms digits_4 [of "?x div 2 ^ 16"]
    by (simp add: unat_mach_read_from_4 mach_write_to_6_def mach_write_defs unat_arith_simps
        div_mult2_eq [symmetric] less_mult_imp_div_less
        mod_mult_div [of _ "2 ^ 24" "2 ^ 8", simplified] mod_mult_div [of _ "2 ^ 16" "2 ^ 16", simplified]
        mod_mod_cancel)
  have "unat (mach_read_from_6 ?m b) = ?x div 2 ^ 16 mod 2 ^ 32 * 2 ^ 32 + ?x mod 2 ^ 32"
    unfolding mach_read_from_6_def by (subst unat_or_halves [OF mach_read_from_4_less]) (simp only: lo hi)
  moreover have "?x div 2 ^ 16 mod 2 ^ 32 = ?x div 2 ^ 16" using assms by (simp add: less_mult_imp_div_less)
  ultimately have "mach_read_from_6 ?m b = v \<longleftrightarrow> ?x div 2 ^ 16 = ?x div 2 ^ 32"
    using split_halves [of v] by (auto simp: unat_eq_iff)
  also have "\<dots> \<longleftrightarrow> ?x < 2 ^ 16"
    using div_shrinks [of "2 ^ 16" "?x div 2 ^ 16"] by (simp add: div_mult2_eq [symmetric] div_eq_0_iff)
  finally show ?thesis .
qed

theorem mach_6_byte_roundtrip_exact_witness:
  "mach_read_from_6 (mach_write_to_6 (\<lambda>_. 0) 0 0xFFFF) 0 = 0xFFFF
   \<and> mach_read_from_6 (mach_write_to_6 (\<lambda>_. 0) 0 0x10000) 0 \<noteq> 0x10000"
  using mach_6_byte_roundtrip_exact [of "0xFFFF" "\<lambda>_. 0" 0]
    mach_6_byte_roundtrip_exact [of "0x10000" "\<lambda>_. 0" 0] by simp

text \<open>
  C6. The 7-byte reader used for roll pointers takes its high part from four bytes instead of
  three: a stored roll pointer comes back unchanged exactly when it is below \<open>2 ^ 24\<close>.
\<close>

theorem mach_7_byte_roundtrip_exact:
  assumes "unat v < 2 ^ 56"
  shows "mach_read_from_7 (mach_write_to_7 m b v) b = v \<longleftrightarrow> unat v < 2 ^ 24"
proof -
  let ?m = "mach_write_to_7 m b v"
  let ?x = "unat v"
  have lo: "unat (mach_read_from_4 ?m (b + 3)) = ?x mod 2 ^ 32"
    by (simp add: mach_write_to_7_def codec4.rd_wr) (simp add: unat_arith_simps)
  have hi: "unat (mach_read_from_4 ?m b) = ?x div 2 ^ 24"
    using assms digits_4 [of "?x div 2 ^ 24"]
    by (simp add: unat_mach_read_from_4 mach_write_to_7_def mach_write_defs unat_arith_simps
        div_mult2_eq [symmetric] less_mult_imp_div_less
        mod_mult_div [of _ "2 ^ 24" "2 ^ 8", simplified] mod_mult_div [of _ "2 ^ 16" "2 ^ 16", simplified]
        mod_mult_div [of _ "2 ^ 8" "2 ^ 24", simplified] mod_mod_cancel)
  have "unat (mach_read_from_7 ?m b) = ?x div 2 ^ 24 mod 2 ^ 32 * 2 ^ 32 + ?x mod 2 ^ 32"
    unfolding mach_read_from_7_def by (subst unat_or_halves [OF mach_read_from_4_less]) (simp only: lo hi)
  moreover have "?x div 2 ^ 24 mod 2 ^ 32 = ?x div 2 ^ 24" using assms by (simp add: less_mult_imp_div_less)
  ultimately have "mach_read_from_7 ?m b = v \<longleftrightarrow> ?x div 2 ^ 24 = ?x div 2 ^ 32"
    using split_halves [of v] by (auto simp: unat_eq_iff)
  also have "\<dots> \<longleftrightarrow> ?x < 2 ^ 24"
    using div_shrinks [of "2 ^ 8" "?x div 2 ^ 24"] by (simp add: div_mult2_eq [symmetric] div_eq_0_iff)
  finally show ?thesis .
qed

theorem mach_7_byte_roundtrip_exact_witness:
  "mach_read_from_7 (mach_write_to_7 (\<lambda>_. 0) 0 0xFFFFFF) 0 = 0xFFFFFF
   \<and> mach_read_from_7 (mach_write_to_7 (\<lambda>_. 0) 0 0x1000000) 0 \<noteq> 0x1000000"
  using mach_7_byte_roundtrip_exact [of "0xFFFFFF" "\<lambda>_. 0" 0]
    mach_7_byte_roundtrip_exact [of "0x1000000" "\<lambda>_. 0" 0] by simp

lemma size_of_shifted_high:
  assumes "unat (h :: uint64) < 2 ^ 32" "h \<noteq> 0"
  shows "mach_get_compressed_size (push_bit 32 h) = 2"
proof -
  have "unat (push_bit 32 h) = unat h * 2 ^ 32" using assms(1) by (simp add: unat_arith_simps)
  moreover have "0 < unat h" using assms(2) by (simp add: unat_gt_0)
  ultimately show ?thesis by (simp add: mach_get_compressed_size_def compressed_ranges)
qed

lemma mach_much_compressed_parts:
  assumes "mach_uint64_write_much_compressed m b v = (m', n)" "v \<noteq> 0"
  defines "s \<equiv> mach_get_compressed_size (drop_bit 32 v)"
  shows "m' b = 0xFF" "mach_read_compressed m' (b + 1) = drop_bit 32 v"
    "mach_read_compressed m' (b + 1 + s) = v AND 0xFFFFFFFF"
    "n = 1 + s + mach_get_compressed_size (v AND 0xFFFFFFFF)"
proof -
  obtain m2 s1 where 2: "mach_write_compressed (m(b := 0xFF)) (b + 1) (drop_bit 32 v) = (m2, s1)"
    by fastforce
  obtain m3 s2 where 3: "mach_write_compressed m2 (b + 1 + s1) (v AND 0xFFFFFFFF) = (m3, s2)"
    by fastforce
  have lo: "unat (v AND 0xFFFFFFFF) < 2 ^ 32" by (simp add: unat_arith_simps)
  note seq = compressed.rd_wr_seq [OF unat_high_half lo 2 3]
  have m': "m' = m3" "n = 1 + s1 + s2"
    using assms(1,2) 2 3 by (auto simp: mach_uint64_write_much_compressed_def)
  have "m3 b = m2 b" "m2 b = 0xFF"
    using 2 3 mach_write_compressed_frame [of b "b + 1" "drop_bit 32 v" "m(b := 0xFF)"]
      mach_write_compressed_frame [of b "b + 1 + s1" "v AND 0xFFFFFFFF" m2] by auto
  then show "m' b = 0xFF" by (simp add: m')
  show "mach_read_compressed m' (b + 1) = drop_bit 32 v"
    "mach_read_compressed m' (b + 1 + s) = v AND 0xFFFFFFFF"
    "n = 1 + s + mach_get_compressed_size (v AND 0xFFFFFFFF)"
    using seq by (simp_all add: m' s_def)
qed

lemma join_halves_mask: "push_bit 32 (drop_bit 32 v) OR (v AND 0xFFFFFFFF) = (v :: uint64)"
  using split_halves [of v] unat_high_half [of v]
  by (simp add: unat_eq_iff unat_or_halves unat_arith_simps)

text \<open>
  C7. The 1..11-byte form of undo numbers and table ids: a value below \<open>2 ^ 32\<close>, or one whose
  high half takes two bytes in compressed form, is read back, and the size function gives
  the number of bytes written.
\<close>

theorem mach_much_compressed_roundtrip:
  assumes "mach_uint64_write_much_compressed m b v = (m', n)"
    and "unat v < 2 ^ 32 \<or> mach_get_compressed_size (drop_bit 32 v) = 2"
  shows "mach_uint64_read_much_compressed m' b = v \<and> n = mach_uint64_get_much_compressed_size v"
proof (cases "v = 0")
  case True
  with assms(1) have "m' = m(b := 0)" "n = 1"
    by (auto simp: mach_uint64_write_much_compressed_def mach_write_compressed_def mach_write_to_1_def)
  with True show ?thesis
    by (simp add: mach_uint64_read_much_compressed_def mach_uint64_get_much_compressed_size_def
        mach_read_compressed_def mach_read_from_1_def mach_get_compressed_size_def)
next
  case False
  note parts = mach_much_compressed_parts [OF assms(1) False]
  have "mach_get_compressed_size (push_bit 32 (drop_bit 32 v)) = mach_get_compressed_size (drop_bit 32 v)"
  proof (cases "drop_bit 32 v = 0")
    case True
    then show ?thesis by simp
  next
    case False
    then have "\<not> unat v < 2 ^ 32" by (auto simp: unat_eq_iff unat_drop_bit_div div_eq_0_iff)
    then show ?thesis using assms(2) False size_of_shifted_high [OF unat_high_half] by simp
  qed
  then show ?thesis
    using parts False join_halves_mask [of v]
    by (simp add: mach_uint64_read_much_compressed_def mach_uint64_get_much_compressed_size_def Let_def add.assoc)
qed

theorem mach_much_compressed_roundtrip_witness:
  "mach_uint64_read_much_compressed
     (fst (mach_uint64_write_much_compressed (\<lambda>_. 0) 0 5000)) 0 = 5000"
  using mach_much_compressed_roundtrip [of "\<lambda>_. 0" 0 5000
      "fst (mach_uint64_write_much_compressed (\<lambda>_. 0) 0 5000)"
      "snd (mach_uint64_write_much_compressed (\<lambda>_. 0) 0 5000)"] by simp

text \<open>
  C8. How the reader goes wrong on a value of \<open>2 ^ 32\<close> or more: it takes the length of the high part
  from the value already shifted left by 32 bits, so it looks for the low part three bytes after
  the start of the field however long the high part is.  When both halves are below 128, the field
  has three bytes, and what the reader returns as the low half are the bytes that follow the field
  in memory: the low half that was written plays no part.
\<close>

theorem mach_much_compressed_misread:
  assumes "mach_uint64_write_much_compressed m b v = (m', n)" "2 ^ 32 \<le> unat v"
  shows "mach_uint64_read_much_compressed m' b = (push_bit 32 (drop_bit 32 v) OR mach_read_compressed m' (b + 3))
    \<and> (unat (drop_bit 32 v) < 0x80 \<and> unat (v AND 0xFFFFFFFF) < 0x80 \<longrightarrow>
         n = 3 \<and> mach_uint64_read_much_compressed m' b = (push_bit 32 (drop_bit 32 v) OR mach_read_compressed m (b + 3)))"
proof -
  have v: "v \<noteq> 0" "drop_bit 32 v \<noteq> 0" using assms(2) by (auto simp: unat_eq_iff unat_drop_bit_div)
  note parts = mach_much_compressed_parts [OF assms(1) v(1)]
  have size: "mach_get_compressed_size (push_bit 32 (drop_bit 32 v)) = 2"
    by (rule size_of_shifted_high [OF unat_high_half v(2)])
  have read: "mach_uint64_read_much_compressed m' b = (push_bit 32 (drop_bit 32 v) OR mach_read_compressed m' (b + 3))"
    using parts(1,2) size by (simp add: mach_uint64_read_much_compressed_def Let_def)
  have "n = 3 \<and> mach_read_compressed m' (b + 3) = mach_read_compressed m (b + 3)"
    if small: "unat (drop_bit 32 v) < 0x80" "unat (v AND 0xFFFFFFFF) < 0x80"
  proof -
    have "drop_bit 32 v < 0x80" "v AND 0xFFFFFFFF < 0x80" using small by (simp_all add: word_less_nat_alt)
    then have "n = 3" "m' = m(b := 0xFF, b + 1 := ucast (drop_bit 32 v), b + 2 := ucast (v AND 0xFFFFFFFF))"
      using assms(1) v(1)
      by (auto simp: mach_uint64_write_much_compressed_def mach_write_compressed_def mach_write_to_1_def)
    then show ?thesis
      by (simp add: mach_read_compressed_def mach_read_from_1_def mach_read_from_2_def mach_read_from_3_def
          mach_read_from_4_def Let_def)
  qed
  then show ?thesis using read by simp
qed

theorem mach_much_compressed_misread_witness:
  "mach_uint64_read_much_compressed (fst (mach_uint64_write_much_compressed (\<lambda>_. 0) 0 (2 ^ 32 + 1))) 0 = 2 ^ 32"
proof -
  let ?w = "mach_uint64_write_much_compressed (\<lambda>_. 0) 0 (2 ^ 32 + 1)"
  have w: "?w = (fst ?w, snd ?w)" and big: "2 ^ 32 \<le> unat (2 ^ 32 + 1 :: uint64)" by simp_all
  have small: "unat (drop_bit 32 (2 ^ 32 + 1 :: uint64)) < 0x80 \<and> unat ((2 ^ 32 + 1 :: uint64) AND 0xFFFFFFFF) < 0x80"
    by simp
  have "mach_uint64_read_much_compressed (fst ?w) 0
      = (push_bit 32 (drop_bit 32 (2 ^ 32 + 1)) OR mach_read_compressed (\<lambda>_. 0) (0 + 3))"
    by (rule conjunct2 [OF mp [OF conjunct2 [OF mach_much_compressed_misread [OF w big]] small]])
  also have "mach_read_compressed (\<lambda>_. 0) (0 + 3) = 0" by (simp add: mach_read_compressed_def mach_read_from_1_def)
  finally show ?thesis by simp
qed

text \<open>
  C9. Integers stored by \<^verbatim>\<open>mach_write_int_type\<close>: every length from one to eight bytes
  round-trips for both values of the flag, and \<^verbatim>\<open>memcmp\<close> on the stored bytes orders 32- and
  64-bit values as unsigned numbers when the flag (\<^verbatim>\<open>usign\<close>) is false and as signed numbers
  when it is true.
\<close>

theorem mach_int_type_stored:
  fixes v w :: uint32 and v8 w8 :: uint64
  assumes "1 \<le> len" "len \<le> 8" "i < len"
  shows "mach_read_int_type d dst (mach_write_int_type d' dest s src len usign) dest len usign (dst + i)
      = s (src + i)
    \<and> (memcmp_less (buf_bytes (mach_write_int32 m b v) b 4) (buf_bytes (mach_write_int32 m' b' w) b' 4)
        \<longleftrightarrow> v < w)
    \<and> (memcmp_less (buf_bytes (mach_write_uint32 m b v) b 4) (buf_bytes (mach_write_uint32 m' b' w) b' 4)
        \<longleftrightarrow> sint v < sint w)
    \<and> (memcmp_less (buf_bytes (mach_write_int64 m b v8) b 8) (buf_bytes (mach_write_int64 m' b' w8) b' 8)
        \<longleftrightarrow> v8 < w8)
    \<and> (memcmp_less (buf_bytes (mach_write_uint64 m b v8) b 8) (buf_bytes (mach_write_uint64 m' b' w8) b' 8)
        \<longleftrightarrow> sint v8 < sint w8)"
  using mach_int_type_roundtrip [OF assms]
    memcmp_stored [where 'a = 32, of 4 m b v _ m' b' w] memcmp_stored [where 'a = 64, of 8 m b v8 _ m' b' w8]
  by (simp add: mach_write_int32_def mach_write_uint32_def mach_write_int64_def mach_write_uint64_def)

theorem mach_int_type_stored_witness:
  "\<not> memcmp_less (buf_bytes (mach_write_uint32 (\<lambda>_. 0) 0 1) 0 4)
                 (buf_bytes (mach_write_uint32 (\<lambda>_. 0) 0 0xFFFFFFFF) 0 4)"
  using mach_int_type_stored [of 1 0 "\<lambda>_. 0" 0 "\<lambda>_. 0" 0 "\<lambda>_. 0" 0 True "\<lambda>_. 0" 0 1 "\<lambda>_. 0" 0 "0xFFFFFFFF" 0 0]
  by simp

lemma host_byte_load:
  assumes "i < n" "8 * n \<le> LENGTH('a::len)"
  shows "host_byte (host_load n f :: 'a word) i = f i"
proof (rule bit_word_eqI)
  fix k assume "k < LENGTH(8)"
  moreover from this have "(8 * i + k) div 8 = i" "(8 * i + k) mod 8 = k" "8 * i + k < 8 * n"
    using assms(1) by auto
  ultimately show "bit (host_byte (host_load n f :: 'a word) i) k = bit (f i) k"
    using assms(2) by (simp add: bit_host_byte bit_host_load)
qed

lemma host_load_int_type:
  fixes v :: "'a::len word"
  assumes "LENGTH('a) = 8 * n" "1 \<le> n" "n \<le> 8"
  shows "host_load n (mach_read_int_type d 0 (mach_write_int_type m b (host_byte v) 0 n u) b n u) = v"
proof -
  have "host_load n (mach_read_int_type d 0 (mach_write_int_type m b (host_byte v) 0 n u) b n u)
      = (host_load n (host_byte v) :: 'a word)"
    using mach_int_type_roundtrip [OF assms(2,3), of _ d 0 m b "host_byte v" 0 u]
    by (intro host_load_cong) simp
  then show ?thesis using assms(1) by (simp add: host_load_byte)
qed

lemma host_load_store:
  "LENGTH('a) = 8 * n \<Longrightarrow> host_load n (\<lambda>i. host_store n m b (host_byte (v :: 'a::len word)) (b + i)) = v"
  using host_load_cong [where 'a = 'a, of n "\<lambda>i. host_store n m b (host_byte v) (b + i)" "host_byte v"]
  by (simp add: host_store_at host_load_byte)

lemma mach_decode_encode_2: "unat u < 2 ^ 16 \<Longrightarrow> mach_decode_2 (mach_encode_2 u) = u"
proof -
  assume "unat u < 2 ^ 16"
  moreover have "mach_decode_2 (mach_encode_2 u) = mach_read_from_2 (mach_write_to_2 (\<lambda>_. 0) 0 u) 0"
    unfolding mach_decode_2_def mach_encode_2_def
    by (rule codec2.rd_local) (simp add: host_byte_load)
  ultimately show ?thesis using codec2.rd_wr [of u] by simp
qed

lemma mach_2_little_endian_roundtrip:
  "unat u < 2 ^ 16 \<Longrightarrow> mach_read_from_2_little_endian (mach_write_to_2_little_endian m b u) b = u"
  by (simp add: unat_eq_iff mach_read_from_2_little_endian_def mach_write_to_2_little_endian_def
      unat_arith_simps unat_word_ariths)

text \<open>
  C10. The host-order helpers round-trip: the 4- and 8-byte typed readers undo the typed
  writers, doubles and floats keep their representation, little-endian fields of one
  to eight bytes read back and nothing outside them changes, and the canonical 16-bit form decodes to what was encoded.
\<close>

theorem mach_host_order_roundtrip:
  assumes "0 < k" "k \<le> 8" "unat n < 256 ^ k" "unat u < 2 ^ 16"
  shows "mach_read_uint32 (mach_write_uint32 m b v) b = v \<and> mach_read_int32 (mach_write_int32 m b v) b = v
    \<and> mach_read_uint64 (mach_write_uint64 m b v8) b = v8 \<and> mach_read_int64 (mach_write_int64 m b v8) b = v8
    \<and> mach_double_read (mach_double_write m b v8) b = v8 \<and> mach_float_read (mach_float_write m b v) b = v
    \<and> (\<exists>m'. mach_write_to_n_little_endian m b k n = Some m' \<and> mach_read_from_n_little_endian m' b k = Some n
         \<and> (\<forall>a. a < b \<or> b + k \<le> a \<longrightarrow> m' a = m a))
    \<and> mach_read_from_2_little_endian (mach_write_to_2_little_endian m b u) b = u
    \<and> mach_decode_2 (mach_encode_2 u) = u"
  using host_load_int_type [where 'a = 32, of 4] host_load_int_type [where 'a = 64, of 8]
    host_load_store [where 'a = 32, of 4] host_load_store [where 'a = 64, of 8]
    n_little_endian_roundtrip [OF assms(3,1)] mach_2_little_endian_roundtrip [OF assms(4)]
    mach_decode_encode_2 [OF assms(4)]
  by (simp add: mach_read_uint32_def mach_write_uint32_def mach_read_int32_def mach_write_int32_def
      mach_read_uint64_def mach_write_uint64_def mach_read_int64_def mach_write_int64_def
      mach_double_read_def mach_double_write_def mach_double_ptr_write_def
      mach_float_read_def mach_float_write_def mach_float_ptr_write_def)

theorem mach_host_order_roundtrip_witness:
  "(\<exists>m'. mach_write_to_n_little_endian (\<lambda>_. 0) 9 3 0x123456 = Some m' \<and> mach_read_from_n_little_endian m' 9 3 = Some 0x123456)
   \<and> mach_decode_2 (mach_encode_2 0x1234) = 0x1234"
  using mach_host_order_roundtrip [where k = 3 and n = "0x123456" and u = "0x1234" and m = "\<lambda>_. 0" and b = 9
      and v = 0 and ?v8.0 = 0] by auto

end
