(* ===== verification/Mtr_Log.thy ===== *)
theory Mtr_Log
  imports Mach_Data
begin

text \<open>
  Model of \<^verbatim>\<open>mtr/mtr0log.cc\<close> and the inline part of \<^verbatim>\<open>include/mtr0log.h\<close>: physical redo
  records of a mini-transaction.  A page frame is a memory whose address 0 is the start of
  the frame, so a pointer into it is the byte offset in the page.  The mini-transaction log
  (a \<^verbatim>\<open>Dyn_array\<close>) is a memory with the address of its first unused byte.  A release-build
  assertion (\<^verbatim>\<open>ut_a\<close>, \<^verbatim>\<open>ut_error\<close>) that fails is \<open>None\<close>; a parser that returns \<^verbatim>\<open>nullptr\<close> for
  an incomplete record returns \<open>None\<close> as the new pointer.
\<close>

section \<open>Constants and the mini-transaction handle\<close>

type_synonym mlog_type_t = byte

abbreviation (input) MLOG_1BYTE :: mlog_type_t where "MLOG_1BYTE \<equiv> 1"
abbreviation (input) MLOG_2BYTES :: mlog_type_t where "MLOG_2BYTES \<equiv> 2"
abbreviation (input) MLOG_4BYTES :: mlog_type_t where "MLOG_4BYTES \<equiv> 4"
abbreviation (input) MLOG_8BYTES :: mlog_type_t where "MLOG_8BYTES \<equiv> 8"
abbreviation (input) MLOG_WRITE_STRING :: mlog_type_t where "MLOG_WRITE_STRING \<equiv> 30"
abbreviation (input) MLOG_SINGLE_REC_FLAG :: mlog_type_t where "MLOG_SINGLE_REC_FLAG \<equiv> 128"
abbreviation (input) UNIV_PAGE_SIZE :: nat where "UNIV_PAGE_SIZE \<equiv> 16384"
abbreviation (input) FIL_PAGE_OFFSET :: nat where "FIL_PAGE_OFFSET \<equiv> 4"
abbreviation (input) FIL_PAGE_TYPE :: nat where "FIL_PAGE_TYPE \<equiv> 24"
abbreviation (input) FIL_PAGE_SPACE_ID :: nat where "FIL_PAGE_SPACE_ID \<equiv> 34"
abbreviation (input) FIL_PAGE_TYPE_INDEX :: ulint where "FIL_PAGE_TYPE_INDEX \<equiv> 17855"
abbreviation (input) SYS_TABLESPACE :: ulint where "SYS_TABLESPACE \<equiv> 0"
abbreviation (input) FSP_EXTENT_SIZE :: ulint where "FSP_EXTENT_SIZE \<equiv> 64"

datatype mtr_log_mode_t = MTR_LOG_ALL | MTR_LOG_SPACE | MTR_LOG_NONE | MTR_LOG_SHORT_INSERTS

record mtr_t =
  m_log :: mem
  m_log_used :: ptr
  m_n_log_recs :: uint32
  m_modifications :: bool
  m_dblwr_create_in_progress :: bool
  m_log_mode :: mtr_log_mode_t

text \<open>
  \<^verbatim>\<open>mtr_t::start\<close> on a handle: the log mode and the two counters are reset, the log buffer and the
  doublewrite flag keep their values.  The handle's \<^verbatim>\<open>m_state\<close> is written here and only read by
  debug assertions and \<^verbatim>\<open>commit\<close>; it is not part of the record.  \<open>mtr_fresh\<close> is a newly constructed
  handle, with an empty log.
\<close>

definition mtr_start :: "mtr_t \<Rightarrow> mtr_t" where
  "mtr_start mtr = mtr\<lparr>m_log_mode := MTR_LOG_ALL, m_modifications := False, m_n_log_recs := 0\<rparr>"

definition mtr_fresh :: mtr_t where
  "mtr_fresh = \<lparr>m_log = \<lambda>_. 0, m_log_used = 0, m_n_log_recs = 0, m_modifications = False,
     m_dblwr_create_in_progress = False, m_log_mode = MTR_LOG_ALL\<rparr>"

definition set_log_mode :: "mtr_log_mode_t \<Rightarrow> mtr_t \<Rightarrow> mtr_log_mode_t \<times> mtr_t" where
  "set_log_mode mode mtr =
     (m_log_mode mtr,
      if mode = MTR_LOG_SHORT_INSERTS \<and> m_log_mode mtr = MTR_LOG_NONE then mtr
      else mtr\<lparr>m_log_mode := mode\<rparr>)"

definition mlog_open :: "mtr_t \<Rightarrow> mtr_t \<times> ptr option" where
  "mlog_open mtr =
     (let mtr = mtr\<lparr>m_modifications := True\<rparr>
      in if m_log_mode mtr = MTR_LOG_NONE then (mtr, None) else (mtr, Some (m_log_used mtr)))"

definition mlog_close :: "mtr_t \<Rightarrow> ptr \<Rightarrow> mtr_t" where
  "mlog_close mtr p = mtr\<lparr>m_log_used := p\<rparr>"

section \<open>Writing records\<close>

text \<open>\<^verbatim>\<open>memcpy\<close> between distinct objects.\<close>

definition memcpy :: "mem \<Rightarrow> ptr \<Rightarrow> mem \<Rightarrow> ptr \<Rightarrow> nat \<Rightarrow> mem" where
  "memcpy d dp s sp n = (\<lambda>a. if dp \<le> a \<and> a < dp + n then s (sp + (a - dp)) else d a)"

definition mlog_write_initial_log_record_fast ::
  "mem \<Rightarrow> mlog_type_t \<Rightarrow> ptr \<Rightarrow> mtr_t \<Rightarrow> (mtr_t \<times> ptr) option" where
  "mlog_write_initial_log_record_fast page type log_ptr mtr =
     (let space = mach_read_from_4 page FIL_PAGE_SPACE_ID;
          offset = mach_read_from_4 page FIL_PAGE_OFFSET
      in if space \<noteq> SYS_TABLESPACE \<or> offset < FSP_EXTENT_SIZE \<or> offset \<ge> 3 * FSP_EXTENT_SIZE then
           let l = mach_write_to_1 (m_log mtr) log_ptr (ucast type);
               log_ptr = log_ptr + 1;
               (l, n) = mach_write_compressed l log_ptr space;
               log_ptr = log_ptr + n;
               (l, n) = mach_write_compressed l log_ptr offset;
               log_ptr = log_ptr + n
           in Some (mtr\<lparr>m_log := l, m_n_log_recs := m_n_log_recs mtr + 1\<rparr>, log_ptr)
         else None)"

definition mlog_write_initial_log_record :: "mem \<Rightarrow> mlog_type_t \<Rightarrow> mtr_t \<Rightarrow> mtr_t option" where
  "mlog_write_initial_log_record page type mtr =
     (case mlog_open mtr of
        (mtr, None) \<Rightarrow> Some mtr
      | (mtr, Some log_ptr) \<Rightarrow>
          if \<not> m_dblwr_create_in_progress mtr then
            (case mlog_write_initial_log_record_fast page type log_ptr mtr of
               None \<Rightarrow> None
             | Some (mtr, log_ptr) \<Rightarrow> Some (mlog_close mtr log_ptr))
          else Some (mlog_close mtr log_ptr))"

text \<open>
  \<^verbatim>\<open>Dyn_array::push_string\<close> insists on a non-empty string.
\<close>

definition mlog_catenate_string :: "mtr_t \<Rightarrow> mem \<Rightarrow> ptr \<Rightarrow> nat \<Rightarrow> mtr_t option" where
  "mlog_catenate_string mtr str p len =
     (if m_log_mode mtr = MTR_LOG_NONE then Some mtr
      else if len > 0 then
        Some (mtr\<lparr>m_log := memcpy (m_log mtr) (m_log_used mtr) str p len,
                  m_log_used := m_log_used mtr + len\<rparr>)
      else None)"

definition mlog_write_ulint ::
  "mem \<Rightarrow> nat \<Rightarrow> ulint \<Rightarrow> mlog_type_t \<Rightarrow> mtr_t \<Rightarrow> (mem \<times> mtr_t) option" where
  "mlog_write_ulint page off val type mtr =
     (case (if type = MLOG_1BYTE then Some (mach_write_to_1 page off val)
            else if type = MLOG_2BYTES then Some (mach_write_to_2 page off val)
            else if type = MLOG_4BYTES then Some (mach_write_to_4 page off (ucast val))
            else None) of
        None \<Rightarrow> None
      | Some page \<Rightarrow>
          (case mlog_open mtr of
             (mtr, None) \<Rightarrow> Some (page, mtr)
           | (mtr, Some log_ptr) \<Rightarrow>
               (case mlog_write_initial_log_record_fast page type log_ptr mtr of
                  None \<Rightarrow> None
                | Some (mtr, log_ptr) \<Rightarrow>
                    let l = mach_write_to_2 (m_log mtr) log_ptr (of_nat off);
                        log_ptr = log_ptr + 2;
                        (l, n) = mach_write_compressed l log_ptr val
                    in Some (page, mlog_close (mtr\<lparr>m_log := l\<rparr>) (log_ptr + n)))))"

definition mlog_write_uint64 :: "mem \<Rightarrow> nat \<Rightarrow> uint64 \<Rightarrow> mtr_t \<Rightarrow> (mem \<times> mtr_t) option" where
  "mlog_write_uint64 page off val mtr =
     (let page = mach_write_to_8 page off val
      in case mlog_open mtr of
           (mtr, None) \<Rightarrow> Some (page, mtr)
         | (mtr, Some log_ptr) \<Rightarrow>
             (case mlog_write_initial_log_record_fast page MLOG_8BYTES log_ptr mtr of
                None \<Rightarrow> None
              | Some (mtr, log_ptr) \<Rightarrow>
                  let l = mach_write_to_2 (m_log mtr) log_ptr (of_nat off);
                      log_ptr = log_ptr + 2;
                      (l, n) = mach_uint64_write_compressed l log_ptr val
                  in Some (page, mlog_close (mtr\<lparr>m_log := l\<rparr>) (log_ptr + n))))"

definition mlog_log_string :: "mem \<Rightarrow> nat \<Rightarrow> nat \<Rightarrow> mtr_t \<Rightarrow> mtr_t option" where
  "mlog_log_string page off len mtr =
     (case mlog_open mtr of
        (mtr, None) \<Rightarrow> Some mtr
      | (mtr, Some log_ptr) \<Rightarrow>
          (case mlog_write_initial_log_record_fast page MLOG_WRITE_STRING log_ptr mtr of
             None \<Rightarrow> None
           | Some (mtr, log_ptr) \<Rightarrow>
               let l = mach_write_to_2 (m_log mtr) log_ptr (of_nat off);
                   log_ptr = log_ptr + 2;
                   l = mach_write_to_2 l log_ptr (of_nat len);
                   log_ptr = log_ptr + 2
               in mlog_catenate_string (mlog_close (mtr\<lparr>m_log := l\<rparr>) log_ptr) page off len))"

definition mlog_write_string ::
  "mem \<Rightarrow> nat \<Rightarrow> mem \<Rightarrow> ptr \<Rightarrow> nat \<Rightarrow> mtr_t \<Rightarrow> (mem \<times> mtr_t) option" where
  "mlog_write_string page off str p len mtr =
     (if len < UNIV_PAGE_SIZE then
        let page = memcpy page off str p len
        in map_option (Pair page) (mlog_log_string page off len mtr)
      else None)"

definition mlog_catenate_ulint :: "mtr_t \<Rightarrow> ulint \<Rightarrow> mlog_type_t \<Rightarrow> mtr_t" where
  "mlog_catenate_ulint mtr val type =
     (if m_log_mode mtr = MTR_LOG_NONE then mtr
      else
        let p = m_log_used mtr;
            mtr = mtr\<lparr>m_log_used := p + unat type\<rparr>
        in if type = MLOG_4BYTES then mtr\<lparr>m_log := mach_write_to_4 (m_log mtr) p (ucast val)\<rparr>
           else if type = MLOG_2BYTES then mtr\<lparr>m_log := mach_write_to_2 (m_log mtr) p val\<rparr>
           else mtr\<lparr>m_log := mach_write_to_1 (m_log mtr) p val\<rparr>)"

definition mlog_catenate_ulint_compressed :: "mtr_t \<Rightarrow> ulint \<Rightarrow> mtr_t" where
  "mlog_catenate_ulint_compressed mtr val =
     (case mlog_open mtr of
        (mtr, None) \<Rightarrow> mtr
      | (mtr, Some log_ptr) \<Rightarrow>
          let (l, n) = mach_write_compressed (m_log mtr) log_ptr val
          in mlog_close (mtr\<lparr>m_log := l\<rparr>) (log_ptr + n))"

definition mlog_catenate_uint64_compressed :: "mtr_t \<Rightarrow> uint64 \<Rightarrow> mtr_t" where
  "mlog_catenate_uint64_compressed mtr val =
     (case mlog_open mtr of
        (mtr, None) \<Rightarrow> mtr
      | (mtr, Some log_ptr) \<Rightarrow>
          let (l, n) = mach_uint64_write_compressed (m_log mtr) log_ptr val
          in mlog_close (mtr\<lparr>m_log := l\<rparr>) (log_ptr + n))"

definition mlog_write_initial_log_record_for_file_op ::
  "mlog_type_t \<Rightarrow> uint32 \<Rightarrow> uint32 \<Rightarrow> ptr \<Rightarrow> mtr_t \<Rightarrow> mtr_t \<times> ptr" where
  "mlog_write_initial_log_record_for_file_op type space_id page_no log_ptr mtr =
     (let l = mach_write_to_1 (m_log mtr) log_ptr (ucast type);
          log_ptr = log_ptr + 1;
          (l, n) = mach_write_compressed l log_ptr (ucast space_id);
          log_ptr = log_ptr + n;
          (l, n) = mach_write_compressed l log_ptr (ucast page_no);
          log_ptr = log_ptr + n
      in (mtr\<lparr>m_log := l, m_n_log_recs := m_n_log_recs mtr + 1\<rparr>, log_ptr))"

text \<open>
  The part of \<^verbatim>\<open>mtr_log_reserve_and_write\<close> that closes the record group: an end marker after
  several records, otherwise the single-record flag on the first byte (address 0 of the log).
\<close>

definition mtr_log_finish :: "mtr_t \<Rightarrow> mtr_t" where
  "mtr_log_finish mtr =
     (if m_n_log_recs mtr > 1 then mlog_catenate_ulint mtr 31 MLOG_1BYTE
      else mtr\<lparr>m_log := (m_log mtr)(0 := m_log mtr 0 OR MLOG_SINGLE_REC_FLAG)\<rparr>)"

section \<open>Parsing records\<close>

definition mlog_parse_initial_log_record ::
  "mem \<Rightarrow> ptr \<Rightarrow> ptr \<Rightarrow> (ptr \<times> mlog_type_t \<times> uint32 \<times> uint32) option" where
  "mlog_parse_initial_log_record m p end_ptr =
     (if end_ptr < p + 1 then None
      else
        let type = m p AND NOT MLOG_SINGLE_REC_FLAG;
            p = p + 1
        in if end_ptr < p + 2 then None
           else case mach_parse_compressed m p end_ptr of
                  (_, None) \<Rightarrow> None
                | (space, Some p) \<Rightarrow>
                    (case mach_parse_compressed m p end_ptr of
                       (page_no, None) \<Rightarrow> None
                     | (page_no, Some p) \<Rightarrow> Some (p, type, space, page_no)))"

text \<open>
  The result of the record parsers: the new pointer, the page if one was given, and whether
  \<^verbatim>\<open>recv_sys->m_found_corrupt_log\<close> was set.
\<close>

record parse_result =
  pr_ptr :: "ptr option"
  pr_page :: "mem option"
  pr_corrupt :: bool

definition mlog_parse_nbytes ::
  "mlog_type_t \<Rightarrow> mem \<Rightarrow> ptr \<Rightarrow> ptr \<Rightarrow> mem option \<Rightarrow> parse_result option" where
  "mlog_parse_nbytes type m p end_ptr page =
     (if type \<le> MLOG_8BYTES then
        if end_ptr < p + 2 then Some \<lparr>pr_ptr = None, pr_page = page, pr_corrupt = False\<rparr>
        else
          let offset = mach_read_from_2 m p;
              p = p + 2
          in if unat offset \<ge> UNIV_PAGE_SIZE
             then Some \<lparr>pr_ptr = None, pr_page = page, pr_corrupt = True\<rparr>
             else if type = MLOG_8BYTES then
               (case mach_uint64_parse_compressed m p end_ptr of
                  None \<Rightarrow> Some \<lparr>pr_ptr = None, pr_page = page, pr_corrupt = False\<rparr>
                | Some (p, dval) \<Rightarrow>
                    Some \<lparr>pr_ptr = Some p,
                          pr_page = map_option (\<lambda>pg. mach_write_to_8 pg (unat offset) dval) page,
                          pr_corrupt = False\<rparr>)
             else
               (case mach_parse_compressed m p end_ptr of
                  (_, None) \<Rightarrow> Some \<lparr>pr_ptr = None, pr_page = page, pr_corrupt = False\<rparr>
                | (val, Some p) \<Rightarrow>
                    let val = (ucast val :: ulint);
                        corrupt = Some \<lparr>pr_ptr = None, pr_page = page, pr_corrupt = True\<rparr>;
                        ok = (\<lambda>w. Some \<lparr>pr_ptr = Some p, pr_page = map_option w page, pr_corrupt = False\<rparr>)
                    in if type = MLOG_1BYTE then
                         (if val > 0xFF then corrupt else ok (\<lambda>pg. mach_write_to_1 pg (unat offset) val))
                       else if type = MLOG_2BYTES then
                         (if val > 0xFFFF then corrupt else ok (\<lambda>pg. mach_write_to_2 pg (unat offset) val))
                       else if type = MLOG_4BYTES then
                         ok (\<lambda>pg. mach_write_to_4 pg (unat offset) (ucast val))
                       else corrupt)
      else None)"

definition mlog_parse_string :: "mem \<Rightarrow> ptr \<Rightarrow> ptr \<Rightarrow> mem option \<Rightarrow> parse_result option" where
  "mlog_parse_string m p end_ptr page =
     (if page = None \<or> mach_read_from_2 (the page) FIL_PAGE_TYPE \<noteq> FIL_PAGE_TYPE_INDEX then
        if end_ptr < p + 4 then Some \<lparr>pr_ptr = None, pr_page = page, pr_corrupt = False\<rparr>
        else
          let offset = unat (mach_read_from_2 m p);
              p = p + 2;
              len = unat (mach_read_from_2 m p);
              p = p + 2
          in if offset \<ge> UNIV_PAGE_SIZE \<or> len + offset > UNIV_PAGE_SIZE
             then Some \<lparr>pr_ptr = None, pr_page = page, pr_corrupt = True\<rparr>
             else if end_ptr < p + len then Some \<lparr>pr_ptr = None, pr_page = page, pr_corrupt = False\<rparr>
             else Some \<lparr>pr_ptr = Some (p + len),
                        pr_page = map_option (\<lambda>pg. memcpy pg offset m p len) page,
                        pr_corrupt = False\<rparr>
      else None)"


definition mlog_open_and_write_index ::
  "mtr_t \<Rightarrow> mem \<Rightarrow> mlog_type_t \<Rightarrow> nat \<Rightarrow> (mtr_t \<times> ptr option) option" where
  "mlog_open_and_write_index mtr page type sz =
     (case mlog_open mtr of
        (mtr, None) \<Rightarrow> Some (mtr, None)
      | (mtr, Some log_ptr) \<Rightarrow>
          (case mlog_write_initial_log_record_fast page type log_ptr mtr of
             None \<Rightarrow> None
           | Some (mtr, log_ptr) \<Rightarrow>
               let log_end = log_ptr + 11 + sz
               in if sz = 0 then Some (mlog_close mtr log_ptr, None)
                  else if log_ptr + sz > log_end then Some (mlog_open (mlog_close mtr log_ptr))
                  else Some (mtr, Some log_ptr)))"

section \<open>Fields found in a buffer\<close>

text \<open>A compressed field at an address, and its locality.\<close>

definition compressed_at :: "mem \<Rightarrow> ptr \<Rightarrow> ulint \<Rightarrow> bool" where
  "compressed_at m b v \<longleftrightarrow>
     mach_read_compressed m b = v \<and> compressed_len (m b) = mach_get_compressed_size v"

lemma mach_read_compressed_local:
  assumes "\<And>i. i < compressed_len (m b) \<Longrightarrow> m' (b + i) = m (b + i)"
  shows "mach_read_compressed m' b = mach_read_compressed m b"
proof -
  let ?n = "compressed_len (m b)"
  have 1: "mach_read_from_1 m' b = mach_read_from_1 m b"
    using assms [of 0] by (simp add: mach_read_from_1_def compressed_len_def split: if_splits)
  have 2: "2 \<le> ?n \<Longrightarrow> mach_read_from_2 m' b = mach_read_from_2 m b"
    by (rule codec2.rd_local) (simp add: assms)
  have 3: "3 \<le> ?n \<Longrightarrow> mach_read_from_3 m' b = mach_read_from_3 m b"
    by (rule codec3.rd_local) (simp add: assms)
  have 4: "4 \<le> ?n \<Longrightarrow> mach_read_from_4 m' b = mach_read_from_4 m b"
    by (rule codec4.rd_local) (simp add: assms)
  have 5: "5 \<le> ?n \<Longrightarrow> mach_read_from_4 m' (b + 1) = mach_read_from_4 m (b + 1)"
    by (rule codec4.rd_local) (use assms [of "Suc _"] in simp)
  have 6: "4 \<le> ?n \<Longrightarrow> mach_read_from_3 m' (b + 1) = mach_read_from_3 m (b + 1)"
    by (rule codec3.rd_local) (use assms [of "Suc _"] in simp)
  show ?thesis
    using 2 3 4 5 6
    by (simp add: mach_read_compressed_def 1 Let_def compressed_len_def compressed_ranges
        unat_mach_read_from_1 split: if_split_asm)
qed

lemma compressed_at_frame:
  assumes "compressed_at m b v" "\<And>a. b \<le> a \<Longrightarrow> a < b + mach_get_compressed_size v \<Longrightarrow> m' a = m a"
  shows "compressed_at m' b v"
proof -
  have 0: "m' b = m b" using assms(2) [of b] mach_get_compressed_size_bounds [of v] by simp
  have "mach_read_compressed m' b = mach_read_compressed m b"
    using assms by (intro mach_read_compressed_local) (auto simp: compressed_at_def)
  with 0 assms(1) show ?thesis by (simp add: compressed_at_def)
qed

lemma compressed_at_write: "unat v < 2 ^ 32 \<Longrightarrow> compressed_at (fst (mach_write_compressed m b v)) b v"
  unfolding compressed_at_def by (rule mach_compressed_agree) simp_all

lemma parse_compressed_at:
  "compressed_at m p v \<Longrightarrow> mach_parse_compressed m p end_ptr =
     (if p + mach_get_compressed_size v \<le> end_ptr then (ucast v, Some (p + mach_get_compressed_size v))
      else (0, None))"
  by (simp add: mach_parse_compressed_eq compressed_at_def)

section \<open>The initial part of a record\<close>

text \<open>
  \<open>header_at\<close>: the buffer holds the type byte, the space id and the page number of a page
  at an address; \<open>header_size\<close> is the number of bytes they take.
\<close>

definition page_space :: "mem \<Rightarrow> ulint" where
  "page_space page = mach_read_from_4 page FIL_PAGE_SPACE_ID"

definition page_number :: "mem \<Rightarrow> ulint" where
  "page_number page = mach_read_from_4 page FIL_PAGE_OFFSET"

definition header_size :: "mem \<Rightarrow> nat" where
  "header_size page = 1 + mach_get_compressed_size (page_space page) + mach_get_compressed_size (page_number page)"

definition header_at :: "mem \<Rightarrow> ptr \<Rightarrow> mlog_type_t \<Rightarrow> mem \<Rightarrow> bool" where
  "header_at m p type page \<longleftrightarrow> m p = type \<and> compressed_at m (p + 1) (page_space page)
     \<and> compressed_at m (p + 1 + mach_get_compressed_size (page_space page)) (page_number page)"

lemma header_size_bounds: "3 \<le> header_size page \<and> header_size page \<le> 11"
  using mach_get_compressed_size_bounds [of "page_space page"] mach_get_compressed_size_bounds [of "page_number page"]
  by (auto simp: header_size_def)

lemma header_at_frame:
  assumes "header_at m p type page" "\<And>a. p \<le> a \<Longrightarrow> a < p + header_size page \<Longrightarrow> m' a = m a"
  shows "header_at m' p type page"
  using assms header_size_bounds [of page] unfolding header_at_def
  by (auto simp: header_size_def elim!: compressed_at_frame)

lemma write_initial_fast:
  assumes "mlog_write_initial_log_record_fast page type log_ptr mtr = Some (mtr', p')"
  shows "header_at (m_log mtr') log_ptr type page" "p' = log_ptr + header_size page"
    "m_log_used mtr' = m_log_used mtr" "m_n_log_recs mtr' = m_n_log_recs mtr + 1"
    "m_log_mode mtr' = m_log_mode mtr"
    "a < log_ptr \<or> p' \<le> a \<Longrightarrow> m_log mtr' a = m_log mtr a"
proof -
  let ?s = "page_space page" and ?o = "page_number page"
  let ?l1 = "mach_write_to_1 (m_log mtr) log_ptr (ucast type)"
  let ?l2 = "fst (mach_write_compressed ?l1 (log_ptr + 1) ?s)"
  let ?l3 = "fst (mach_write_compressed ?l2 (log_ptr + 1 + mach_get_compressed_size ?s) ?o)"
  have eq: "mtr' = mtr\<lparr>m_log := ?l3, m_n_log_recs := m_n_log_recs mtr + 1\<rparr>" "p' = log_ptr + header_size page"
    using assms unfolding mlog_write_initial_log_record_fast_def
    by (auto simp: Let_def case_prod_beta page_space_def page_number_def header_size_def split: if_split_asm)
  note fr = mach_write_compressed_frame
  have "unat ?s < 2 ^ 32" "unat ?o < 2 ^ 32"
    unfolding page_space_def page_number_def by (rule mach_read_from_4_less)+
  then have "compressed_at ?l2 (log_ptr + 1) ?s"
    "compressed_at ?l3 (log_ptr + 1 + mach_get_compressed_size ?s) ?o"
    by (auto intro: compressed_at_write)
  moreover from this(1) have "compressed_at ?l3 (log_ptr + 1) ?s"
    by (rule compressed_at_frame) (simp add: fr)
  moreover have "?l3 log_ptr = type"
    by (simp add: fr mach_write_to_1_def) (use unat_byte_less [of type] in \<open>simp add: unat_eq_iff unat_arith_simps\<close>)
  ultimately show "header_at (m_log mtr') log_ptr type page"
    by (simp add: header_at_def eq)
  show "p' = log_ptr + header_size page" by (fact eq)
  show "m_log_used mtr' = m_log_used mtr" "m_n_log_recs mtr' = m_n_log_recs mtr + 1"
    "m_log_mode mtr' = m_log_mode mtr"
    by (simp_all add: eq)
  show "m_log mtr' a = m_log mtr a" if "a < log_ptr \<or> p' \<le> a"
    using that by (auto simp: eq fr header_size_def mach_write_to_1_def)
qed

lemma parse_initial_header:
  assumes "header_at m p type page" "type < MLOG_SINGLE_REC_FLAG"
  shows "mlog_parse_initial_log_record m p end_ptr =
     (if p + header_size page \<le> end_ptr
      then Some (p + header_size page, type, ucast (page_space page), ucast (page_number page)) else None)"
proof -
  have flag: "NOT MLOG_SINGLE_REC_FLAG = (mask 7 :: byte)" by (simp add: mask_eq_exp_minus_1)
  have t: "type AND NOT MLOG_SINGLE_REC_FLAG = type"
    unfolding flag unat_eq_iff using assms(2) by (simp add: unat_and_mask word_less_nat_alt)
  show ?thesis
    using assms(1) t mach_get_compressed_size_bounds [of "page_space page"]
      mach_get_compressed_size_bounds [of "page_number page"]
    by (auto simp: mlog_parse_initial_log_record_def header_at_def header_size_def parse_compressed_at Let_def)
qed


section \<open>Redo of page writes\<close>

text \<open>What the caller of a record parser sees of a record body cut off by the end of the buffer.\<close>

definition incomplete :: "mem option \<Rightarrow> parse_result option" where
  "incomplete page = Some \<lparr>pr_ptr = None, pr_page = page, pr_corrupt = False\<rparr>"

lemma mach_read_from_2_offset: "off < 2 ^ 16 \<Longrightarrow> unat (of_nat off :: ulint) = off"
  by (simp add: unsigned_of_nat take_bit_nat_eq_self)

text \<open>The two bytes of a page offset, followed by more fields.\<close>

lemma offset_field:
  assumes "off < 2 ^ 16" "\<And>a. p \<le> a \<Longrightarrow> a < p + 2 \<Longrightarrow> m a = mach_write_to_2 l p (of_nat off) a"
  shows "mach_read_from_2 m p = of_nat off"
proof -
  have "mach_read_from_2 m p = mach_read_from_2 (mach_write_to_2 l p (of_nat off)) p"
    using assms(2) by (intro codec2.rd_local) simp
  then show ?thesis using assms(1) codec2.rd_wr [of "of_nat off" l p] by (simp add: mach_read_from_2_offset)
qed

fun ulint_write :: "mlog_type_t \<Rightarrow> mem \<Rightarrow> nat \<Rightarrow> ulint \<Rightarrow> mem" where
  "ulint_write type page off val =
     (if type = MLOG_1BYTE then mach_write_to_1 page off val
      else if type = MLOG_2BYTES then mach_write_to_2 page off val
      else mach_write_to_4 page off (ucast val))"

definition ulint_type :: "mlog_type_t \<Rightarrow> bool" where
  "ulint_type type \<longleftrightarrow> type \<in> {MLOG_1BYTE, MLOG_2BYTES, MLOG_4BYTES}"

lemma mlog_write_ulint_eq:
  assumes "ulint_type type"
  shows "mlog_write_ulint page off val type mtr =
     (let page = ulint_write type page off val
      in case mlog_open mtr of
           (mtr, None) \<Rightarrow> Some (page, mtr)
         | (mtr, Some log_ptr) \<Rightarrow>
             (case mlog_write_initial_log_record_fast page type log_ptr mtr of
                None \<Rightarrow> None
              | Some (mtr, log_ptr) \<Rightarrow>
                  let l = mach_write_to_2 (m_log mtr) log_ptr (of_nat off);
                      log_ptr = log_ptr + 2;
                      (l, n) = mach_write_compressed l log_ptr val
                  in Some (page, mlog_close (mtr\<lparr>m_log := l\<rparr>) (log_ptr + n))))"
  using assms by (auto simp: mlog_write_ulint_def ulint_type_def Let_def)

lemma mlog_write_ulint_succeeds:
  assumes "ulint_type type"
    and "\<And>l mtr. mlog_write_initial_log_record_fast (ulint_write type page off val) type l mtr \<noteq> None"
  obtains mtr' where "mlog_write_ulint page off val type mtr = Some (ulint_write type page off val, mtr')"
proof (cases "m_log_mode mtr = MTR_LOG_NONE")
  case True
  then show thesis
    by (intro that) (simp add: mlog_write_ulint_eq [OF assms(1)] mlog_open_def Let_def del: ulint_write.simps)
next
  case False
  obtain mtr1 q where "mlog_write_initial_log_record_fast (ulint_write type page off val) type (m_log_used mtr)
      (mtr\<lparr>m_modifications := True\<rparr>) = Some (mtr1, q)"
    using assms(2) by (metis not_None_eq prod.collapse)
  with False show thesis
    by (intro that) (simp add: mlog_write_ulint_eq [OF assms(1)] mlog_open_def Let_def case_prod_beta
        del: ulint_write.simps)
qed

lemma mlog_write_ulint_record:
  assumes "mlog_write_ulint page off val type mtr = Some (page', mtr')"
    and "m_log_mode mtr \<noteq> MTR_LOG_NONE" "off < UNIV_PAGE_SIZE" "unat val < 2 ^ 32"
  defines "q \<equiv> m_log_used mtr + header_size page'"
  shows "ulint_type type" "page' = ulint_write type page off val"
    "header_at (m_log mtr') (m_log_used mtr) type page'"
    "mach_read_from_2 (m_log mtr') q = of_nat off" "compressed_at (m_log mtr') (q + 2) val"
    "m_log_used mtr' = q + 2 + mach_get_compressed_size val"
    "a < m_log_used mtr \<Longrightarrow> m_log mtr' a = m_log mtr a"
proof -
  obtain ty: "ulint_type type" "page' = ulint_write type page off val"
    using assms(1) by (auto simp: mlog_write_ulint_def ulint_type_def split: if_splits option.splits prod.splits)
  show "ulint_type type" "page' = ulint_write type page off val" by fact+
  let ?mtr0 = "mtr\<lparr>m_modifications := True\<rparr>"
  obtain mtr1 where
    1: "mlog_write_initial_log_record_fast page' type (m_log_used mtr) ?mtr0 = Some (mtr1, q)"
    using assms(1,2) ty unfolding q_def
    by (auto simp: mlog_write_ulint_def ulint_type_def mlog_open_def Let_def case_prod_beta write_initial_fast(2)
        split: if_splits option.splits)
  let ?l1 = "mach_write_to_2 (m_log mtr1) q (of_nat off)"
  let ?l2 = "fst (mach_write_compressed ?l1 (q + 2) val)"
  have mtr': "mtr' = mlog_close (mtr1\<lparr>m_log := ?l2\<rparr>) (q + 2 + mach_get_compressed_size val)"
    using assms(1,2) 1 ty
    by (auto simp: mlog_write_ulint_def ulint_type_def mlog_open_def Let_def case_prod_beta split: if_splits)
  have log: "m_log mtr' = ?l2" "m_log_used mtr' = q + 2 + mach_get_compressed_size val"
    by (simp_all add: mtr' mlog_close_def)
  note fr = mach_write_compressed_frame codec2.wr_frame
  show "header_at (m_log mtr') (m_log_used mtr) type page'"
    using write_initial_fast(1) [OF 1] by (rule header_at_frame) (simp add: log fr q_def)
  show "mach_read_from_2 (m_log mtr') q = of_nat off"
    using assms(3) by (intro offset_field [where l = "m_log mtr1"]) (simp_all add: log fr)
  show "compressed_at (m_log mtr') (q + 2) val"
    unfolding log using assms(4) by (rule compressed_at_write)
  show "m_log_used mtr' = q + 2 + mach_get_compressed_size val" by (fact log)
  show "m_log mtr' a = m_log mtr a" if "a < m_log_used mtr"
    using that write_initial_fast(6) [OF 1] by (simp add: log fr q_def)
qed


lemma compressed_end_bound: "compressed_at m p v \<Longrightarrow> p < p + mach_get_compressed_size v"
  using mach_get_compressed_size_bounds [of v] by simp

lemma parse_ulint_record:
  assumes "ulint_type type" "mach_read_from_2 m q = of_nat off" "off < UNIV_PAGE_SIZE"
    and "compressed_at m (q + 2) val" "unat val < 2 ^ (8 * unat type)"
  shows "mlog_parse_nbytes type m q end_ptr (Some page) =
     (if q + 2 + mach_get_compressed_size val \<le> end_ptr
      then Some \<lparr>pr_ptr = Some (q + 2 + mach_get_compressed_size val),
                 pr_page = Some (ulint_write type page off val), pr_corrupt = False\<rparr>
      else incomplete (Some page))"
proof -
  have off: "unat (of_nat off :: ulint) = off" using assms(3) by (simp add: mach_read_from_2_offset)
  have "unat val < 2 ^ 32" using assms(1,5) by (auto simp: ulint_type_def)
  then have val: "(ucast (ucast val :: uint32) :: ulint) = val" by (rule ucast32_roundtrip)
  show ?thesis
    using assms(1,3,5) off
    by (auto simp: mlog_parse_nbytes_def ulint_type_def assms(2) parse_compressed_at [OF assms(4), simplified] val Let_def
        incomplete_def word_less_nat_alt)
qed

text \<open>
  C11. Redo of a 1-, 2- or 4-byte page write.  The record that \<^verbatim>\<open>mlog_write_ulint\<close> appends names
  the page, and replaying its body on the page as it was before the write gives the page as
  the write left it and stops exactly at the end of the record.  If the buffer ends earlier
  the parsers report an incomplete record, change nothing and raise no corruption.  The bytes
  logged before are untouched.
\<close>

theorem mlog_write_ulint_redo:
  assumes "mlog_write_ulint page off val type mtr = Some (page', mtr')"
    and "m_log_mode mtr \<noteq> MTR_LOG_NONE" "off < UNIV_PAGE_SIZE" "unat val < 2 ^ (8 * unat type)"
  shows "(\<exists>q. m_log_used mtr < q \<and> q < m_log_used mtr' \<and> (\<forall>end_ptr.
      mlog_parse_initial_log_record (m_log mtr') (m_log_used mtr) end_ptr =
        (if q \<le> end_ptr then Some (q, type, ucast (page_space page'), ucast (page_number page')) else None)
      \<and> mlog_parse_nbytes type (m_log mtr') q end_ptr (Some page) =
          (if m_log_used mtr' \<le> end_ptr
           then Some \<lparr>pr_ptr = Some (m_log_used mtr'), pr_page = Some page', pr_corrupt = False\<rparr>
           else incomplete (Some page))))
    \<and> (\<forall>a < m_log_used mtr. m_log mtr' a = m_log mtr a)"
proof -
  have "ulint_type type"
    using assms(1) by (auto simp: mlog_write_ulint_def ulint_type_def split: if_splits option.splits prod.splits)
  then have "unat val < 2 ^ 32" "type < MLOG_SINGLE_REC_FLAG"
    using assms(4) by (auto simp: ulint_type_def)
  note rec = mlog_write_ulint_record [OF assms(1-3) this(1)]
  let ?q = "m_log_used mtr + header_size page'"
  show ?thesis
    using parse_initial_header [OF rec(3) \<open>type < _\<close>] header_size_bounds [of page'] rec(7)
      parse_ulint_record [OF rec(1,4) assms(3) rec(5) assms(4)]
    by (intro conjI exI [of _ ?q]) (simp_all add: rec(2,6))
qed

theorem mlog_write_ulint_redo_witness:
  "\<exists>page' mtr'. mlog_write_ulint (\<lambda>_. 0) 100 7 MLOG_4BYTES (mtr_start mtr_fresh) = Some (page', mtr')
    \<and> (\<exists>q. mlog_parse_nbytes MLOG_4BYTES (m_log mtr') q (m_log_used mtr') (Some (\<lambda>_. 0))
          = Some \<lparr>pr_ptr = Some (m_log_used mtr'), pr_page = Some page', pr_corrupt = False\<rparr>)"
proof -
  have "mlog_write_ulint (\<lambda>_. 0) 100 7 MLOG_4BYTES (mtr_start mtr_fresh) \<noteq> None"
    by (simp add: mtr_start_def mtr_fresh_def mlog_write_ulint_def mlog_open_def mlog_write_initial_log_record_fast_def Let_def
        case_prod_beta mach_write_to_4_def mach_read_from_4_def)
  then obtain page' mtr' where w: "mlog_write_ulint (\<lambda>_. 0) 100 7 MLOG_4BYTES (mtr_start mtr_fresh) = Some (page', mtr')"
    by (metis not_None_eq prod.collapse)
  have "m_log_mode (mtr_start mtr_fresh) \<noteq> MTR_LOG_NONE" by (simp add: mtr_start_def mtr_fresh_def)
  from mlog_write_ulint_redo [OF w this] obtain q where
    "\<forall>end_ptr. mlog_parse_nbytes MLOG_4BYTES (m_log mtr') q end_ptr (Some (\<lambda>_. 0)) =
       (if m_log_used mtr' \<le> end_ptr
        then Some \<lparr>pr_ptr = Some (m_log_used mtr'), pr_page = Some page', pr_corrupt = False\<rparr>
        else incomplete (Some (\<lambda>_. 0)))"
    by auto
  with w show ?thesis by (metis order_refl)
qed

text \<open>The same for 8-byte writes.\<close>

definition uint64_compressed_at :: "mem \<Rightarrow> ptr \<Rightarrow> uint64 \<Rightarrow> bool" where
  "uint64_compressed_at m b v \<longleftrightarrow> compressed_at m b (drop_bit 32 v)
     \<and> mach_read_from_4 m (b + mach_get_compressed_size (drop_bit 32 v)) = ucast (ucast v :: uint32)"

lemma uint64_compressed_at_write: "uint64_compressed_at (fst (mach_uint64_write_compressed m b v)) b v"
proof -
  obtain m' n where w: "mach_uint64_write_compressed m b v = (m', n)" by fastforce
  from mach_uint64_compressed_parts [OF w] show ?thesis
    by (simp add: w uint64_compressed_at_def compressed_at_def)
qed

lemma mach_uint64_write_compressed_size [simp]:
  "snd (mach_uint64_write_compressed m b v) = mach_uint64_get_compressed_size v"
  by (simp add: mach_uint64_write_compressed_def mach_uint64_get_compressed_size_def case_prod_beta)

lemma mach_uint64_write_compressed_frame:
  "a < b \<or> b + mach_uint64_get_compressed_size v \<le> a \<Longrightarrow> fst (mach_uint64_write_compressed m b v) a = m a"
  by (auto simp: mach_uint64_write_compressed_def mach_uint64_get_compressed_size_def case_prod_beta
      codec4.wr_frame mach_write_compressed_frame)

lemma parse_uint64_compressed_at:
  assumes "uint64_compressed_at m p v"
  shows "mach_uint64_parse_compressed m p end_ptr =
     (if p + mach_uint64_get_compressed_size v \<le> end_ptr
      then Some (p + mach_uint64_get_compressed_size v, v) else None)"
  using assms mach_get_compressed_size_bounds [of "drop_bit 32 v"] join_halves [of v]
  by (auto simp: mach_uint64_parse_compressed_def uint64_compressed_at_def compressed_at_def
      mach_uint64_get_compressed_size_def Let_def)

lemma mlog_write_uint64_record:
  assumes "mlog_write_uint64 page off val mtr = Some (page', mtr')"
    and "m_log_mode mtr \<noteq> MTR_LOG_NONE" "off < UNIV_PAGE_SIZE"
  defines "q \<equiv> m_log_used mtr + header_size page'"
  shows "page' = mach_write_to_8 page off val"
    "header_at (m_log mtr') (m_log_used mtr) MLOG_8BYTES page'"
    "mach_read_from_2 (m_log mtr') q = of_nat off" "uint64_compressed_at (m_log mtr') (q + 2) val"
    "m_log_used mtr' = q + 2 + mach_uint64_get_compressed_size val"
    "a < m_log_used mtr \<Longrightarrow> m_log mtr' a = m_log mtr a"
proof -
  show pg: "page' = mach_write_to_8 page off val"
    using assms(1) by (auto simp: mlog_write_uint64_def Let_def case_prod_beta split: option.splits prod.splits)
  let ?mtr0 = "mtr\<lparr>m_modifications := True\<rparr>"
  obtain mtr1 where
    1: "mlog_write_initial_log_record_fast page' MLOG_8BYTES (m_log_used mtr) ?mtr0 = Some (mtr1, q)"
    using assms(1,2) unfolding q_def pg
    by (auto simp: mlog_write_uint64_def mlog_open_def Let_def case_prod_beta write_initial_fast(2)
        split: option.splits)
  let ?l1 = "mach_write_to_2 (m_log mtr1) q (of_nat off)"
  let ?l2 = "fst (mach_uint64_write_compressed ?l1 (q + 2) val)"
  have mtr': "mtr' = mlog_close (mtr1\<lparr>m_log := ?l2\<rparr>) (q + 2 + mach_uint64_get_compressed_size val)"
    using assms(1,2) 1 pg by (auto simp: mlog_write_uint64_def mlog_open_def Let_def case_prod_beta)
  have log: "m_log mtr' = ?l2" "m_log_used mtr' = q + 2 + mach_uint64_get_compressed_size val"
    by (simp_all add: mtr' mlog_close_def)
  note fr = mach_uint64_write_compressed_frame codec2.wr_frame
  show "header_at (m_log mtr') (m_log_used mtr) MLOG_8BYTES page'"
    using write_initial_fast(1) [OF 1] by (rule header_at_frame) (simp add: log fr q_def)
  show "mach_read_from_2 (m_log mtr') q = of_nat off"
    using assms(3) by (intro offset_field [where l = "m_log mtr1"]) (simp_all add: log fr)
  show "uint64_compressed_at (m_log mtr') (q + 2) val"
    unfolding log by (rule uint64_compressed_at_write)
  show "m_log_used mtr' = q + 2 + mach_uint64_get_compressed_size val" by (fact log)
  show "m_log mtr' a = m_log mtr a" if "a < m_log_used mtr"
    using that write_initial_fast(6) [OF 1] by (simp add: log fr q_def)
qed

lemma parse_uint64_record:
  assumes "mach_read_from_2 m q = of_nat off" "off < UNIV_PAGE_SIZE" "uint64_compressed_at m (q + 2) val"
  shows "mlog_parse_nbytes MLOG_8BYTES m q end_ptr (Some page) =
     (if q + 2 + mach_uint64_get_compressed_size val \<le> end_ptr
      then Some \<lparr>pr_ptr = Some (q + 2 + mach_uint64_get_compressed_size val),
                 pr_page = Some (mach_write_to_8 page off val), pr_corrupt = False\<rparr>
      else incomplete (Some page))"
proof -
  have off: "unat (of_nat off :: ulint) = off" using assms(2) by (simp add: mach_read_from_2_offset)
  show ?thesis
    using assms(2) off
    by (auto simp: mlog_parse_nbytes_def assms(1) parse_uint64_compressed_at [OF assms(3), simplified] Let_def
        incomplete_def)
qed

text \<open>
  C12. Redo of an 8-byte page write: as for the shorter writes, for every value.
\<close>

theorem mlog_write_uint64_redo:
  assumes "mlog_write_uint64 page off val mtr = Some (page', mtr')"
    and "m_log_mode mtr \<noteq> MTR_LOG_NONE" "off < UNIV_PAGE_SIZE"
  shows "(\<exists>q. m_log_used mtr < q \<and> q < m_log_used mtr' \<and> (\<forall>end_ptr.
      mlog_parse_initial_log_record (m_log mtr') (m_log_used mtr) end_ptr =
        (if q \<le> end_ptr then Some (q, MLOG_8BYTES, ucast (page_space page'), ucast (page_number page')) else None)
      \<and> mlog_parse_nbytes MLOG_8BYTES (m_log mtr') q end_ptr (Some page) =
          (if m_log_used mtr' \<le> end_ptr
           then Some \<lparr>pr_ptr = Some (m_log_used mtr'), pr_page = Some page', pr_corrupt = False\<rparr>
           else incomplete (Some page))))
    \<and> (\<forall>a < m_log_used mtr. m_log mtr' a = m_log mtr a)"
proof -
  note rec = mlog_write_uint64_record [OF assms]
  let ?q = "m_log_used mtr + header_size page'"
  show ?thesis
    using parse_initial_header [OF rec(2)] header_size_bounds [of page'] rec(6)
      parse_uint64_record [OF rec(3) assms(3) rec(4)]
    by (intro conjI exI [of _ ?q]) (simp_all add: rec(1,5))
qed

theorem mlog_write_uint64_redo_witness:
  "\<exists>page' mtr'. mlog_write_uint64 (\<lambda>_. 0) 200 (2 ^ 40 + 3) (mtr_start mtr_fresh) = Some (page', mtr')
    \<and> (\<exists>q. mlog_parse_nbytes MLOG_8BYTES (m_log mtr') q (m_log_used mtr') (Some (\<lambda>_. 0))
          = Some \<lparr>pr_ptr = Some (m_log_used mtr'), pr_page = Some page', pr_corrupt = False\<rparr>)"
proof -
  have "mlog_write_uint64 (\<lambda>_. 0) 200 (2 ^ 40 + 3) (mtr_start mtr_fresh) \<noteq> None"
    by (simp add: mtr_start_def mtr_fresh_def mlog_write_uint64_def mlog_open_def mlog_write_initial_log_record_fast_def Let_def
        case_prod_beta mach_write_to_8_def mach_write_to_4_def mach_read_from_4_def)
  then obtain page' mtr' where w: "mlog_write_uint64 (\<lambda>_. 0) 200 (2 ^ 40 + 3) (mtr_start mtr_fresh) = Some (page', mtr')"
    by (metis not_None_eq prod.collapse)
  have "m_log_mode (mtr_start mtr_fresh) \<noteq> MTR_LOG_NONE" by (simp add: mtr_start_def mtr_fresh_def)
  from mlog_write_uint64_redo [OF w this] obtain q where
    "\<forall>end_ptr. mlog_parse_nbytes MLOG_8BYTES (m_log mtr') q end_ptr (Some (\<lambda>_. 0)) =
       (if m_log_used mtr' \<le> end_ptr
        then Some \<lparr>pr_ptr = Some (m_log_used mtr'), pr_page = Some page', pr_corrupt = False\<rparr>
        else incomplete (Some (\<lambda>_. 0)))"
    by auto
  with w show ?thesis by (metis order_refl)
qed


text \<open>String writes: the new bytes follow the two 2-byte fields.\<close>

lemma memcpy_frame: "a < dp \<or> dp + n \<le> a \<Longrightarrow> memcpy d dp s sp n a = d a"
  by (auto simp: memcpy_def)

lemma memcpy_at: "i < n \<Longrightarrow> memcpy d dp s sp n (dp + i) = s (sp + i)"
  by (simp add: memcpy_def)

lemma mlog_log_string_record:
  assumes "mlog_log_string page off len mtr = Some mtr'"
    and "m_log_mode mtr \<noteq> MTR_LOG_NONE" "off < UNIV_PAGE_SIZE" "len < UNIV_PAGE_SIZE"
  defines "q \<equiv> m_log_used mtr + header_size page"
  shows "header_at (m_log mtr') (m_log_used mtr) MLOG_WRITE_STRING page"
    "mach_read_from_2 (m_log mtr') q = of_nat off" "mach_read_from_2 (m_log mtr') (q + 2) = of_nat len"
    "i < len \<Longrightarrow> m_log mtr' (q + 4 + i) = page (off + i)"
    "m_log_used mtr' = q + 4 + len" "0 < len"
    "a < m_log_used mtr \<Longrightarrow> m_log mtr' a = m_log mtr a"
proof -
  let ?mtr0 = "mtr\<lparr>m_modifications := True\<rparr>"
  obtain mtr1 where
    1: "mlog_write_initial_log_record_fast page MLOG_WRITE_STRING (m_log_used mtr) ?mtr0 = Some (mtr1, q)"
    using assms(1,2) unfolding q_def
    by (auto simp: mlog_log_string_def mlog_open_def Let_def write_initial_fast(2) split: option.splits)
  let ?l1 = "mach_write_to_2 (m_log mtr1) q (of_nat off)"
  let ?l2 = "mach_write_to_2 ?l1 (q + 2) (of_nat len)"
  let ?l3 = "memcpy ?l2 (q + 4) page off len"
  have "m_log_mode mtr1 \<noteq> MTR_LOG_NONE" using assms(2) write_initial_fast(5) [OF 1] by simp
  then have log: "m_log mtr' = ?l3" "m_log_used mtr' = q + 4 + len" and len: "0 < len"
    using assms(1,2) 1
    by (auto simp: mlog_log_string_def mlog_open_def Let_def mlog_close_def mlog_catenate_string_def numeral_eq_Suc
        split: if_splits)
  note fr = memcpy_frame codec2.wr_frame
  show "header_at (m_log mtr') (m_log_used mtr) MLOG_WRITE_STRING page"
    using write_initial_fast(1) [OF 1] by (rule header_at_frame) (simp add: log fr q_def)
  show "mach_read_from_2 (m_log mtr') q = of_nat off"
    using assms(3) by (intro offset_field [where l = "m_log mtr1"]) (simp_all add: log fr)
  show "mach_read_from_2 (m_log mtr') (q + 2) = of_nat len"
    using assms(4) by (intro offset_field [where l = ?l1]) (simp_all add: log fr)
  show "m_log mtr' (q + 4 + i) = page (off + i)" if "i < len" unfolding log using that by (rule memcpy_at)
  show "m_log_used mtr' = q + 4 + len" "0 < len" by (fact log len)+
  show "m_log mtr' a = m_log mtr a" if "a < m_log_used mtr"
    using that write_initial_fast(6) [OF 1] by (simp add: log fr q_def)
qed

text \<open>
  C13. Redo of a string write.  When \<^verbatim>\<open>mlog_write_string\<close> succeeds the string is not empty, and
  replaying its record on the old page copies exactly the written bytes back; the same record
  replayed on an index page, or parsed with no page at hand, is told apart: on an index page the
  parser's assertion fails, and without a page it only finds the end of the record.  Nothing that
  the writer produces inside one page is reported as corrupt.
\<close>

theorem mlog_write_string_redo:
  assumes "mlog_write_string page off str p len mtr = Some (page', mtr')"
    and "m_log_mode mtr \<noteq> MTR_LOG_NONE" "off < UNIV_PAGE_SIZE" "off + len \<le> UNIV_PAGE_SIZE"
  shows "0 < len \<and> (\<exists>q. m_log_used mtr < q \<and> q < m_log_used mtr' \<and> (\<forall>end_ptr.
      mlog_parse_initial_log_record (m_log mtr') (m_log_used mtr) end_ptr =
        (if q \<le> end_ptr then Some (q, MLOG_WRITE_STRING, ucast (page_space page'), ucast (page_number page')) else None)
      \<and> mlog_parse_string (m_log mtr') q end_ptr (Some page) =
          (if mach_read_from_2 page FIL_PAGE_TYPE = FIL_PAGE_TYPE_INDEX then None
           else if m_log_used mtr' \<le> end_ptr
           then Some \<lparr>pr_ptr = Some (m_log_used mtr'), pr_page = Some page', pr_corrupt = False\<rparr>
           else incomplete (Some page))
      \<and> mlog_parse_string (m_log mtr') q end_ptr None =
          (if m_log_used mtr' \<le> end_ptr
           then Some \<lparr>pr_ptr = Some (m_log_used mtr'), pr_page = None, pr_corrupt = False\<rparr>
           else incomplete None)))
    \<and> (\<forall>a < m_log_used mtr. m_log mtr' a = m_log mtr a)"
proof -
  have len: "len < UNIV_PAGE_SIZE" and pg: "page' = memcpy page off str p len"
    and log: "mlog_log_string page' off len mtr = Some mtr'"
    using assms(1) by (auto simp: mlog_write_string_def Let_def split: if_splits)
  note rec = mlog_log_string_record [OF log assms(2,3) len]
  let ?q = "m_log_used mtr + header_size page'"
  have un: "unat (of_nat off :: ulint) = off" "unat (of_nat len :: ulint) = len"
    using assms(3) len by (simp_all add: mach_read_from_2_offset)
  have "memcpy page off (m_log mtr') (?q + 4) len a = page' a" for a
    using rec(4) [of "a - off"] by (auto simp: pg memcpy_def)
  then have copy: "memcpy page off (m_log mtr') (?q + 2 + 2) len = page'" by (simp add: fun_eq_iff numeral_eq_Suc)
  have "mlog_parse_string (m_log mtr') ?q end_ptr (Some page) =
      (if mach_read_from_2 page FIL_PAGE_TYPE = FIL_PAGE_TYPE_INDEX then None
       else if m_log_used mtr' \<le> end_ptr
       then Some \<lparr>pr_ptr = Some (m_log_used mtr'), pr_page = Some page', pr_corrupt = False\<rparr>
       else incomplete (Some page))" for end_ptr
    using assms(3,4) un rec(3) copy
    by (auto simp: mlog_parse_string_def Let_def rec(2,5) incomplete_def)
  moreover have "mlog_parse_string (m_log mtr') ?q end_ptr None =
      (if m_log_used mtr' \<le> end_ptr
       then Some \<lparr>pr_ptr = Some (m_log_used mtr'), pr_page = None, pr_corrupt = False\<rparr>
       else incomplete None)" for end_ptr
    using assms(3,4) un rec(3)
    by (auto simp: mlog_parse_string_def Let_def rec(2,5) incomplete_def)
  ultimately show ?thesis
    using parse_initial_header [OF rec(1)] header_size_bounds [of page'] rec(6,7)
    by (intro conjI exI [of _ ?q]) (simp_all add: rec(5))
qed

theorem mlog_write_string_redo_witness:
  "\<exists>page' mtr'. mlog_write_string (\<lambda>_. 0) 300 (\<lambda>_. 9) 0 5 (mtr_start mtr_fresh) = Some (page', mtr')
    \<and> (\<exists>q. mlog_parse_string (m_log mtr') q (m_log_used mtr') (Some (\<lambda>_. 0))
          = Some \<lparr>pr_ptr = Some (m_log_used mtr'), pr_page = Some page', pr_corrupt = False\<rparr>)"
proof -
  have "mlog_write_string (\<lambda>_. 0) 300 (\<lambda>_. 9) 0 5 (mtr_start mtr_fresh) \<noteq> None"
    by (simp add: mtr_start_def mtr_fresh_def mlog_write_string_def mlog_log_string_def mlog_open_def mlog_close_def
        mlog_catenate_string_def mlog_write_initial_log_record_fast_def Let_def case_prod_beta memcpy_def
        mach_read_from_4_def)
  then obtain page' mtr' where w: "mlog_write_string (\<lambda>_. 0) 300 (\<lambda>_. 9) 0 5 (mtr_start mtr_fresh) = Some (page', mtr')"
    by (metis not_None_eq prod.collapse)
  have "m_log_mode (mtr_start mtr_fresh) \<noteq> MTR_LOG_NONE"
    and ty: "mach_read_from_2 (\<lambda>_. 0) FIL_PAGE_TYPE \<noteq> FIL_PAGE_TYPE_INDEX"
    by (simp_all add: mtr_start_def mtr_fresh_def mach_read_from_2_def)
  from mlog_write_string_redo [OF w this(1)] ty obtain q where
    "\<forall>end_ptr. mlog_parse_string (m_log mtr') q end_ptr (Some (\<lambda>_. 0)) =
       (if m_log_used mtr' \<le> end_ptr
        then Some \<lparr>pr_ptr = Some (m_log_used mtr'), pr_page = Some page', pr_corrupt = False\<rparr>
        else incomplete (Some (\<lambda>_. 0)))"
    by auto
  with w show ?thesis by (metis order_refl)
qed

end
