(* ===== verification/Two_Way_List.thy ===== *)
theory Two_Way_List
  imports Main
begin

text \<open>
  What the two doubly linked list modules of the engine have in common: the in-memory lists of
  \<^verbatim>\<open>include/ut0lst.h\<close> and the lists stored in file pages of \<^verbatim>\<open>fut/fut0lst.cc\<close>.  A list is seen
  through its link fields; \<open>linked\<close> says which sequence of elements the fields describe.  The
  locale \<open>two_way_store\<close> is the contract between the list algorithms and the store that holds
  the fields; the effect of each algorithm on the represented sequence is proved once, inside
  the locale.
\<close>

section \<open>Link fields and the sequence they describe\<close>

datatype 'a lfield = First | Last | Prev 'a | Next 'a

definition hd_or :: "'a list \<Rightarrow> 'a option \<Rightarrow> 'a option" where
  "hd_or xs q = (case xs of [] \<Rightarrow> q | x # _ \<Rightarrow> Some x)"

definition last_or :: "'a option \<Rightarrow> 'a list \<Rightarrow> 'a option" where
  "last_or p xs = (if xs = [] then p else Some (last xs))"

fun seg :: "('a lfield \<Rightarrow> 'a option) \<Rightarrow> 'a option \<Rightarrow> 'a list \<Rightarrow> 'a option \<Rightarrow> bool" where
  "seg f p [] q \<longleftrightarrow> True"
| "seg f p (x # xs) q \<longleftrightarrow> f (Prev x) = p \<and> f (Next x) = hd_or xs q \<and> seg f (Some x) xs q"

definition linked :: "('a lfield \<Rightarrow> 'a option) \<Rightarrow> 'a list \<Rightarrow> bool" where
  "linked f xs \<longleftrightarrow> f First = hd_or xs None \<and> f Last = last_or None xs \<and> seg f None xs None \<and> distinct xs"

lemma hd_or_simps [simp]: "hd_or [] q = q" "hd_or (x # xs) q = Some x"
  "hd_or (xs @ ys) q = hd_or xs (hd_or ys q)"
  by (auto simp: hd_or_def split: list.splits)

lemma last_or_simps [simp]: "last_or p [] = p" "last_or p (x # xs) = last_or (Some x) xs"
  "last_or p (xs @ ys) = last_or (last_or p xs) ys"
  by (auto simp: last_or_def)

lemma hd_or_last_or_Some [simp]: "\<exists>z. hd_or xs (Some y) = Some z" "\<exists>z. last_or (Some y) xs = Some z"
  by (auto simp: hd_or_def last_or_def split: list.splits)

lemma seg_append [simp]: "seg f p (xs @ ys) q \<longleftrightarrow> seg f p xs (hd_or ys q) \<and> seg f (last_or p xs) ys q"
  by (induction xs arbitrary: p) auto

text \<open>Writing a field of an element outside a segment, or the list ends, leaves the segment.\<close>

lemma seg_upd_other [simp]:
  "x \<notin> set xs \<Longrightarrow> seg (f(Prev x := v)) p xs q = seg f p xs q"
  "x \<notin> set xs \<Longrightarrow> seg (f(Next x := v)) p xs q = seg f p xs q"
  "seg (f(First := v)) p xs q = seg f p xs q"
  "seg (f(Last := v)) p xs q = seg f p xs q"
  by (induction xs arbitrary: p) auto

text \<open>Redirecting the outward links of a segment.\<close>

lemma seg_snoc_upd:
  "seg f p (xs @ [x]) q \<Longrightarrow> x \<notin> set xs \<Longrightarrow> seg (f(Next x := v)) p (xs @ [x]) v"
  by simp

lemma seg_Cons_upd:
  "seg f p (x # xs) q \<Longrightarrow> x \<notin> set xs \<Longrightarrow> seg (f(Prev x := v)) v (x # xs) q"
  by simp

lemma hd_or_None: "hd_or xs q = None \<Longrightarrow> xs = []"
  by (auto simp: hd_or_def split: list.splits)

lemma last_or_None: "last_or p xs = None \<Longrightarrow> xs = []"
  by (auto simp: last_or_def split: if_splits)

lemma hd_or_Some: "hd_or xs None = Some y \<Longrightarrow> \<exists>zs. xs = y # zs"
  by (auto simp: hd_or_def split: list.splits)

lemma last_or_Some: "last_or None xs = Some y \<Longrightarrow> \<exists>zs. xs = zs @ [y]"
  by (auto simp: last_or_def split: if_splits) (metis append_butlast_last_id)

section \<open>The list operations on link fields\<close>

definition add_to_empty_links :: "('a lfield \<Rightarrow> 'a option) \<Rightarrow> 'a \<Rightarrow> 'a lfield \<Rightarrow> 'a option" where
  "add_to_empty_links f a = f(First := Some a, Last := Some a, Prev a := None, Next a := None)"

definition insert_after_links :: "('a lfield \<Rightarrow> 'a option) \<Rightarrow> 'a \<Rightarrow> 'a \<Rightarrow> 'a lfield \<Rightarrow> 'a option" where
  "insert_after_links f a b =
     (let n = f (Next a); f = f(Prev b := Some a, Next b := n);
          f = (case n of None \<Rightarrow> f(Last := Some b) | Some c \<Rightarrow> f(Prev c := Some b))
      in f(Next a := Some b))"

definition insert_before_links :: "('a lfield \<Rightarrow> 'a option) \<Rightarrow> 'a \<Rightarrow> 'a \<Rightarrow> 'a lfield \<Rightarrow> 'a option" where
  "insert_before_links f b c =
     (let p = f (Prev c); f = f(Prev b := p, Next b := Some c);
          f = (case p of None \<Rightarrow> f(First := Some b) | Some a \<Rightarrow> f(Next a := Some b))
      in f(Prev c := Some b))"

definition remove_links :: "('a lfield \<Rightarrow> 'a option) \<Rightarrow> 'a \<Rightarrow> 'a lfield \<Rightarrow> 'a option" where
  "remove_links f b =
     (let p = f (Prev b); n = f (Next b);
          f = (case p of None \<Rightarrow> f(First := n) | Some a \<Rightarrow> f(Next a := n))
      in (case n of None \<Rightarrow> f(Last := p) | Some c \<Rightarrow> f(Prev c := p)))"

definition cut_end_links :: "('a lfield \<Rightarrow> 'a option) \<Rightarrow> 'a \<Rightarrow> 'a lfield \<Rightarrow> 'a option" where
  "cut_end_links f b =
     (let p = f (Prev b);
          f = (case p of None \<Rightarrow> f(First := None) | Some a \<Rightarrow> f(Next a := None))
      in f(Last := p))"

lemma linked_empty: "f First = None \<Longrightarrow> f Last = None \<Longrightarrow> linked f []"
  by (simp add: linked_def)

lemma linked_add_to_empty: "linked f [] \<Longrightarrow> linked (add_to_empty_links f a) [a]"
  by (simp add: linked_def add_to_empty_links_def)

lemma linked_insert_after:
  assumes "linked f (xs @ a # ys)" "b \<notin> set (xs @ a # ys)"
  shows "linked (insert_after_links f a b) (xs @ a # b # ys)"
  using assms by (cases ys) (auto simp: linked_def insert_after_links_def)

lemma linked_insert_before:
  assumes "linked f (xs @ c # ys)" "b \<notin> set (xs @ c # ys)"
  shows "linked (insert_before_links f b c) (xs @ b # c # ys)"
  using assms by (cases xs rule: rev_cases) (auto simp: linked_def insert_before_links_def)

lemma linked_remove:
  assumes "linked f (xs @ b # ys)"
  shows "linked (remove_links f b) (xs @ ys)"
  using assms
  by (cases xs rule: rev_cases; cases ys) (auto simp: linked_def remove_links_def)

lemma linked_cut_end:
  assumes "linked f (xs @ b # ys)"
  shows "linked (cut_end_links f b) xs"
  using assms by (cases xs rule: rev_cases) (auto simp: linked_def cut_end_links_def)

lemma linked_truncate_end:
  assumes "linked f (xs @ b # ys)"
  shows "linked (f(Next b := None, Last := Some b)) (xs @ [b])"
  using assms by (auto simp: linked_def)

text \<open>Walking the list from either end visits its elements in order.\<close>

fun walk :: "('a \<Rightarrow> 'a option) \<Rightarrow> nat \<Rightarrow> 'a option \<Rightarrow> 'a option" where
  "walk step 0 p = p"
| "walk step (Suc n) p = (case p of None \<Rightarrow> None | Some a \<Rightarrow> walk step n (step a))"

lemma walk_next: "seg f p xs q \<Longrightarrow> walk (\<lambda>a. f (Next a)) (length xs) (hd_or xs q) = q"
  by (induction xs arbitrary: p) auto

lemma walk_prev: "seg f p xs q \<Longrightarrow> walk (\<lambda>a. f (Prev a)) (length xs) (last_or p xs) = p"
proof (induction xs arbitrary: q rule: rev_induct)
  case Nil
  show ?case by simp
next
  case (snoc x xs)
  then show ?case using snoc.IH [of "Some x"] by simp
qed


section \<open>The store contract\<close>

text \<open>
  \<open>ga\<close>/\<open>sa\<close> read and write a link field, whose contents \<open>dec\<close> turns into an element or nothing;
  \<open>gn\<close>/\<open>sn\<close> read and write the element count.  \<open>ok h N s\<close> says that store \<open>s\<close> is fit to hold
  the list with base \<open>h\<close> whose elements come from \<open>N\<close>, \<open>vok\<close> that a link value can be stored.
\<close>

locale two_way_store =
  fixes ga :: "'h \<Rightarrow> 's \<Rightarrow> 'a lfield \<Rightarrow> 'v"
    and sa :: "'h \<Rightarrow> 's \<Rightarrow> 'a lfield \<Rightarrow> 'v \<Rightarrow> 's"
    and gn :: "'h \<Rightarrow> 's \<Rightarrow> nat"
    and sn :: "'h \<Rightarrow> 's \<Rightarrow> nat \<Rightarrow> 's"
    and dec :: "'v \<Rightarrow> 'a option"
    and vok :: "'h \<Rightarrow> 'a set \<Rightarrow> 'v \<Rightarrow> bool"
    and ok :: "'h \<Rightarrow> 'a set \<Rightarrow> 's \<Rightarrow> bool"
    and cap :: nat
  assumes ok_sa: "ok h N s \<Longrightarrow> set_lfield x \<subseteq> N \<Longrightarrow> vok h N v \<Longrightarrow> ok h N (sa h s x v)"
    and ga_sa: "ok h N s \<Longrightarrow> set_lfield x \<subseteq> N \<Longrightarrow> set_lfield y \<subseteq> N \<Longrightarrow> vok h N v
        \<Longrightarrow> ga h (sa h s x v) y = (if x = y then v else ga h s y)"
    and gn_sa: "ok h N s \<Longrightarrow> set_lfield x \<subseteq> N \<Longrightarrow> vok h N v \<Longrightarrow> gn h (sa h s x v) = gn h s"
    and ok_sn: "ok h N s \<Longrightarrow> ok h N (sn h s n)"
    and ga_sn: "ok h N s \<Longrightarrow> set_lfield y \<subseteq> N \<Longrightarrow> ga h (sn h s n) y = ga h s y"
    and gn_sn: "ok h N s \<Longrightarrow> n \<le> cap \<Longrightarrow> gn h (sn h s n) = n"
    and vok_ga: "ok h N s \<Longrightarrow> set_lfield y \<subseteq> N \<Longrightarrow> set_option (dec (ga h s y)) \<subseteq> N \<Longrightarrow> vok h N (ga h s y)"
begin

definition view :: "'h \<Rightarrow> 'a set \<Rightarrow> 's \<Rightarrow> 'a lfield \<Rightarrow> 'a option" where
  "view h N s x = (if set_lfield x \<subseteq> N then dec (ga h s x) else None)"

definition rep :: "'h \<Rightarrow> 'a set \<Rightarrow> 's \<Rightarrow> 'a list \<Rightarrow> bool" where
  "rep h N s xs \<longleftrightarrow> ok h N s \<and> set xs \<subseteq> N \<and> linked (view h N s) xs \<and> gn h s = length xs"

lemma view_sa:
  "ok h N s \<Longrightarrow> set_lfield x \<subseteq> N \<Longrightarrow> vok h N v \<Longrightarrow> view h N (sa h s x v) = (view h N s)(x := dec v)"
  by (auto simp: view_def ga_sa)

lemma view_sn: "ok h N s \<Longrightarrow> view h N (sn h s n) = view h N s"
  by (auto simp: view_def ga_sn)

lemma dec_ga: "set_lfield x \<subseteq> N \<Longrightarrow> dec (ga h s x) = view h N s x"
  by (simp add: view_def)

lemma repD: "rep h N s xs \<Longrightarrow> ok h N s" "rep h N s xs \<Longrightarrow> set xs \<subseteq> N"
  "rep h N s xs \<Longrightarrow> linked (view h N s) xs" "rep h N s xs \<Longrightarrow> gn h s = length xs"
  by (simp_all add: rep_def)

text \<open>The link values of list elements can be stored.\<close>

lemma hd_or_subset: "set xs \<subseteq> N \<Longrightarrow> set_option q \<subseteq> N \<Longrightarrow> set_option (hd_or xs q) \<subseteq> N"
  by (cases xs) auto

lemma last_or_subset: "set xs \<subseteq> N \<Longrightarrow> set_option p \<subseteq> N \<Longrightarrow> set_option (last_or p xs) \<subseteq> N"
  by (cases xs rule: rev_cases) auto

lemma seg_links: "seg f p (xs @ a # ys) q \<Longrightarrow> f (Next a) = hd_or ys q \<and> f (Prev a) = last_or p xs"
  by simp

lemma rep_links:
  assumes "rep h N s (xs @ a # ys)"
  shows "view h N s (Next a) = hd_or ys None" "view h N s (Prev a) = last_or None xs"
    "vok h N (ga h s (Next a))" "vok h N (ga h s (Prev a))" "a \<in> N"
proof -
  note r = repD [OF assms]
  show a: "a \<in> N" using r(2) by auto
  show n: "view h N s (Next a) = hd_or ys None" and p: "view h N s (Prev a) = last_or None xs"
    using seg_links [of "view h N s" None xs a ys None] r(3) unfolding linked_def by blast+
  have "set xs \<subseteq> N" "set ys \<subseteq> N" using r(2) by auto
  then have "set_option (hd_or ys None) \<subseteq> N" "set_option (last_or None xs) \<subseteq> N"
    by (simp_all add: hd_or_subset last_or_subset)
  then show "vok h N (ga h s (Next a))" "vok h N (ga h s (Prev a))"
    using a n p r(1) by (auto intro!: vok_ga simp: dec_ga [where N = N])
qed

lemma rep_init:
  assumes "ok h N s" "vok h N v" "dec v = None"
  shows "rep h N (sa h (sa h (sn h s 0) First v) Last v) []"
  using assms by (simp add: rep_def view_sa view_sn ok_sa ok_sn gn_sa [where N = N] gn_sn [where N = N] linked_empty)

lemma rep_add_to_empty:
  assumes "rep h N s []" "a \<in> N" "vok h N v" "dec v = Some a" "vok h N u" "dec u = None" "1 \<le> cap"
  defines "s' \<equiv> sa h (sa h (sa h (sa h s First v) Last v) (Prev a) u) (Next a) u"
  shows "rep h N (sn h s' 1) [a]"
  using assms(1-7) linked_add_to_empty [of "view h N s" a]
  by (simp add: rep_def s'_def view_sa view_sn ok_sa ok_sn gn_sa [where N = N] gn_sn [where N = N] add_to_empty_links_def)

lemma rep_insert_after:
  assumes "rep h N s (xs @ a # ys)" "b \<in> N" "b \<notin> set (xs @ a # ys)"
    and "vok h N v" "dec v = Some b" "vok h N u" "dec u = Some a" "length xs + length ys + 2 \<le> cap"
  defines "n \<equiv> ga h s (Next a)"
  defines "s1 \<equiv> sa h (sa h s (Prev b) u) (Next b) n"
  defines "s2 \<equiv> (case dec n of None \<Rightarrow> sa h s1 Last v | Some c \<Rightarrow> sa h s1 (Prev c) v)"
  defines "s3 \<equiv> sa h s2 (Next a) v"
  shows "rep h N (sn h s3 (gn h s3 + 1)) (xs @ a # b # ys)"
proof -
  note r = repD [OF assms(1)] and l = rep_links [OF assms(1)]
  have dn: "dec n = hd_or ys None" unfolding n_def using l(1,5) by (simp add: dec_ga [where N = N])
  have c: "hd ys \<in> N" if "ys \<noteq> []" using r(2) that by auto
  note step = assms(2,4-7) l(3,5)
  note upd = view_sa ok_sa gn_sa [where N = N]
  have 1: "ok h N s1" "view h N s1 = (view h N s)(Prev b := Some a, Next b := dec n)" "gn h s1 = gn h s"
    using r(1) step by (simp_all add: s1_def n_def upd)
  have 2: "ok h N s3" "view h N s3 = insert_after_links (view h N s) a b" "gn h s3 = gn h s"
    using 1 step c dn by (cases ys; simp add: s2_def s3_def insert_after_links_def l(1) Let_def upd)+
  show ?thesis
    using 2 r assms(2,3,8) linked_insert_after [OF r(3) assms(3)]
    by (simp add: rep_def view_sn ok_sn gn_sn [where N = N])
qed

lemma rep_insert_before:
  assumes "rep h N s (xs @ c # ys)" "b \<in> N" "b \<notin> set (xs @ c # ys)"
    and "vok h N v" "dec v = Some b" "vok h N u" "dec u = Some c" "length xs + length ys + 2 \<le> cap"
  defines "p \<equiv> ga h s (Prev c)"
  defines "s1 \<equiv> sa h (sa h s (Prev b) p) (Next b) u"
  defines "s2 \<equiv> (case dec p of None \<Rightarrow> sa h s1 First v | Some a \<Rightarrow> sa h s1 (Next a) v)"
  defines "s3 \<equiv> sa h s2 (Prev c) v"
  shows "rep h N (sn h s3 (gn h s3 + 1)) (xs @ b # c # ys)"
proof -
  note r = repD [OF assms(1)] and l = rep_links [OF assms(1)]
  have dp: "dec p = last_or None xs" unfolding p_def using l(2,5) by (simp add: dec_ga [where N = N])
  have a: "last xs \<in> N" if "xs \<noteq> []" using r(2) that by auto
  note step = assms(2,4-7) l(4,5)
  note upd = view_sa ok_sa gn_sa [where N = N]
  have 1: "ok h N s1" "view h N s1 = (view h N s)(Prev b := dec p, Next b := Some c)" "gn h s1 = gn h s"
    using r(1) step by (simp_all add: s1_def p_def upd)
  have 2: "ok h N s3" "view h N s3 = insert_before_links (view h N s) b c" "gn h s3 = gn h s"
    using 1 step a dp by (cases xs rule: rev_cases; simp add: s2_def s3_def insert_before_links_def l(2) Let_def upd)+
  show ?thesis
    using 2 r assms(2,3,8) linked_insert_before [OF r(3) assms(3)]
    by (simp add: rep_def view_sn ok_sn gn_sn [where N = N])
qed

lemma rep_remove:
  assumes "rep h N s (xs @ b # ys)" "length xs + length ys \<le> cap"
  defines "p \<equiv> ga h s (Prev b)" and "n \<equiv> ga h s (Next b)"
  defines "s1 \<equiv> (case dec p of None \<Rightarrow> sa h s First n | Some a \<Rightarrow> sa h s (Next a) n)"
  defines "s2 \<equiv> (case dec n of None \<Rightarrow> sa h s1 Last p | Some c \<Rightarrow> sa h s1 (Prev c) p)"
  shows "rep h N (sn h s2 (gn h s2 - 1)) (xs @ ys)"
proof -
  note r = repD [OF assms(1)] and l = rep_links [OF assms(1)]
  have dn: "dec n = hd_or ys None" unfolding n_def using l(1,5) by (simp add: dec_ga [where N = N])
  have dp: "dec p = last_or None xs" unfolding p_def using l(2,5) by (simp add: dec_ga [where N = N])
  have a: "last xs \<in> N" if "xs \<noteq> []" using r(2) that by auto
  have c: "hd ys \<in> N" if "ys \<noteq> []" using r(2) that by auto
  note upd = view_sa ok_sa gn_sa [where N = N]
  define g where "g = (case dec p of None \<Rightarrow> (view h N s)(First := dec n) | Some a \<Rightarrow> (view h N s)(Next a := dec n))"
  have v: "vok h N p" "vok h N n" using l(3,4) by (simp_all add: p_def n_def)
  have 1: "ok h N s1" "view h N s1 = g" "gn h s1 = gn h s"
    using r(1) a dp v unfolding s1_def g_def by (cases xs rule: rev_cases; simp add: upd)+
  have "remove_links (view h N s) b = (case dec n of None \<Rightarrow> g(Last := dec p) | Some c \<Rightarrow> g(Prev c := dec p))"
    unfolding remove_links_def l(1,2) g_def dp dn Let_def by (rule refl)
  then have 2: "ok h N s2" "view h N s2 = remove_links (view h N s) b" "gn h s2 = gn h s"
    using 1 c dn v(1) unfolding s2_def by (cases ys; simp add: upd)+
  show ?thesis
    using 2 r assms(2) linked_remove [OF r(3)] by (simp add: rep_def view_sn ok_sn gn_sn [where N = N])
qed

lemma rep_cut_end:
  assumes "rep h N s (xs @ b # ys)" "vok h N u" "dec u = None" "length xs \<le> cap"
  defines "p \<equiv> ga h s (Prev b)"
  defines "s1 \<equiv> (case dec p of None \<Rightarrow> sa h s First u | Some a \<Rightarrow> sa h s (Next a) u)"
  defines "s2 \<equiv> sa h s1 Last p"
  shows "rep h N (sn h s2 (gn h s2 - (1 + length ys))) xs"
proof -
  note r = repD [OF assms(1)] and l = rep_links [OF assms(1)]
  have dp: "dec p = last_or None xs" unfolding p_def using l(2,5) by (simp add: dec_ga [where N = N])
  have a: "last xs \<in> N" if "xs \<noteq> []" using r(2) that by auto
  note step = l(4,5) assms(2,3)
  note upd = view_sa ok_sa gn_sa [where N = N]
  have 2: "ok h N s2" "view h N s2 = cut_end_links (view h N s) b" "gn h s2 = gn h s"
    using r(1) step a dp
    by (cases xs rule: rev_cases; simp add: s1_def s2_def cut_end_links_def l(2) p_def [symmetric] Let_def upd)+
  show ?thesis
    using 2 r assms(4) linked_cut_end [OF r(3)] by (simp add: rep_def view_sn ok_sn gn_sn [where N = N])
qed

lemma rep_truncate_end:
  assumes "rep h N s (xs @ b # ys)" "vok h N u" "dec u = None" "vok h N v" "dec v = Some b"
    and "length xs + 1 \<le> cap"
  defines "s' \<equiv> sa h (sa h s (Next b) u) Last v"
  shows "rep h N (sn h s' (gn h s' - length ys)) (xs @ [b])"
  using assms(2-6) repD [OF assms(1)] linked_truncate_end [OF repD(3) [OF assms(1)]]
  by (simp add: rep_def s'_def view_sa view_sn ok_sa ok_sn gn_sa [where N = N] gn_sn [where N = N])

lemma rep_walk:
  assumes "rep h N s xs"
  shows "walk (\<lambda>a. view h N s (Next a)) (gn h s) (dec (ga h s First)) = None"
    "walk (\<lambda>a. view h N s (Prev a)) (gn h s) (dec (ga h s Last)) = None"
  using repD [OF assms] walk_next [of "view h N s" None xs None] walk_prev [of "view h N s" None xs None]
  by (simp_all add: linked_def dec_ga [where N = N])

lemma rep_ends:
  assumes "rep h N s xs"
  shows "dec (ga h s First) = hd_or xs None" "dec (ga h s Last) = last_or None xs"
    "vok h N (ga h s First)" "vok h N (ga h s Last)"
proof -
  note r = repD [OF assms]
  show f: "dec (ga h s First) = hd_or xs None" and l: "dec (ga h s Last) = last_or None xs"
    using r(3) by (simp_all add: linked_def view_def)
  show "vok h N (ga h s First)" "vok h N (ga h s Last)"
    using r(1,2) f l hd_or_subset [of xs N None] last_or_subset [of xs N None] by (auto intro!: vok_ga)
qed

end

end
