(* ===== verification/Fut_List.thy ===== *)
theory Fut_List
  imports Mtr_Log Two_Way_List "HOL-Library.Monad_Syntax"
begin

text \<open>
  Model of \<^verbatim>\<open>fut/fut0lst.cc\<close> and the inline part of \<^verbatim>\<open>include/fut0lst.h\<close>: doubly linked lists whose
  base node and nodes lie in file pages and whose links are six-byte file addresses.  The
  buffer pool is a map from (space, page number) to frames, a \<^verbatim>\<open>byte *\<close> into a frame is the pair
  of the page and the byte offset.  All writes go through \<^verbatim>\<open>mlog_write_ulint\<close>, so that they are
  redo logged.  A failing \<^verbatim>\<open>ut_a\<close> is \<open>None\<close>.
\<close>

section \<open>File addresses and frames\<close>

record Fil_addr =
  m_page_no :: uint32
  m_boffset :: uint32

abbreviation (input) FIL_NULL :: uint32 where "FIL_NULL \<equiv> 0xFFFFFFFF"
abbreviation (input) FIL_PAGE_DATA :: nat where "FIL_PAGE_DATA \<equiv> 38"
abbreviation (input) FIL_ADDR_PAGE :: nat where "FIL_ADDR_PAGE \<equiv> 0"
abbreviation (input) FIL_ADDR_BYTE :: nat where "FIL_ADDR_BYTE \<equiv> 4"
abbreviation (input) FLST_PREV :: nat where "FLST_PREV \<equiv> 0"
abbreviation (input) FLST_NEXT :: nat where "FLST_NEXT \<equiv> 6"
abbreviation (input) FLST_LEN :: nat where "FLST_LEN \<equiv> 0"
abbreviation (input) FLST_FIRST :: nat where "FLST_FIRST \<equiv> 4"
abbreviation (input) FLST_LAST :: nat where "FLST_LAST \<equiv> 10"

definition fil_addr_null :: Fil_addr where
  "fil_addr_null = \<lparr>m_page_no = FIL_NULL, m_boffset = 0\<rparr>"

definition addr_is_null :: "Fil_addr \<Rightarrow> bool" where
  "addr_is_null addr \<longleftrightarrow> m_page_no addr = FIL_NULL"

type_synonym frame_id = "uint32 \<times> uint32"
type_synonym fptr = "frame_id \<times> nat"

record fsp_state =
  frames :: "frame_id \<Rightarrow> mem"
  fmtr :: mtr_t

definition ptr_add :: "fptr \<Rightarrow> nat \<Rightarrow> fptr" where
  "ptr_add p n = (fst p, snd p + n)"

definition buf_ptr_get_fsp_addr :: "fsp_state \<Rightarrow> fptr \<Rightarrow> uint32 \<times> Fil_addr" where
  "buf_ptr_get_fsp_addr s p =
     (let page = frames s (fst p)
      in (ucast (mach_read_from_4 page FIL_PAGE_SPACE_ID),
          \<lparr>m_page_no = ucast (mach_read_from_4 page FIL_PAGE_OFFSET), m_boffset = of_nat (snd p)\<rparr>))"

definition fut_get_ptr :: "uint32 \<Rightarrow> Fil_addr \<Rightarrow> fptr" where
  "fut_get_ptr space_id addr = ((space_id, m_page_no addr), unat (m_boffset addr))"

definition read_ulint :: "fsp_state \<Rightarrow> fptr \<Rightarrow> mlog_type_t \<Rightarrow> ulint" where
  "read_ulint s p type =
     (let page = frames s (fst p)
      in if type = MLOG_1BYTE then mach_read_from_1 page (snd p)
         else if type = MLOG_2BYTES then mach_read_from_2 page (snd p)
         else mach_read_from_4 page (snd p))"

text \<open>\<^verbatim>\<open>mlog_write_ulint\<close> on the frame a pointer lies in.\<close>

definition write_ulint :: "fsp_state \<Rightarrow> fptr \<Rightarrow> ulint \<Rightarrow> mlog_type_t \<Rightarrow> fsp_state option" where
  "write_ulint s p val type =
     (case mlog_write_ulint (frames s (fst p)) (snd p) val type (fmtr s) of
        None \<Rightarrow> None
      | Some (page, mtr) \<Rightarrow> Some (s\<lparr>frames := (frames s)(fst p := page), fmtr := mtr\<rparr>))"

section \<open>List operations\<close>

definition flst_write_addr :: "fsp_state \<Rightarrow> fptr \<Rightarrow> Fil_addr \<Rightarrow> fsp_state option" where
  "flst_write_addr s faddr addr =
     (if (m_page_no addr = FIL_NULL \<or> m_boffset addr \<ge> 38) \<and> snd faddr \<ge> FIL_PAGE_DATA then
        do {
          s \<leftarrow> write_ulint s (ptr_add faddr FIL_ADDR_PAGE) (ucast (m_page_no addr)) MLOG_4BYTES;
          write_ulint s (ptr_add faddr FIL_ADDR_BYTE) (ucast (m_boffset addr)) MLOG_2BYTES
        }
      else None)"

definition flst_read_addr :: "fsp_state \<Rightarrow> fptr \<Rightarrow> Fil_addr option" where
  "flst_read_addr s faddr =
     (let addr = \<lparr>m_page_no = ucast (read_ulint s (ptr_add faddr FIL_ADDR_PAGE) MLOG_4BYTES),
                  m_boffset = ucast (read_ulint s (ptr_add faddr FIL_ADDR_BYTE) MLOG_2BYTES)\<rparr>
      in if (m_page_no addr = FIL_NULL \<or> m_boffset addr \<ge> 38) \<and> snd faddr \<ge> FIL_PAGE_DATA
         then Some addr else None)"

definition flst_init :: "fsp_state \<Rightarrow> fptr \<Rightarrow> fsp_state option" where
  "flst_init s base = do {
     s \<leftarrow> write_ulint s (ptr_add base FLST_LEN) 0 MLOG_4BYTES;
     s \<leftarrow> flst_write_addr s (ptr_add base FLST_FIRST) fil_addr_null;
     flst_write_addr s (ptr_add base FLST_LAST) fil_addr_null
   }"

definition flst_get_len :: "fsp_state \<Rightarrow> fptr \<Rightarrow> ulint" where
  "flst_get_len s base = read_ulint s (ptr_add base FLST_LEN) MLOG_4BYTES"

definition flst_get_first :: "fsp_state \<Rightarrow> fptr \<Rightarrow> Fil_addr option" where
  "flst_get_first s base = flst_read_addr s (ptr_add base FLST_FIRST)"

definition flst_get_last :: "fsp_state \<Rightarrow> fptr \<Rightarrow> Fil_addr option" where
  "flst_get_last s base = flst_read_addr s (ptr_add base FLST_LAST)"

definition flst_get_next_addr :: "fsp_state \<Rightarrow> fptr \<Rightarrow> Fil_addr option" where
  "flst_get_next_addr s node = flst_read_addr s (ptr_add node FLST_NEXT)"

definition flst_get_prev_addr :: "fsp_state \<Rightarrow> fptr \<Rightarrow> Fil_addr option" where
  "flst_get_prev_addr s node = flst_read_addr s (ptr_add node FLST_PREV)"

definition flst_add_to_empty :: "fsp_state \<Rightarrow> fptr \<Rightarrow> fptr \<Rightarrow> fsp_state option" where
  "flst_add_to_empty s base node =
     (let len = flst_get_len s base
      in if len = 0 then
           let (space, node_addr) = buf_ptr_get_fsp_addr s node
           in do {
             s \<leftarrow> flst_write_addr s (ptr_add base FLST_FIRST) node_addr;
             s \<leftarrow> flst_write_addr s (ptr_add base FLST_LAST) node_addr;
             s \<leftarrow> flst_write_addr s (ptr_add node FLST_PREV) fil_addr_null;
             s \<leftarrow> flst_write_addr s (ptr_add node FLST_NEXT) fil_addr_null;
             write_ulint s (ptr_add base FLST_LEN) (len + 1) MLOG_4BYTES
           }
         else None)"

definition flst_insert_after :: "fsp_state \<Rightarrow> fptr \<Rightarrow> fptr \<Rightarrow> fptr \<Rightarrow> fsp_state option" where
  "flst_insert_after s base node1 node2 =
     (let (space, node1_addr) = buf_ptr_get_fsp_addr s node1;
          (space, node2_addr) = buf_ptr_get_fsp_addr s node2
      in do {
        node3_addr \<leftarrow> flst_get_next_addr s node1;
        s \<leftarrow> flst_write_addr s (ptr_add node2 FLST_PREV) node1_addr;
        s \<leftarrow> flst_write_addr s (ptr_add node2 FLST_NEXT) node3_addr;
        s \<leftarrow> (if \<not> addr_is_null node3_addr
             then flst_write_addr s (ptr_add (fut_get_ptr space node3_addr) FLST_PREV) node2_addr
             else flst_write_addr s (ptr_add base FLST_LAST) node2_addr);
        s \<leftarrow> flst_write_addr s (ptr_add node1 FLST_NEXT) node2_addr;
        write_ulint s (ptr_add base FLST_LEN) (flst_get_len s base + 1) MLOG_4BYTES
      })"

definition flst_insert_before :: "fsp_state \<Rightarrow> fptr \<Rightarrow> fptr \<Rightarrow> fptr \<Rightarrow> fsp_state option" where
  "flst_insert_before s base node2 node3 =
     (let (space, node2_addr) = buf_ptr_get_fsp_addr s node2;
          (space, node3_addr) = buf_ptr_get_fsp_addr s node3
      in do {
        node1_addr \<leftarrow> flst_get_prev_addr s node3;
        s \<leftarrow> flst_write_addr s (ptr_add node2 FLST_PREV) node1_addr;
        s \<leftarrow> flst_write_addr s (ptr_add node2 FLST_NEXT) node3_addr;
        s \<leftarrow> (if \<not> addr_is_null node1_addr
             then flst_write_addr s (ptr_add (fut_get_ptr space node1_addr) FLST_NEXT) node2_addr
             else flst_write_addr s (ptr_add base FLST_FIRST) node2_addr);
        s \<leftarrow> flst_write_addr s (ptr_add node3 FLST_PREV) node2_addr;
        write_ulint s (ptr_add base FLST_LEN) (flst_get_len s base + 1) MLOG_4BYTES
      })"

text \<open>
  The neighbour of a node: on the node's own page it is found without asking the buffer pool
  (\<^verbatim>\<open>page_align(node) + boffset\<close>).
\<close>

definition flst_neighbour :: "uint32 \<Rightarrow> fptr \<Rightarrow> Fil_addr \<Rightarrow> Fil_addr \<Rightarrow> fptr" where
  "flst_neighbour space node node_addr addr =
     (if m_page_no addr = m_page_no node_addr then (fst node, unat (m_boffset addr))
      else fut_get_ptr space addr)"

definition flst_add_last :: "fsp_state \<Rightarrow> fptr \<Rightarrow> fptr \<Rightarrow> fsp_state option" where
  "flst_add_last s base node = do {
     last_addr \<leftarrow> flst_get_last s base;
     let (space, node_addr) = buf_ptr_get_fsp_addr s node;
     if flst_get_len s base \<noteq> 0
     then flst_insert_after s base (flst_neighbour space node node_addr last_addr) node
     else flst_add_to_empty s base node
   }"

definition flst_add_first :: "fsp_state \<Rightarrow> fptr \<Rightarrow> fptr \<Rightarrow> fsp_state option" where
  "flst_add_first s base node = do {
     first_addr \<leftarrow> flst_get_first s base;
     let (space, node_addr) = buf_ptr_get_fsp_addr s node;
     if flst_get_len s base \<noteq> 0
     then flst_insert_before s base node (flst_neighbour space node node_addr first_addr)
     else flst_add_to_empty s base node
   }"

definition flst_remove :: "fsp_state \<Rightarrow> fptr \<Rightarrow> fptr \<Rightarrow> fsp_state option" where
  "flst_remove s base node2 =
     (let (space, node2_addr) = buf_ptr_get_fsp_addr s node2
      in do {
        node1_addr \<leftarrow> flst_get_prev_addr s node2;
        node3_addr \<leftarrow> flst_get_next_addr s node2;
        s \<leftarrow> (if \<not> addr_is_null node1_addr
             then flst_write_addr s (ptr_add (flst_neighbour space node2 node2_addr node1_addr) FLST_NEXT) node3_addr
             else flst_write_addr s (ptr_add base FLST_FIRST) node3_addr);
        s \<leftarrow> (if \<not> addr_is_null node3_addr
             then flst_write_addr s (ptr_add (flst_neighbour space node2 node2_addr node3_addr) FLST_PREV) node1_addr
             else flst_write_addr s (ptr_add base FLST_LAST) node1_addr);
        write_ulint s (ptr_add base FLST_LEN) (flst_get_len s base - 1) MLOG_4BYTES
      })"

definition flst_cut_end :: "fsp_state \<Rightarrow> fptr \<Rightarrow> fptr \<Rightarrow> ulint \<Rightarrow> fsp_state option" where
  "flst_cut_end s base node2 n_nodes =
     (let (space, node2_addr) = buf_ptr_get_fsp_addr s node2
      in do {
        node1_addr \<leftarrow> flst_get_prev_addr s node2;
        s \<leftarrow> (if \<not> addr_is_null node1_addr
             then flst_write_addr s (ptr_add (flst_neighbour space node2 node2_addr node1_addr) FLST_NEXT) fil_addr_null
             else flst_write_addr s (ptr_add base FLST_FIRST) fil_addr_null);
        s \<leftarrow> flst_write_addr s (ptr_add base FLST_LAST) node1_addr;
        write_ulint s (ptr_add base FLST_LEN) (flst_get_len s base - n_nodes) MLOG_4BYTES
      })"

definition flst_truncate_end :: "fsp_state \<Rightarrow> fptr \<Rightarrow> fptr \<Rightarrow> ulint \<Rightarrow> fsp_state option" where
  "flst_truncate_end s base node2 n_nodes =
     (if n_nodes = 0 then Some s
      else
        let (space, node2_addr) = buf_ptr_get_fsp_addr s node2
        in do {
          s \<leftarrow> flst_write_addr s (ptr_add node2 FLST_NEXT) fil_addr_null;
          s \<leftarrow> flst_write_addr s (ptr_add base FLST_LAST) node2_addr;
          write_ulint s (ptr_add base FLST_LEN) (flst_get_len s base - n_nodes) MLOG_4BYTES
        })"

text \<open>The two loops of \<^verbatim>\<open>flst_validate\<close>: \<open>n\<close> steps along one of the links.\<close>

fun flst_follow :: "(fptr \<Rightarrow> Fil_addr option) \<Rightarrow> uint32 \<Rightarrow> nat \<Rightarrow> Fil_addr \<Rightarrow> Fil_addr option" where
  "flst_follow link space 0 addr = Some addr"
| "flst_follow link space (Suc n) addr =
     (case link (fut_get_ptr space addr) of None \<Rightarrow> None | Some addr \<Rightarrow> flst_follow link space n addr)"

definition flst_validate :: "fsp_state \<Rightarrow> fptr \<Rightarrow> bool option" where
  "flst_validate s base =
     (let (space, base_addr) = buf_ptr_get_fsp_addr s base;
          len = unat (flst_get_len s base)
      in do {
        node_addr \<leftarrow> flst_get_first s base;
        node_addr \<leftarrow> flst_follow (flst_get_next_addr s) space len node_addr;
        if addr_is_null node_addr then do {
          node_addr \<leftarrow> flst_get_last s base;
          node_addr \<leftarrow> flst_follow (flst_get_prev_addr s) space len node_addr;
          if addr_is_null node_addr then Some True else None
        } else None
      })"


section \<open>Page writes that keep the page header\<close>

text \<open>
  \<open>writable\<close>: the frame's header names the page it is the frame of, and the page is not inside
  the doublewrite buffer, where nothing may be redo logged.
\<close>

definition writable :: "fsp_state \<Rightarrow> frame_id \<Rightarrow> bool" where
  "writable s k \<longleftrightarrow> mach_read_from_4 (frames s k) FIL_PAGE_SPACE_ID = ucast (fst k)
     \<and> mach_read_from_4 (frames s k) FIL_PAGE_OFFSET = ucast (snd k)
     \<and> (fst k \<noteq> 0 \<or> snd k < 64 \<or> 192 \<le> snd k)"

lemma ucast_eq_0_iff: "(ucast (x :: uint32) :: ulint) = 0 \<longleftrightarrow> x = 0"
  by (simp add: unat_eq_iff unat_widen)

lemma ucast_less_iff:
  "(ucast (x :: uint32) :: ulint) < ucast (y :: uint32) \<longleftrightarrow> x < y"
  "(ucast (x :: uint32) :: ulint) \<le> ucast (y :: uint32) \<longleftrightarrow> x \<le> y"
  by (simp_all add: word_less_nat_alt word_le_nat_alt unat_widen)

lemma outside_dblwr:
  fixes sp pg :: uint32
  assumes "sp \<noteq> 0 \<or> pg < 64 \<or> 192 \<le> pg"
  shows "(ucast sp :: ulint) \<noteq> SYS_TABLESPACE \<or> (ucast pg :: ulint) < FSP_EXTENT_SIZE
    \<or> 3 * FSP_EXTENT_SIZE \<le> (ucast pg :: ulint)"
  using assms ucast_less_iff(1) [of pg 64] ucast_less_iff(2) [of 192 pg] by (auto simp: ucast_eq_0_iff)

lemma ulint_write_frame: "a < off \<or> off + 4 \<le> a \<Longrightarrow> ulint_write type page off val a = page a"
  by (auto simp: codec1.wr_frame codec2.wr_frame codec4.wr_frame)

lemma ulint_write_header:
  "38 \<le> off \<Longrightarrow> k \<le> 34 \<Longrightarrow> mach_read_from_4 (ulint_write type page off val) k = mach_read_from_4 page k"
  by (rule codec4.rd_local) (simp add: ulint_write_frame del: ulint_write.simps)

text \<open>A logged write succeeds and has the effect of the plain write on its frame.\<close>

lemma write_ulint_ok:
  assumes "writable s (fst p)" "ulint_type type" "38 \<le> snd p"
  obtains s' where "write_ulint s p val type = Some s'"
    "frames s' = (frames s)(fst p := ulint_write type (frames s (fst p)) (snd p) val)"
proof -
  let ?pg = "ulint_write type (frames s (fst p)) (snd p) val"
  have hdr: "mach_read_from_4 ?pg FIL_PAGE_SPACE_ID = ucast (fst (fst p))"
    "mach_read_from_4 ?pg FIL_PAGE_OFFSET = ucast (snd (fst p))"
    using assms(1,3) by (simp_all add: ulint_write_header writable_def del: ulint_write.simps)
  have "mlog_write_initial_log_record_fast ?pg type l mtr \<noteq> None" for l mtr
    using outside_dblwr [of "fst (fst p)" "snd (fst p)"] assms(1)
    by (simp add: mlog_write_initial_log_record_fast_def hdr writable_def Let_def case_prod_beta
        del: ulint_write.simps)
  then obtain mtr' where "mlog_write_ulint (frames s (fst p)) (snd p) val type (fmtr s) = Some (?pg, mtr')"
    by (rule mlog_write_ulint_succeeds [OF assms(2)])
  then show thesis by (intro that) (auto simp: write_ulint_def)
qed

lemma writable_frames:
  assumes "writable s k" "frames s' = (frames s)(fst p := ulint_write type (frames s (fst p)) (snd p) val)" "38 \<le> snd p"
  shows "writable s' k"
  using assms by (auto simp: writable_def ulint_write_header simp del: ulint_write.simps)


section \<open>File addresses in frames\<close>

definition addr_write :: "mem \<Rightarrow> nat \<Rightarrow> Fil_addr \<Rightarrow> mem" where
  "addr_write page off v = mach_write_to_2 (mach_write_to_4 page off (m_page_no v)) (off + 4) (ucast (m_boffset v))"

definition addr_read :: "mem \<Rightarrow> nat \<Rightarrow> Fil_addr" where
  "addr_read page off =
     \<lparr>m_page_no = ucast (mach_read_from_4 page off), m_boffset = ucast (mach_read_from_2 page (off + 4))\<rparr>"

lemma addr_write_frame: "a < off \<or> off + 6 \<le> a \<Longrightarrow> addr_write page off v a = page a"
  by (auto simp: addr_write_def codec2.wr_frame codec4.wr_frame)

lemma addr_read_local:
  "(\<And>i. i < 6 \<Longrightarrow> m (off + i) = m' (off + i)) \<Longrightarrow> addr_read m off = addr_read m' off"
  unfolding addr_read_def
  using codec4.rd_local [of m off m'] codec2.rd_local [of m "off + 4" m'] by (simp add: add.assoc)

lemma ucast_ucast_32: "(ucast (ucast (x :: uint32) :: ulint) :: uint32) = x"
  using unat_uint32_less [of x] by (simp add: unat_eq_iff unat_ucast_mod)

lemma addr_read_write:
  assumes "unat (m_boffset v) < 2 ^ 16"
  shows "addr_read (addr_write page off v) off = v"
proof -
  have "mach_read_from_2 (addr_write page off v) (off + 4) = ucast (m_boffset v)"
    using assms codec2.rd_wr [of "ucast (m_boffset v)"] by (simp add: addr_write_def unat_widen)
  moreover have "mach_read_from_4 (addr_write page off v) off = ucast (m_page_no v)"
    by (simp add: addr_write_def codec2.wr_frame codec4.rd_wr
        codec4.rd_local [of "mach_write_to_2 _ _ _" _ "mach_write_to_4 page off (m_page_no v)"])
  ultimately show ?thesis by (simp add: addr_read_def ucast_ucast_32)
qed

lemma mach_read_from_2_less: "unat (mach_read_from_2 m b) < 65536"
  using unat_byte_less [of "m b"] unat_byte_less [of "m (b + 1)"] by (simp add: unat_mach_read_from_2)

definition addr_valid :: "Fil_addr \<Rightarrow> bool" where
  "addr_valid v \<longleftrightarrow> m_page_no v = FIL_NULL \<or> 38 \<le> m_boffset v"

lemma flst_read_addr_eq:
  "flst_read_addr s p = (let v = addr_read (frames s (fst p)) (snd p)
     in if addr_valid v \<and> 38 \<le> snd p then Some v else None)"
  by (simp add: flst_read_addr_def addr_read_def read_ulint_def ptr_add_def addr_valid_def)

lemma flst_write_addr_ok:
  assumes "writable s (fst p)" "38 \<le> snd p" "addr_valid v"
  obtains s' where "flst_write_addr s p v = Some s'"
    "frames s' = (frames s)(fst p := addr_write (frames s (fst p)) (snd p) v)"
    "\<And>k. writable s k \<Longrightarrow> writable s' k"
proof -
  have ty: "ulint_type MLOG_4BYTES" "ulint_type MLOG_2BYTES" by (simp_all add: ulint_type_def)
  obtain s1 where 1: "write_ulint s p (ucast (m_page_no v)) MLOG_4BYTES = Some s1"
    "frames s1 = (frames s)(fst p := ulint_write MLOG_4BYTES (frames s (fst p)) (snd p) (ucast (m_page_no v)))"
    by (rule write_ulint_ok [OF assms(1) ty(1) assms(2)])
  note w1 = writable_frames [OF _ 1(2) assms(2)]
  let ?q = "ptr_add p FIL_ADDR_BYTE"
  have q: "fst ?q = fst p" "snd ?q = snd p + 4" by (simp_all add: ptr_add_def)
  have w: "writable s1 (fst ?q)" using w1 assms(1) q by simp
  obtain s2 where 2: "write_ulint s1 ?q (ucast (m_boffset v)) MLOG_2BYTES = Some s2"
    "frames s2 = (frames s1)(fst ?q := ulint_write MLOG_2BYTES (frames s1 (fst ?q)) (snd ?q) (ucast (m_boffset v)))"
    using w ty(2) by (rule write_ulint_ok) (use assms(2) q in simp)
  have w2: "writable s2 k" if "writable s k" for k
    using writable_frames [OF w1 [OF that] 2(2)] assms(2) q by simp
  show thesis
  proof (rule that [OF _ _ w2])
    have "ptr_add p FIL_ADDR_PAGE = p" by (simp add: ptr_add_def)
    then show "flst_write_addr s p v = Some s2"
      using assms(2,3) 1(1) 2(1) by (simp add: flst_write_addr_def addr_valid_def)
    show "frames s2 = (frames s)(fst p := addr_write (frames s (fst p)) (snd p) v)"
      using 1(2) 2(2) q by (simp add: addr_write_def ucast_ucast_32)
  qed
qed

section \<open>The store of one list\<close>

fun fld_ptr :: "fptr \<Rightarrow> Fil_addr lfield \<Rightarrow> fptr" where
  "fld_ptr h First = ptr_add h FLST_FIRST"
| "fld_ptr h Last = ptr_add h FLST_LAST"
| "fld_ptr h (Prev a) = ptr_add (fut_get_ptr (fst (fst h)) a) FLST_PREV"
| "fld_ptr h (Next a) = ptr_add (fut_get_ptr (fst (fst h)) a) FLST_NEXT"

definition flst_ga :: "fptr \<Rightarrow> fsp_state \<Rightarrow> Fil_addr lfield \<Rightarrow> Fil_addr" where
  "flst_ga h s x = addr_read (frames s (fst (fld_ptr h x))) (snd (fld_ptr h x))"

definition flst_sa :: "fptr \<Rightarrow> fsp_state \<Rightarrow> Fil_addr lfield \<Rightarrow> Fil_addr \<Rightarrow> fsp_state" where
  "flst_sa h s x v = the (flst_write_addr s (fld_ptr h x) v)"

definition flst_gn :: "fptr \<Rightarrow> fsp_state \<Rightarrow> nat" where
  "flst_gn h s = unat (flst_get_len s h)"

definition flst_sn :: "fptr \<Rightarrow> fsp_state \<Rightarrow> nat \<Rightarrow> fsp_state" where
  "flst_sn h s n = the (write_ulint s h (of_nat n) MLOG_4BYTES)"

definition flst_dec :: "Fil_addr \<Rightarrow> Fil_addr option" where
  "flst_dec v = (if addr_is_null v then None else Some v)"

definition flst_vok :: "fptr \<Rightarrow> Fil_addr set \<Rightarrow> Fil_addr \<Rightarrow> bool" where
  "flst_vok h N v \<longleftrightarrow> addr_is_null v \<and> unat (m_boffset v) < 2 ^ 16 \<or> v \<in> N"

text \<open>
  The nodes of a list and its base node lie in one tablespace, inside the data part of their
  pages, and do not overlap.
\<close>

definition flst_ok :: "fptr \<Rightarrow> Fil_addr set \<Rightarrow> fsp_state \<Rightarrow> bool" where
  "flst_ok h N s \<longleftrightarrow> FIL_PAGE_DATA \<le> snd h \<and> snd h + 16 \<le> UNIV_PAGE_SIZE \<and> writable s (fst h)
     \<and> (\<forall>a\<in>N. \<not> addr_is_null a \<and> 38 \<le> unat (m_boffset a) \<and> unat (m_boffset a) + 12 \<le> UNIV_PAGE_SIZE
          \<and> writable s (fst (fst h), m_page_no a)
          \<and> (m_page_no a = snd (fst h) \<longrightarrow> unat (m_boffset a) + 12 \<le> snd h \<or> snd h + 16 \<le> unat (m_boffset a)))
     \<and> (\<forall>a\<in>N. \<forall>b\<in>N. a \<noteq> b \<longrightarrow> m_page_no a = m_page_no b \<longrightarrow>
          unat (m_boffset a) + 12 \<le> unat (m_boffset b) \<or> unat (m_boffset b) + 12 \<le> unat (m_boffset a))"

lemma flst_ok_node:
  assumes "flst_ok h N s" "a \<in> N"
  shows "\<not> addr_is_null a" "38 \<le> unat (m_boffset a)" "unat (m_boffset a) + 12 \<le> UNIV_PAGE_SIZE"
    "writable s (fst (fst h), m_page_no a)"
  using assms by (auto simp: flst_ok_def)

lemma flst_ok_base:
  assumes "flst_ok h N s"
  shows "38 \<le> snd h" "snd h + 16 \<le> UNIV_PAGE_SIZE" "writable s (fst h)"
    "a \<in> N \<Longrightarrow> fst h = (sp, m_page_no a) \<Longrightarrow> unat (m_boffset a) + 12 \<le> snd h \<or> snd h + 16 \<le> unat (m_boffset a)"
  using assms by (auto simp: flst_ok_def)

lemma flst_ok_sep:
  assumes "flst_ok h N s" "a \<in> N" "b \<in> N" "a \<noteq> b" "m_page_no a = m_page_no b"
  shows "unat (m_boffset a) + 12 \<le> unat (m_boffset b) \<or> unat (m_boffset b) + 12 \<le> unat (m_boffset a)"
  using assms by (auto simp: flst_ok_def)

lemma fld_ptr_inside:
  assumes "flst_ok h N s" "set_lfield x \<subseteq> N"
  shows "writable s (fst (fld_ptr h x))" "38 \<le> snd (fld_ptr h x)"
  using assms by (cases x; auto simp: flst_ok_def ptr_add_def fut_get_ptr_def)+

text \<open>Every field lies in the base node or in one node.\<close>

lemma fld_ptr_cases:
  assumes "set_lfield x \<subseteq> N"
  obtains (base) "set_lfield x = {}" "fst (fld_ptr h x) = fst h" "snd (fld_ptr h x) = snd h + 4 \<or> snd (fld_ptr h x) = snd h + 10"
  | (node) a where "a \<in> N" "set_lfield x = {a}" "fst (fld_ptr h x) = (fst (fst h), m_page_no a)"
      "snd (fld_ptr h x) = unat (m_boffset a) \<or> snd (fld_ptr h x) = unat (m_boffset a) + 6"
  using assms by (cases x) (auto simp: ptr_add_def fut_get_ptr_def)

lemma fld_ptr_same_group:
  assumes "set_lfield x = set_lfield y" "x \<noteq> y"
  shows "snd (fld_ptr h x) + 6 = snd (fld_ptr h y) \<or> snd (fld_ptr h y) + 6 = snd (fld_ptr h x)"
  using assms by (cases x; cases y) (auto simp: ptr_add_def fut_get_ptr_def)

lemma fld_ptr_disjoint:
  assumes ok: "flst_ok h N s" and sub: "set_lfield x \<subseteq> N" "set_lfield y \<subseteq> N" and "x \<noteq> y"
    and eq: "fst (fld_ptr h x) = fst (fld_ptr h y)"
  shows "snd (fld_ptr h x) + 6 \<le> snd (fld_ptr h y) \<or> snd (fld_ptr h y) + 6 \<le> snd (fld_ptr h x)"
proof (cases "set_lfield x = set_lfield y")
  case True
  then show ?thesis using fld_ptr_same_group [OF _ \<open>x \<noteq> y\<close>, of h] by linarith
next
  case False
  from sub(1) show ?thesis
  proof (cases rule: fld_ptr_cases [where h = h])
    case xb: base
    from sub(2) show ?thesis
    proof (cases rule: fld_ptr_cases [where h = h])
      case base
      then show ?thesis using xb False by simp
    next
      case (node b)
      then show ?thesis using xb eq flst_ok_base(4) [OF ok, of b "fst (fst h)"] by auto
    qed
  next
    case xn: (node a)
    from sub(2) show ?thesis
    proof (cases rule: fld_ptr_cases [where h = h])
      case base
      then show ?thesis using xn eq flst_ok_base(4) [OF ok, of a "fst (fst h)"] by auto
    next
      case (node b)
      then show ?thesis using xn eq False flst_ok_sep [OF ok, of a b] by auto
    qed
  qed
qed

lemma fld_ptr_len:
  assumes ok: "flst_ok h N s" and "set_lfield x \<subseteq> N" and eq: "fst (fld_ptr h x) = fst h"
  shows "snd (fld_ptr h x) + 6 \<le> snd h \<or> snd h + 4 \<le> snd (fld_ptr h x)"
  using assms(2)
proof (cases rule: fld_ptr_cases [where h = h])
  case base
  then show ?thesis by auto
next
  case (node a)
  then show ?thesis using eq flst_ok_base(4) [OF ok, of a "fst (fst h)"] by auto
qed

lemma flst_vok_valid:
  assumes "flst_ok h N s" "flst_vok h N v"
  shows "addr_valid v" "unat (m_boffset v) < 2 ^ 16"
  using assms by (auto simp: flst_vok_def flst_ok_def addr_valid_def addr_is_null_def word_le_nat_alt)


lemma flst_ok_mono: "flst_ok h N s \<Longrightarrow> (\<And>k. writable s k \<Longrightarrow> writable s' k) \<Longrightarrow> flst_ok h N s'"
  by (auto simp: flst_ok_def)

lemma flst_sa:
  assumes "flst_ok h N s" "set_lfield x \<subseteq> N" "flst_vok h N v"
  shows "flst_write_addr s (fld_ptr h x) v = Some (flst_sa h s x v)"
    "frames (flst_sa h s x v) = (frames s)(fst (fld_ptr h x) :=
       addr_write (frames s (fst (fld_ptr h x))) (snd (fld_ptr h x)) v)"
    "flst_ok h N (flst_sa h s x v)"
proof -
  obtain s' where "flst_write_addr s (fld_ptr h x) v = Some s'"
    "frames s' = (frames s)(fst (fld_ptr h x) := addr_write (frames s (fst (fld_ptr h x))) (snd (fld_ptr h x)) v)"
    "\<And>k. writable s k \<Longrightarrow> writable s' k"
    using flst_write_addr_ok [OF fld_ptr_inside [OF assms(1,2)] flst_vok_valid(1) [OF assms(1,3)]] by metis
  then show "flst_write_addr s (fld_ptr h x) v = Some (flst_sa h s x v)"
    "frames (flst_sa h s x v) = (frames s)(fst (fld_ptr h x) :=
       addr_write (frames s (fst (fld_ptr h x))) (snd (fld_ptr h x)) v)"
    "flst_ok h N (flst_sa h s x v)"
    using flst_ok_mono [OF assms(1), of s'] by (simp_all add: flst_sa_def)
qed

lemma flst_sn:
  assumes "flst_ok h N s"
  shows "write_ulint s h (of_nat n) MLOG_4BYTES = Some (flst_sn h s n)"
    "frames (flst_sn h s n) = (frames s)(fst h := mach_write_to_4 (frames s (fst h)) (snd h) (ucast (of_nat n :: ulint)))"
    "flst_ok h N (flst_sn h s n)"
proof -
  have ty: "ulint_type MLOG_4BYTES" by (simp add: ulint_type_def)
  note b = flst_ok_base [OF assms]
  obtain s' where s': "write_ulint s h (of_nat n) MLOG_4BYTES = Some s'"
    "frames s' = (frames s)(fst h := ulint_write MLOG_4BYTES (frames s (fst h)) (snd h) (of_nat n))"
    using write_ulint_ok [OF b(3) ty b(1)] by metis
  then show "write_ulint s h (of_nat n) MLOG_4BYTES = Some (flst_sn h s n)"
    "frames (flst_sn h s n) = (frames s)(fst h := mach_write_to_4 (frames s (fst h)) (snd h) (ucast (of_nat n :: ulint)))"
    by (simp_all add: flst_sn_def)
  show "flst_ok h N (flst_sn h s n)"
    using flst_ok_mono [OF assms, of s'] writable_frames [OF _ s'(2) b(1)] s'(1) by (simp add: flst_sn_def)
qed

lemma flst_get_len_eq: "flst_get_len s h = mach_read_from_4 (frames s (fst h)) (snd h)"
  by (simp add: flst_get_len_def read_ulint_def ptr_add_def)

lemma flst_ga_frames:
  assumes "\<And>a. snd (fld_ptr h y) \<le> a \<Longrightarrow> a < snd (fld_ptr h y) + 6
      \<Longrightarrow> frames s' (fst (fld_ptr h y)) a = frames s (fst (fld_ptr h y)) a"
  shows "flst_ga h s' y = flst_ga h s y"
  unfolding flst_ga_def using assms by (intro addr_read_local) simp

interpretation flst: two_way_store flst_ga flst_sa flst_gn flst_sn flst_dec flst_vok flst_ok "2 ^ 32 - 1"
proof
  fix h N s x y v and n :: nat
  assume ok: "flst_ok h N s"
  show "flst_ok h N (flst_sn h s n)" by (rule flst_sn(3) [OF ok])
  show "flst_gn h (flst_sn h s n) = n" if "n \<le> 2 ^ 32 - 1"
    using that by (simp add: flst_gn_def flst_get_len_eq flst_sn(2) [OF ok] codec4.rd_wr unat_widen unat_ucast_mod
        unsigned_of_nat take_bit_nat_eq_self)
  assume y: "set_lfield y \<subseteq> N"
  show "flst_ga h (flst_sn h s n) y = flst_ga h s y"
    using fld_ptr_len [OF ok y]
    by (intro flst_ga_frames) (auto simp: flst_sn(2) [OF ok] codec4.wr_frame)
  show "flst_vok h N (flst_ga h s y)" if "set_option (flst_dec (flst_ga h s y)) \<subseteq> N"
  proof -
    have "unat (m_boffset (flst_ga h s y)) < 2 ^ 16"
      using mach_read_from_2_less by (simp add: flst_ga_def addr_read_def unat_ucast_mod le_less_trans [OF mod_less_eq_dividend])
    then show ?thesis using that by (auto simp: flst_vok_def flst_dec_def split: if_splits)
  qed
  assume v: "flst_vok h N v" and x: "set_lfield x \<subseteq> N"
  note sa = flst_sa [OF ok x v]
  show "flst_ok h N (flst_sa h s x v)" by (rule sa(3))
  show "flst_gn h (flst_sa h s x v) = flst_gn h s"
    using fld_ptr_len [OF ok x] unfolding flst_gn_def flst_get_len_eq sa(2)
    by (auto intro!: arg_cong [where f = unat] codec4.rd_local simp: addr_write_frame)
  show "flst_ga h (flst_sa h s x v) y = (if x = y then v else flst_ga h s y)"
  proof (cases "x = y")
    case True
    then show ?thesis
      using flst_vok_valid(2) [OF ok v] sa(2) by (simp add: flst_ga_def addr_read_write)
  next
    case False
    then show ?thesis
      using fld_ptr_disjoint [OF ok x y False]
      by (auto intro!: flst_ga_frames simp: sa(2) addr_write_frame)
  qed
qed


section \<open>The operations as operations on sequences\<close>

text \<open>The pointer to a node of a list, and the reads and writes the code makes through it.\<close>

abbreviation (input) node_of :: "fptr \<Rightarrow> Fil_addr \<Rightarrow> fptr" where
  "node_of base a \<equiv> fut_get_ptr (fst (fst base)) a"

lemma ptr_add_0 [simp]: "ptr_add p 0 = p"
  by (simp add: ptr_add_def)

lemma flst_writes:
  assumes "flst_ok h N s" "flst_vok h N v"
  shows "flst_write_addr s (ptr_add h FLST_FIRST) v = Some (flst_sa h s First v)"
    "flst_write_addr s (ptr_add h FLST_LAST) v = Some (flst_sa h s Last v)"
    "a \<in> N \<Longrightarrow> flst_write_addr s (node_of h a) v = Some (flst_sa h s (Prev a) v)"
    "a \<in> N \<Longrightarrow> flst_write_addr s (ptr_add (node_of h a) FLST_NEXT) v = Some (flst_sa h s (Next a) v)"
  using flst_sa(1) [OF assms(1) _ assms(2), of First] flst_sa(1) [OF assms(1) _ assms(2), of Last]
    flst_sa(1) [OF assms(1) _ assms(2), of "Prev a"] flst_sa(1) [OF assms(1) _ assms(2), of "Next a"]
  by simp_all

lemma flst_read_fld:
  assumes "flst_ok h N s" "set_lfield x \<subseteq> N" "flst_vok h N (flst_ga h s x)"
  shows "flst_read_addr s (fld_ptr h x) = Some (flst_ga h s x)"
  using flst_vok_valid(1) [OF assms(1,3)] fld_ptr_inside(2) [OF assms(1,2)]
  by (simp add: flst_read_addr_eq flst_ga_def)

lemma flst_links:
  assumes "flst.rep h N s (xs @ a # ys)"
  shows "flst_get_next_addr s (node_of h a) = Some (flst_ga h s (Next a))"
    "flst_get_prev_addr s (node_of h a) = Some (flst_ga h s (Prev a))"
  using flst_read_fld [of h N s "Next a"] flst_read_fld [of h N s "Prev a"] flst.rep_links [OF assms] flst.repD(1) [OF assms]
  by (simp_all add: flst_get_next_addr_def flst_get_prev_addr_def)

lemma flst_ends:
  assumes "flst.rep h N s xs"
  shows "flst_get_first s h = Some (flst_ga h s First)" "flst_get_last s h = Some (flst_ga h s Last)"
  using flst_read_fld [of h N s First] flst_read_fld [of h N s Last] flst.rep_ends [OF assms] flst.repD(1) [OF assms]
  by (simp_all add: flst_get_first_def flst_get_last_def)

lemma fsp_addr_node:
  assumes "flst_ok h N s" "a \<in> N"
  shows "buf_ptr_get_fsp_addr s (node_of h a) = (fst (fst h), a)"
  using flst_ok_node(4) [OF assms]
  by (simp add: buf_ptr_get_fsp_addr_def fut_get_ptr_def writable_def ucast_ucast_32)

lemma flst_vok_node: "a \<in> N \<Longrightarrow> flst_vok h N a"
  by (simp add: flst_vok_def)

lemma flst_vok_null: "flst_vok h N fil_addr_null" "flst_dec fil_addr_null = None"
  by (simp_all add: flst_vok_def flst_dec_def fil_addr_null_def addr_is_null_def)

lemma flst_dec_node: "flst_ok h N s \<Longrightarrow> a \<in> N \<Longrightarrow> flst_dec a = Some a"
  using flst_ok_node(1) by (simp add: flst_dec_def)

lemma flst_len_plus:
  "flst_ok h N s \<Longrightarrow> write_ulint s h (flst_get_len s h + 1) MLOG_4BYTES = Some (flst_sn h s (flst_gn h s + 1))"
  using flst_sn(1) [of h N s "flst_gn h s + 1"] by (simp add: flst_gn_def add.commute)

lemma flst_len_minus:
  assumes "flst_ok h N s" "unat k \<le> flst_gn h s"
  shows "write_ulint s h (flst_get_len s h - k) MLOG_4BYTES = Some (flst_sn h s (flst_gn h s - unat k))"
  using flst_sn(1) [OF assms(1), of "flst_gn h s - unat k"] assms(2) by (simp add: flst_gn_def of_nat_diff)

lemma flst_neighbour_node: "flst_neighbour (fst (fst h)) (node_of h a) a b = node_of h b"
  by (simp add: flst_neighbour_def fut_get_ptr_def)

lemma flst_insert_after_rep:
  assumes "flst.rep base N s (xs @ a # ys)" "b \<in> N" "b \<notin> set (xs @ a # ys)"
    and "length xs + length ys + 2 < 2 ^ 32"
  shows "\<exists>s'. flst_insert_after s base (node_of base a) (node_of base b) = Some s'
    \<and> flst.rep base N s' (xs @ a # b # ys)"
proof -
  have ok: "flst_ok base N s" and l: "a \<in> N" "flst_vok base N (flst_ga base s (Next a))"
    using flst.repD(1) [OF assms(1)] flst.rep_links [OF assms(1)] by auto
  have sub: "set_option (flst_dec (flst_ga base s (Next a))) \<subseteq> N"
    using flst.rep_links(1) [OF assms(1)] flst.repD(2) [OF assms(1)] flst.hd_or_subset [of ys N None] l(1)
    by (simp add: flst.dec_ga [where N = N])
  note step = flst_writes [where N = N] flst.ok_sa flst_vok_node l assms(2) ok
  show ?thesis
    using flst.rep_insert_after [OF assms(1-3) flst_vok_node [OF assms(2)] flst_dec_node [OF ok assms(2)]
        flst_vok_node [OF l(1)] flst_dec_node [OF ok l(1)]] assms(4) sub
    by (auto simp: flst_insert_after_def fsp_addr_node [OF ok] flst_links [OF assms(1)] step flst_dec_def
        flst_len_plus [where N = N] split: if_splits)
qed

lemma flst_insert_before_rep:
  assumes "flst.rep base N s (xs @ c # ys)" "b \<in> N" "b \<notin> set (xs @ c # ys)"
    and "length xs + length ys + 2 < 2 ^ 32"
  shows "\<exists>s'. flst_insert_before s base (node_of base b) (node_of base c) = Some s'
    \<and> flst.rep base N s' (xs @ b # c # ys)"
proof -
  have ok: "flst_ok base N s" and l: "c \<in> N" "flst_vok base N (flst_ga base s (Prev c))"
    using flst.repD(1) [OF assms(1)] flst.rep_links [OF assms(1)] by auto
  have sub: "set_option (flst_dec (flst_ga base s (Prev c))) \<subseteq> N"
    using flst.rep_links(2) [OF assms(1)] flst.repD(2) [OF assms(1)] flst.last_or_subset [of xs N None] l(1)
    by (simp add: flst.dec_ga [where N = N])
  note step = flst_writes [where N = N] flst.ok_sa flst_vok_node l assms(2) ok
  show ?thesis
    using flst.rep_insert_before [OF assms(1-3) flst_vok_node [OF assms(2)] flst_dec_node [OF ok assms(2)]
        flst_vok_node [OF l(1)] flst_dec_node [OF ok l(1)]] assms(4) sub
    by (auto simp: flst_insert_before_def fsp_addr_node [OF ok] flst_links [OF assms(1)] step flst_dec_def
        flst_len_plus [where N = N] split: if_splits)
qed

lemma flst_add_to_empty_rep:
  assumes "flst.rep base N s []" "a \<in> N"
  shows "\<exists>s'. flst_add_to_empty s base (node_of base a) = Some s' \<and> flst.rep base N s' [a]"
proof -
  have ok: "flst_ok base N s" and len: "flst_get_len s base = 0"
    using flst.repD [OF assms(1)] by (simp_all add: flst_gn_def unat_eq_iff)
  note step = flst_writes [where N = N] flst.ok_sa flst_vok_node flst_vok_null assms(2) ok
  have "write_ulint s' base 1 MLOG_4BYTES = Some (flst_sn base s' 1)" if "flst_ok base N s'" for s'
    using flst_sn(1) [OF that, of 1] by simp
  then show ?thesis
    using flst.rep_add_to_empty [OF assms flst_vok_node [OF assms(2)] flst_dec_node [OF ok assms(2)] flst_vok_null]
    by (simp add: flst_add_to_empty_def fsp_addr_node [OF ok] step len)
qed

lemma flst_init_rep:
  assumes "flst_ok base N s"
  shows "\<exists>s'. flst_init s base = Some s' \<and> flst.rep base N s' []"
  using flst.rep_init [OF assms flst_vok_null] flst_sn [OF assms, of 0]
  by (simp add: flst_init_def flst_writes [where N = N] flst.ok_sa flst_vok_null)

lemma flst_len_zero: "flst.rep h N s xs \<Longrightarrow> flst_get_len s h = 0 \<longleftrightarrow> xs = []"
  using flst.repD(4) [of h N s xs] by (auto simp: flst_gn_def unat_eq_iff)

lemma flst_dec_ends:
  assumes "flst.rep h N s xs" "xs \<noteq> []"
  shows "flst_ga h s Last = last xs" "flst_ga h s First = hd xs"
  using flst.rep_ends [OF assms(1)] assms(2)
  by (auto simp: flst_dec_def hd_or_def last_or_def split: if_splits list.splits)

text \<open>
  C14. Insertion into a list in file pages: the new node comes right behind (\<^verbatim>\<open>flst_insert_after\<close>) or
  right before (\<^verbatim>\<open>flst_insert_before\<close>) the given one, wherever on their pages the nodes lie, no
  assertion fails, and all other nodes keep their places.
\<close>

theorem flst_insert_refines:
  assumes "flst.rep base N s (xs @ a # ys)" "b \<in> N" "b \<notin> set (xs @ a # ys)"
    and "length xs + length ys + 2 < 2 ^ 32"
  shows "(\<exists>s'. flst_insert_after s base (node_of base a) (node_of base b) = Some s'
      \<and> flst.rep base N s' (xs @ a # b # ys))
    \<and> (\<exists>s'. flst_insert_before s base (node_of base b) (node_of base a) = Some s'
      \<and> flst.rep base N s' (xs @ b # a # ys))"
  using flst_insert_after_rep [OF assms] flst_insert_before_rep [OF assms] by blast

text \<open>
  C15. Adding at the ends, the empty list included: \<^verbatim>\<open>flst_add_last\<close> appends and \<^verbatim>\<open>flst_add_first\<close>
  prepends, whether or not the neighbour lies on the node's own page.
\<close>

theorem flst_add_refines:
  assumes "flst.rep base N s xs" "b \<in> N" "b \<notin> set xs" "length xs + 1 < 2 ^ 32"
  shows "(\<exists>s'. flst_add_last s base (node_of base b) = Some s' \<and> flst.rep base N s' (xs @ [b]))
    \<and> (\<exists>s'. flst_add_first s base (node_of base b) = Some s' \<and> flst.rep base N s' (b # xs))"
proof (cases "xs = []")
  case True
  then show ?thesis
    using flst_add_to_empty_rep [of base N s b] assms(1,2) flst_len_zero [OF assms(1)] flst_ends [OF assms(1)]
    by (simp add: flst_add_last_def flst_add_first_def case_prod_beta)
next
  case False
  have addr: "buf_ptr_get_fsp_addr s (node_of base b) = (fst (fst base), b)"
    by (rule fsp_addr_node [OF flst.repD(1) [OF assms(1)] assms(2)])
  obtain zs z where xs: "xs = zs @ [z]" using False by (cases xs rule: rev_cases) auto
  have "\<exists>s'. flst_insert_after s base (node_of base (last xs)) (node_of base b) = Some s' \<and> flst.rep base N s' (xs @ [b])"
    using flst_insert_after_rep [of base N s zs z "[]" b] assms xs by simp
  moreover have "\<exists>s'. flst_insert_before s base (node_of base b) (node_of base (hd xs)) = Some s' \<and> flst.rep base N s' (b # xs)"
    using flst_insert_before_rep [of base N s "[]" "hd xs" "tl xs" b] assms False by simp
  ultimately show ?thesis
    using False flst_len_zero [OF assms(1)]
    by (simp add: flst_add_last_def flst_add_first_def flst_ends [OF assms(1)] flst_dec_ends [OF assms(1) False]
        addr flst_neighbour_node)
qed

text \<open>
  C16. \<^verbatim>\<open>flst_remove\<close> takes exactly the given node out of the list, at either end and in the middle.
\<close>

theorem flst_remove_refines:
  assumes "flst.rep base N s (xs @ b # ys)" "length xs + length ys + 1 < 2 ^ 32"
  shows "\<exists>s'. flst_remove s base (node_of base b) = Some s' \<and> flst.rep base N s' (xs @ ys)"
proof -
  note r = flst.repD [OF assms(1)]
  have ok: "flst_ok base N s" and l: "b \<in> N" "flst_vok base N (flst_ga base s (Next b))" "flst_vok base N (flst_ga base s (Prev b))"
    using r(1) flst.rep_links [OF assms(1)] by auto
  have sub: "set_option (flst_dec (flst_ga base s (Next b))) \<subseteq> N" "set_option (flst_dec (flst_ga base s (Prev b))) \<subseteq> N"
    using flst.rep_links(1,2) [OF assms(1)] r(2) flst.hd_or_subset [of ys N None] flst.last_or_subset [of xs N None] l(1)
    by (simp_all add: flst.dec_ga [where N = N])
  note step = flst_writes [where N = N] flst.ok_sa flst_vok_node l ok
  have len: "write_ulint s' base (flst_get_len s' base - 1) MLOG_4BYTES = Some (flst_sn base s' (flst_gn base s' - 1))"
    if "flst_ok base N s'" "flst_gn base s' = flst_gn base s" for s'
    using flst_len_minus [OF that(1), of 1] that(2) r(4) by simp
  show ?thesis
    using flst.rep_remove [OF assms(1)] assms(2) sub
    by (auto simp: flst_remove_def fsp_addr_node [OF ok] flst_links [OF assms(1)] step flst_dec_def
        flst_neighbour_node len flst.gn_sa [where N = N] split: if_splits)
qed

text \<open>
  C17. Cutting the end off a list: \<^verbatim>\<open>flst_cut_end\<close> keeps the nodes before the given one and
  \<^verbatim>\<open>flst_truncate_end\<close> the nodes up to it, when the caller passes the number of nodes that go.
\<close>

theorem flst_cut_refines:
  assumes "flst.rep base N s (xs @ b # ys)" "length xs + length ys + 1 < 2 ^ 32"
  shows "(\<exists>s'. flst_cut_end s base (node_of base b) (of_nat (1 + length ys)) = Some s' \<and> flst.rep base N s' xs)
    \<and> (\<exists>s'. flst_truncate_end s base (node_of base b) (of_nat (length ys)) = Some s' \<and> flst.rep base N s' (xs @ [b]))"
proof
  note r = flst.repD [OF assms(1)]
  have ok: "flst_ok base N s" and l: "b \<in> N" "flst_vok base N (flst_ga base s (Prev b))"
    using r(1) flst.rep_links [OF assms(1)] by auto
  have sub: "set_option (flst_dec (flst_ga base s (Prev b))) \<subseteq> N"
    using flst.rep_links(2) [OF assms(1)] r(2) flst.last_or_subset [of xs N None] l(1)
    by (simp add: flst.dec_ga [where N = N])
  note step = flst_writes [where N = N] flst.ok_sa flst_vok_node flst_vok_null l ok
  have un: "unat (of_nat k :: ulint) = k" if "k \<le> 1 + length ys" for k
    using that assms(2) by (simp add: unsigned_of_nat take_bit_nat_eq_self)
  have len: "write_ulint s' base (flst_get_len s' base - of_nat k) MLOG_4BYTES = Some (flst_sn base s' (flst_gn base s' - k))"
    if "flst_ok base N s'" "flst_gn base s' = flst_gn base s" "k \<le> 1 + length ys" for s' k
    using flst_len_minus [OF that(1), of "of_nat k"] that(2,3) r(4) un [OF that(3)] by simp
  show "\<exists>s'. flst_cut_end s base (node_of base b) (of_nat (1 + length ys)) = Some s' \<and> flst.rep base N s' xs"
    using flst.rep_cut_end [OF assms(1) flst_vok_null] assms(2) sub len [of _ "1 + length ys"]
    by (auto simp: flst_cut_end_def fsp_addr_node [OF ok] flst_links [OF assms(1)] step flst_dec_def
        flst_neighbour_node flst.gn_sa [where N = N] split: if_splits)
  show "\<exists>s'. flst_truncate_end s base (node_of base b) (of_nat (length ys)) = Some s' \<and> flst.rep base N s' (xs @ [b])"
  proof (cases "ys = []")
    case True
    then show ?thesis using assms(1) by (simp add: flst_truncate_end_def)
  next
    case False
    then have "(of_nat (length ys) :: ulint) \<noteq> 0" using un [of "length ys"] by (auto simp: unat_eq_iff)
    then show ?thesis
      using flst.rep_truncate_end [OF assms(1) flst_vok_null flst_vok_node [OF l(1)] flst_dec_node [OF ok l(1)]]
        assms(2) len [of _ "length ys"]
      by (simp add: flst_truncate_end_def fsp_addr_node [OF ok] step flst.gn_sa [where N = N])
  qed
qed


lemma flst_follow_next:
  assumes "flst.rep h N s (xs @ ys)" "flst_dec v = hd_or ys None"
  shows "\<exists>v'. flst_follow (flst_get_next_addr s) (fst (fst h)) (length ys) v = Some v' \<and> flst_dec v' = None"
  using assms
proof (induction ys arbitrary: xs v)
  case Nil
  then show ?case by simp
next
  case (Cons y ys)
  have "v = y" using Cons.prems(2) by (simp add: flst_dec_def split: if_splits)
  moreover have "flst_get_next_addr s (node_of h y) = Some (flst_ga h s (Next y))"
    using flst_links(1) Cons.prems(1) .
  moreover have "flst_dec (flst_ga h s (Next y)) = hd_or ys None"
    using flst.rep_links(1,5) [OF Cons.prems(1)] by (simp add: flst.dec_ga [where N = N])
  ultimately show ?case using Cons.IH [of "xs @ [y]"] Cons.prems(1) by simp
qed

lemma flst_follow_prev:
  assumes "flst.rep h N s (xs @ ys)" "flst_dec v = last_or None xs"
  shows "\<exists>v'. flst_follow (flst_get_prev_addr s) (fst (fst h)) (length xs) v = Some v' \<and> flst_dec v' = None"
  using assms
proof (induction xs arbitrary: ys v rule: rev_induct)
  case Nil
  then show ?case by simp
next
  case (snoc x xs)
  have "v = x" using snoc.prems(2) by (simp add: flst_dec_def split: if_splits)
  moreover have "flst.rep h N s (xs @ x # ys)" using snoc.prems(1) by simp
  moreover from this have "flst_get_prev_addr s (node_of h x) = Some (flst_ga h s (Prev x))"
    "flst_dec (flst_ga h s (Prev x)) = last_or None xs"
    using flst_links(2) flst.rep_links(2,5) by (auto simp: flst.dec_ga [where N = N])
  ultimately show ?case using snoc.IH [of "x # ys"] by simp
qed

text \<open>
  C18. \<^verbatim>\<open>flst_validate\<close> accepts every list the operations build: following the stored length from
  the first node and from the last node ends at the null address both times, and none of the
  assertions on the way fails.
\<close>

theorem flst_validate_accepts:
  assumes "flst.rep base N s xs"
  shows "flst_validate s base = Some True"
proof -
  note r = flst.repD [OF assms] and e = flst.rep_ends [OF assms]
  have sp: "fst (buf_ptr_get_fsp_addr s base) = fst (fst base)"
    using flst_ok_base(3) [OF r(1)] by (simp add: buf_ptr_get_fsp_addr_def writable_def ucast_ucast_32)
  have len: "unat (flst_get_len s base) = length xs" using r(4) by (simp add: flst_gn_def)
  obtain v w where
    "flst_follow (flst_get_next_addr s) (fst (fst base)) (length xs) (flst_ga base s First) = Some v" "flst_dec v = None"
    "flst_follow (flst_get_prev_addr s) (fst (fst base)) (length xs) (flst_ga base s Last) = Some w" "flst_dec w = None"
    using flst_follow_next [of base N s "[]" xs, OF _ e(1)] flst_follow_prev [of base N s xs "[]", OF _ e(2)] assms by auto
  then show ?thesis
    by (simp add: flst_validate_def case_prod_beta sp len flst_ends [OF assms] flst_dec_def split: if_splits)
qed

section \<open>A concrete list\<close>

text \<open>Three nodes on two pages of tablespace 1.\<close>

definition sample_base :: fptr where "sample_base = ((1, 3), 50)"
definition sample_a :: Fil_addr where "sample_a = \<lparr>m_page_no = 3, m_boffset = 100\<rparr>"
definition sample_b :: Fil_addr where "sample_b = \<lparr>m_page_no = 3, m_boffset = 200\<rparr>"
definition sample_c :: Fil_addr where "sample_c = \<lparr>m_page_no = 4, m_boffset = 100\<rparr>"

definition sample_state :: fsp_state where
  "sample_state = \<lparr>frames = (\<lambda>k. mach_write_to_4 (mach_write_to_4 (\<lambda>_. 0) FIL_PAGE_SPACE_ID (fst k)) FIL_PAGE_OFFSET (snd k)),
     fmtr = mtr_start mtr_fresh\<rparr>"

abbreviation (input) "sample_nodes \<equiv> {sample_a, sample_b, sample_c}"

lemma sample_ok: "flst_ok sample_base sample_nodes sample_state"
proof -
  have "writable sample_state (1, k)" for k
    using codec4.rd_wr_other [of FIL_PAGE_SPACE_ID FIL_PAGE_OFFSET]
    by (simp add: writable_def sample_state_def codec4.rd_wr)
  then show ?thesis
    by (simp add: flst_ok_def sample_base_def sample_a_def sample_b_def sample_c_def addr_is_null_def)
qed

lemma sample_distinct: "distinct [sample_a, sample_b, sample_c]"
  by (simp add: sample_a_def sample_b_def sample_c_def)

lemma sample_list: "\<exists>s. flst.rep sample_base sample_nodes s [sample_a, sample_b]"
proof -
  obtain s0 where 0: "flst.rep sample_base sample_nodes s0 []" using flst_init_rep [OF sample_ok] by blast
  obtain s1 where 1: "flst.rep sample_base sample_nodes s1 [sample_a]"
    using flst_add_to_empty_rep [OF 0, of sample_a] by blast
  show ?thesis
    using flst_insert_after_rep [of sample_base sample_nodes s1 "[]" sample_a "[]" sample_b] 1 sample_distinct by auto
qed

theorem flst_insert_refines_witness:
  "\<exists>s s'. flst_insert_after s sample_base (node_of sample_base sample_a) (node_of sample_base sample_c) = Some s'
     \<and> flst.rep sample_base sample_nodes s' [sample_a, sample_c, sample_b]"
proof -
  obtain s where "flst.rep sample_base sample_nodes s [sample_a, sample_b]" using sample_list by blast
  then show ?thesis
    using flst_insert_refines [of sample_base sample_nodes s "[]" sample_a "[sample_b]" sample_c] sample_distinct
    by (subst ex_comm, fastforce)
qed

theorem flst_add_refines_witness:
  "\<exists>s s'. flst_add_last s sample_base (node_of sample_base sample_c) = Some s'
     \<and> flst.rep sample_base sample_nodes s' [sample_a, sample_b, sample_c]"
proof -
  obtain s where "flst.rep sample_base sample_nodes s [sample_a, sample_b]" using sample_list by blast
  then show ?thesis
    using flst_add_refines [of sample_base sample_nodes s "[sample_a, sample_b]" sample_c] sample_distinct
    by (subst ex_comm, fastforce)
qed

theorem flst_remove_refines_witness:
  "\<exists>s s'. flst_remove s sample_base (node_of sample_base sample_a) = Some s'
     \<and> flst.rep sample_base sample_nodes s' [sample_b]"
proof -
  obtain s where "flst.rep sample_base sample_nodes s [sample_a, sample_b]" using sample_list by blast
  then show ?thesis
    using flst_remove_refines [of sample_base sample_nodes s "[]" sample_a "[sample_b]"] by auto
qed

theorem flst_cut_refines_witness:
  "\<exists>s s'. flst_cut_end s sample_base (node_of sample_base sample_b) 1 = Some s'
     \<and> flst.rep sample_base sample_nodes s' [sample_a]"
proof -
  obtain s where "flst.rep sample_base sample_nodes s [sample_a, sample_b]" using sample_list by blast
  then show ?thesis
    using flst_cut_refines [of sample_base sample_nodes s "[sample_a]" sample_b "[]"] by auto
qed

theorem flst_validate_accepts_witness:
  "\<exists>s. flst_validate s sample_base = Some True \<and> flst_get_len s sample_base \<noteq> 0"
proof -
  obtain s where "flst.rep sample_base sample_nodes s [sample_a, sample_b]" using sample_list by blast
  then show ?thesis using flst_validate_accepts [of sample_base sample_nodes s] flst_len_zero by blast
qed

end
