(* ===== verification/Ut_List.thy ===== *)
theory Ut_List
  imports Prelude Two_Way_List
begin

text \<open>
  Model of \<^verbatim>\<open>include/ut0lst.h\<close>: the two-way lists of memory objects that the lock system, the
  buffer pool and the transaction system keep.  The elements carry their own links, so the
  state of a list is its base node together with the link fields of all elements.  A failing
  \<^verbatim>\<open>ut_a\<close> is \<open>None\<close>.  Iteration follows the links and need not end on a damaged list: it is a
  \<open>partial_function\<close> into \<open>option\<close>, and its termination on proper lists is proved.
\<close>

section \<open>State and operations\<close>

record 'a ut_list_node =
  m_prev :: "'a option"
  m_next :: "'a option"

record 'a ut_list_base =
  m_first_element :: "'a option"
  m_last_element :: "'a option"
  ut_count :: uint64
  ut_nodes :: "'a \<Rightarrow> 'a ut_list_node"

definition ut_list_init :: "('a \<Rightarrow> 'a ut_list_node) \<Rightarrow> 'a ut_list_base" where
  "ut_list_init nodes = \<lparr>m_first_element = None, m_last_element = None, ut_count = 0, ut_nodes = nodes\<rparr>"

definition set_next :: "'a ut_list_base \<Rightarrow> 'a \<Rightarrow> 'a option \<Rightarrow> 'a ut_list_base" where
  "set_next l e v = l\<lparr>ut_nodes := (ut_nodes l)(e := (ut_nodes l e)\<lparr>m_next := v\<rparr>)\<rparr>"

definition set_prev :: "'a ut_list_base \<Rightarrow> 'a \<Rightarrow> 'a option \<Rightarrow> 'a ut_list_base" where
  "set_prev l e v = l\<lparr>ut_nodes := (ut_nodes l)(e := (ut_nodes l e)\<lparr>m_prev := v\<rparr>)\<rparr>"

definition get_length :: "'a ut_list_base \<Rightarrow> uint64" where
  "get_length l = ut_count l"

definition ut_empty :: "'a ut_list_base \<Rightarrow> bool" where
  "ut_empty l \<longleftrightarrow> get_length l = 0"

text \<open>\<^verbatim>\<open>update_length(int diff)\<close>: the difference is sign-extended to the width of the count.\<close>

definition update_length :: "'a ut_list_base \<Rightarrow> 32 word \<Rightarrow> 'a ut_list_base" where
  "update_length l diff = l\<lparr>ut_count := get_length l + scast diff\<rparr>"

definition push_back :: "'a ut_list_base \<Rightarrow> 'a \<Rightarrow> 'a ut_list_base" where
  "push_back l elem =
     (let l = set_next l elem None;
          l = set_prev l elem (m_last_element l);
          l = (case m_last_element l of None \<Rightarrow> l | Some e \<Rightarrow> set_next l e (Some elem));
          l = l\<lparr>m_last_element := Some elem\<rparr>;
          l = (if m_first_element l = None then l\<lparr>m_first_element := Some elem\<rparr> else l)
      in update_length l 1)"

definition push_front :: "'a ut_list_base \<Rightarrow> 'a \<Rightarrow> 'a ut_list_base" where
  "push_front l elem =
     (let l = set_prev l elem None;
          l = set_next l elem (m_first_element l);
          l = (case m_first_element l of None \<Rightarrow> l | Some e \<Rightarrow> set_prev l e (Some elem));
          l = l\<lparr>m_first_element := Some elem\<rparr>;
          l = (if m_last_element l = None then l\<lparr>m_last_element := Some elem\<rparr> else l)
      in update_length l 1)"

definition ut_remove :: "'a ut_list_base \<Rightarrow> 'a \<Rightarrow> 'a ut_list_base option" where
  "ut_remove l elem =
     (if ut_empty l then None
      else
        let l = (case m_next (ut_nodes l elem) of
                   Some e \<Rightarrow> set_prev l e (m_prev (ut_nodes l elem))
                 | None \<Rightarrow> l\<lparr>m_last_element := m_prev (ut_nodes l elem)\<rparr>);
            l = (case m_prev (ut_nodes l elem) of
                   Some e \<Rightarrow> set_next l e (m_next (ut_nodes l elem))
                 | None \<Rightarrow> l\<lparr>m_first_element := m_next (ut_nodes l elem)\<rparr>);
            l = set_next l elem None;
            l = set_prev l elem None
        in Some (update_length l (- 1)))"

definition ut_list_insert :: "'a ut_list_base \<Rightarrow> 'a \<Rightarrow> 'a \<Rightarrow> 'a ut_list_base" where
  "ut_list_insert l elem1 elem2 =
     (let l = set_prev l elem2 (Some elem1);
          l = set_next l elem2 (m_next (ut_nodes l elem1));
          l = (case m_next (ut_nodes l elem2) of
                 Some e \<Rightarrow> set_prev l e (Some elem2)
               | None \<Rightarrow> l\<lparr>m_last_element := Some elem2\<rparr>);
          l = set_next l elem1 (Some elem2)
      in update_length l 1)"

definition ut_clear :: "'a ut_list_base \<Rightarrow> 'a ut_list_base" where
  "ut_clear l = l\<lparr>m_first_element := None, m_last_element := None, ut_count := 0\<rparr>"

text \<open>\<^verbatim>\<open>for (auto elem : list)\<close>: the elements visited from a starting element.\<close>

partial_function (option) ut_iterate :: "('a \<Rightarrow> 'a option) \<Rightarrow> 'a option \<Rightarrow> 'a list option" where
  "ut_iterate step e =
     (case e of None \<Rightarrow> Some []
      | Some x \<Rightarrow> Option.bind (ut_iterate step (step x)) (\<lambda>xs. Some (x # xs)))"

definition ut_list_map :: "'a ut_list_base \<Rightarrow> 'a list option" where
  "ut_list_map l =
     (case ut_iterate (\<lambda>e. m_next (ut_nodes l e)) (m_first_element l) of
        None \<Rightarrow> None
      | Some xs \<Rightarrow> if of_nat (length xs) = get_length l then Some xs else None)"

definition ut_list_validate :: "'a ut_list_base \<Rightarrow> 'a list option" where
  "ut_list_validate l =
     (case ut_list_map l of
        None \<Rightarrow> None
      | Some visited \<Rightarrow>
          (case ut_iterate (\<lambda>e. m_prev (ut_nodes l e)) (m_last_element l) of
             None \<Rightarrow> None
           | Some xs \<Rightarrow> if of_nat (length xs) = get_length l then Some visited else None))"

partial_function (option) ut_find :: "('a \<Rightarrow> 'a option) \<Rightarrow> 'a \<Rightarrow> 'a option \<Rightarrow> bool option" where
  "ut_find step elem e =
     (case e of None \<Rightarrow> Some False
      | Some x \<Rightarrow> if elem = x then Some True else ut_find step elem (step x))"

definition ut_list_exists :: "'a ut_list_base \<Rightarrow> 'a \<Rightarrow> bool option" where
  "ut_list_exists l elem = ut_find (\<lambda>e. m_next (ut_nodes l e)) elem (m_first_element l)"

section \<open>The store contract\<close>

fun ut_ga :: "unit \<Rightarrow> 'a ut_list_base \<Rightarrow> 'a lfield \<Rightarrow> 'a option" where
  "ut_ga _ l First = m_first_element l"
| "ut_ga _ l Last = m_last_element l"
| "ut_ga _ l (Prev a) = m_prev (ut_nodes l a)"
| "ut_ga _ l (Next a) = m_next (ut_nodes l a)"

fun ut_sa :: "unit \<Rightarrow> 'a ut_list_base \<Rightarrow> 'a lfield \<Rightarrow> 'a option \<Rightarrow> 'a ut_list_base" where
  "ut_sa _ l First v = l\<lparr>m_first_element := v\<rparr>"
| "ut_sa _ l Last v = l\<lparr>m_last_element := v\<rparr>"
| "ut_sa _ l (Prev a) v = set_prev l a v"
| "ut_sa _ l (Next a) v = set_next l a v"

definition ut_gn :: "unit \<Rightarrow> 'a ut_list_base \<Rightarrow> nat" where
  "ut_gn _ l = unat (ut_count l)"

definition ut_sn :: "unit \<Rightarrow> 'a ut_list_base \<Rightarrow> nat \<Rightarrow> 'a ut_list_base" where
  "ut_sn _ l n = l\<lparr>ut_count := of_nat n\<rparr>"

definition ut_vok :: "unit \<Rightarrow> 'a set \<Rightarrow> 'a option \<Rightarrow> bool" where
  "ut_vok _ N v \<longleftrightarrow> set_option v \<subseteq> N"

interpretation ut: two_way_store ut_ga ut_sa ut_gn ut_sn "\<lambda>v. v" ut_vok "\<lambda>_ _ _. True" "2 ^ 64 - 1"
proof
  fix h :: unit and N :: "'a set" and s x y v and n :: nat
  show "ut_ga h (ut_sa h s x v) y = (if x = y then v else ut_ga h s y)"
    by (cases x; cases y) (auto simp: set_prev_def set_next_def)
  show "ut_gn h (ut_sa h s x v) = ut_gn h s"
    by (cases x) (auto simp: ut_gn_def set_prev_def set_next_def)
  show "ut_ga h (ut_sn h s n) y = ut_ga h s y" by (cases y) (auto simp: ut_sn_def)
  show "ut_gn h (ut_sn h s n) = n" if "n \<le> 2 ^ 64 - 1"
    using that by (simp add: ut_gn_def ut_sn_def unsigned_of_nat take_bit_nat_eq_self)
qed (simp_all add: ut_vok_def)

text \<open>The list a base node represents, all objects being possible elements.\<close>

definition ut_rep :: "'a ut_list_base \<Rightarrow> 'a list \<Rightarrow> bool" where
  "ut_rep l xs \<longleftrightarrow> ut.rep () UNIV l xs"

lemma ut_view [simp]: "ut.view () UNIV l = ut_ga () l"
  by (simp add: ut.view_def fun_eq_iff)

lemma ut_rep_iff: "ut_rep l xs \<longleftrightarrow> linked (ut_ga () l) xs \<and> unat (ut_count l) = length xs"
  by (simp add: ut_rep_def ut.rep_def ut_gn_def)

lemma ut_views [simp]:
  "ut_ga () (set_next l e v) = (ut_ga () l)(Next e := v)"
  "ut_ga () (set_prev l e v) = (ut_ga () l)(Prev e := v)"
  "ut_ga () (l\<lparr>m_first_element := v\<rparr>) = (ut_ga () l)(First := v)"
  "ut_ga () (l\<lparr>m_last_element := v\<rparr>) = (ut_ga () l)(Last := v)"
  "ut_ga () (update_length l d) = ut_ga () l"
proof -
  show "ut_ga () (set_next l e v) = (ut_ga () l)(Next e := v)"
    using ut.view_sa [where h = "()" and N = UNIV and s = l and x = "Next e" and v = v] by (simp add: ut_vok_def)
  show "ut_ga () (set_prev l e v) = (ut_ga () l)(Prev e := v)"
    using ut.view_sa [where h = "()" and N = UNIV and s = l and x = "Prev e" and v = v] by (simp add: ut_vok_def)
  show "ut_ga () (l\<lparr>m_first_element := v\<rparr>) = (ut_ga () l)(First := v)"
    using ut.view_sa [where h = "()" and N = UNIV and s = l and x = First and v = v] by (simp add: ut_vok_def)
  show "ut_ga () (l\<lparr>m_last_element := v\<rparr>) = (ut_ga () l)(Last := v)"
    using ut.view_sa [where h = "()" and N = UNIV and s = l and x = Last and v = v] by (simp add: ut_vok_def)
  show "ut_ga () (update_length l d) = ut_ga () l"
  proof
    fix x show "ut_ga () (update_length l d) x = ut_ga () l x" by (cases x) (simp_all add: update_length_def)
  qed
qed

lemma ut_fields: "m_first_element l = ut_ga () l First" "m_last_element l = ut_ga () l Last"
  "m_next (ut_nodes l e) = ut_ga () l (Next e)" "m_prev (ut_nodes l e) = ut_ga () l (Prev e)"
  by simp_all

lemma ut_counts [simp]:
  "ut_count (set_next l e v) = ut_count l" "ut_count (set_prev l e v) = ut_count l"
  by (simp_all add: set_next_def set_prev_def)

lemma update_length_plus: "unat (ut_count l) < 2 ^ 64 - 1 \<Longrightarrow> unat (ut_count (update_length l 1)) = unat (ut_count l) + 1"
  by (simp add: update_length_def get_length_def unat_word_ariths)

lemma update_length_minus:
  assumes "ut_count l \<noteq> 0"
  shows "unat (ut_count (update_length l (- 1))) = unat (ut_count l) - 1"
proof -
  have "update_length l (- 1) = l\<lparr>ut_count := ut_count l - 1\<rparr>"
    by (simp add: update_length_def get_length_def)
  then show ?thesis using assms by (simp add: unat_minus_one)
qed

lemma push_back_rep:
  assumes "ut_rep l xs" "e \<notin> set xs" "length xs + 1 < 2 ^ 64"
  shows "ut_rep (push_back l e) (xs @ [e])"
  using assms
  by (cases xs rule: rev_cases)
    (auto simp: ut_rep_iff push_back_def Let_def ut_fields update_length_plus linked_def simp del: ut_ga.simps)

lemma push_front_rep:
  assumes "ut_rep l xs" "e \<notin> set xs" "length xs + 1 < 2 ^ 64"
  shows "ut_rep (push_front l e) (e # xs)"
  using assms
  by (cases xs)
    (auto simp: ut_rep_iff push_front_def Let_def ut_fields update_length_plus linked_def simp del: ut_ga.simps)

lemma ut_list_insert_rep:
  assumes "ut_rep l (xs @ e # ys)" "f \<notin> set (xs @ e # ys)" "length xs + length ys + 2 < 2 ^ 64"
  shows "ut_rep (ut_list_insert l e f) (xs @ e # f # ys)"
  using assms
  by (cases ys)
    (auto simp: ut_rep_iff ut_list_insert_def Let_def ut_fields update_length_plus linked_def simp del: ut_ga.simps)

lemma ut_remove_rep:
  assumes "ut_rep l (xs @ e # ys)"
  shows "\<exists>l'. ut_remove l e = Some l' \<and> ut_rep l' (xs @ ys)"
proof -
  have n: "ut_count l \<noteq> 0" using assms by (auto simp: ut_rep_iff)
  then have "\<not> ut_empty l" by (simp add: ut_empty_def get_length_def)
  with n assms show ?thesis
    by (cases xs rule: rev_cases; cases ys)
      (auto simp: ut_rep_iff ut_remove_def Let_def ut_fields update_length_minus linked_def simp del: ut_ga.simps)
qed

lemma ut_remove_unlinks: "ut_remove l e = Some l' \<Longrightarrow> ut_nodes l' e = (ut_nodes l e)\<lparr>m_prev := None, m_next := None\<rparr>"
  by (auto simp: ut_remove_def Let_def set_next_def set_prev_def update_length_def split: if_splits option.splits)

text \<open>
  C19. The in-memory list operations refine operations on sequences.  On every list, the empty one
  included, \<^verbatim>\<open>push_back\<close> and \<^verbatim>\<open>push_front\<close> append and prepend; behind every element
  \<^verbatim>\<open>ut_list_insert\<close> inserts; \<^verbatim>\<open>remove\<close> deletes every element and clears its links, and fails
  on the empty list.  All keep the links, both ends and the count consistent.
\<close>

theorem ut_list_refines:
  assumes "ut_rep l zs" "f \<notin> set zs" "length zs + 1 < 2 ^ 64"
  shows "ut_rep (push_back l f) (zs @ [f])
    \<and> ut_rep (push_front l f) (f # zs)
    \<and> (\<forall>xs e ys. zs = xs @ e # ys \<longrightarrow> ut_rep (ut_list_insert l e f) (xs @ e # f # ys)
         \<and> (\<exists>l'. ut_remove l e = Some l' \<and> ut_rep l' (xs @ ys)
               \<and> m_prev (ut_nodes l' e) = None \<and> m_next (ut_nodes l' e) = None))
    \<and> (zs = [] \<longrightarrow> ut_remove l f = None)"
proof -
  have "ut_rep (ut_list_insert l e f) (xs @ e # f # ys)" if "zs = xs @ e # ys" for xs e ys
    using ut_list_insert_rep [of l xs e ys f] assms that by simp
  moreover have "\<exists>l'. ut_remove l e = Some l' \<and> ut_rep l' (xs @ ys)
      \<and> m_prev (ut_nodes l' e) = None \<and> m_next (ut_nodes l' e) = None" if "zs = xs @ e # ys" for xs e ys
    using ut_remove_rep [of l xs e ys] ut_remove_unlinks [of l e] assms(1) that by auto
  moreover have "ut_remove l f = None" if "zs = []"
    using assms(1) that by (simp add: ut_rep_iff ut_remove_def ut_empty_def get_length_def unat_eq_0)
  ultimately show ?thesis using push_back_rep [OF assms] push_front_rep [OF assms] by blast
qed

lemma ut_iterate_next: "seg f p xs None \<Longrightarrow> ut_iterate (\<lambda>e. f (Next e)) (hd_or xs None) = Some xs"
proof (induction xs arbitrary: p)
  case Nil
  show ?case by (simp add: ut_iterate.simps)
next
  case (Cons x xs)
  then show ?case using Cons.IH [of "Some x"] by (subst ut_iterate.simps) simp
qed

lemma ut_iterate_prev: "seg f None xs q \<Longrightarrow> ut_iterate (\<lambda>e. f (Prev e)) (last_or None xs) = Some (rev xs)"
proof (induction xs arbitrary: q rule: rev_induct)
  case Nil
  show ?case by (simp add: ut_iterate.simps)
next
  case (snoc x xs)
  then show ?case using snoc.IH [of "Some x"] by (subst ut_iterate.simps) simp
qed

lemma ut_find_next: "seg f p xs None \<Longrightarrow> ut_find (\<lambda>e. f (Next e)) e (hd_or xs None) = Some (e \<in> set xs)"
proof (induction xs arbitrary: p)
  case Nil
  show ?case by (simp add: ut_find.simps)
next
  case (Cons x xs)
  then show ?case using Cons.IH [of "Some x"] by (subst ut_find.simps) simp
qed

text \<open>
  C20. Iterating over a list that the operations built ends and visits its elements in order;
  \<^verbatim>\<open>ut_list_validate\<close> finds both directions and the count consistent, and \<^verbatim>\<open>ut_list_exists\<close> decides
  membership.
\<close>

theorem ut_list_iteration:
  assumes "ut_rep l xs"
  shows "ut_list_map l = Some xs \<and> ut_list_validate l = Some xs \<and> ut_list_exists l e = Some (e \<in> set xs)"
proof -
  have l: "m_first_element l = hd_or xs None" "m_last_element l = last_or None xs" "seg (ut_ga () l) None xs None"
    and n: "unat (ut_count l) = length xs"
    using assms by (auto simp: ut_rep_iff linked_def)
  have c: "of_nat (length xs) = get_length l" by (simp add: n [symmetric] get_length_def)
  show ?thesis
    using ut_iterate_next [OF l(3)] ut_iterate_prev [OF l(3)] ut_find_next [OF l(3), of e] c
    by (simp add: ut_list_map_def ut_list_validate_def ut_list_exists_def l(1,2))
qed

lemma ut_init_rep: "ut_rep (ut_list_init nodes) []" "ut_rep (ut_clear l) []"
  by (simp_all add: ut_rep_iff linked_def ut_list_init_def ut_clear_def)

abbreviation (input) ut_new :: "nat ut_list_base" where
  "ut_new \<equiv> ut_list_init (\<lambda>_. \<lparr>m_prev = None, m_next = None\<rparr>)"

lemma ut_sample: "ut_rep (push_back (push_back ut_new 1) 2) [1, 2]"
  using push_back_rep [OF push_back_rep [OF ut_init_rep(1), of "1 :: nat"], of 2] by simp

theorem ut_list_refines_witness:
  "ut_rep (push_back ut_new 1) [1] \<and> ut_rep (push_front ut_new 1) [1]
   \<and> (\<exists>l'. ut_remove (push_back (push_back ut_new 1) 2) 1 = Some l' \<and> ut_rep l' [2])"
proof -
  have "ut_rep (push_back ut_new 1) [1] \<and> ut_rep (push_front ut_new 1) [1]"
    using ut_list_refines [OF ut_init_rep(1), of "1 :: nat"] by simp
  moreover have "\<exists>l'. ut_remove (push_back (push_back ut_new 1) 2) 1 = Some l' \<and> ut_rep l' ([] @ [2])"
    using ut_list_refines [OF ut_sample, of 3] by fastforce
  ultimately show ?thesis by simp
qed

theorem ut_list_iteration_witness:
  "ut_list_map (push_back (push_back ut_new 1) 2) = Some [1, 2]"
  using ut_list_iteration [OF ut_sample] by simp

end
