(* ===== verification/Read_View.thy ===== *)
theory Read_View
  imports Prelude
begin

text \<open>
  Model of \<^verbatim>\<open>read/read0read.cc\<close>, \<^verbatim>\<open>include/read0read.h\<close> and the parts of \<^verbatim>\<open>trx/trx0trx.cc\<close>,
  \<^verbatim>\<open>trx/trx0sys.cc\<close> and \<^verbatim>\<open>trx/trx0purge.cc\<close> they depend on: read views, the list of running
  transactions, the assignment of transaction ids and numbers, and the purge view.  Views and
  transaction objects are addressed by pointers (naturals) into heaps; the two-way lists of
  pointers are lists, as justified by the refinement of the in-memory list module.  Every
  critical section of the kernel mutex is one function, so a sequence of calls is an
  interleaving of the threads; where a section gives up the mutex in the middle, as the release
  of locks at commit does, it is two functions.
\<close>

section \<open>Data\<close>

type_synonym trx_id_t = uint64
type_synonym undo_no_t = uint64
type_synonym view_ptr = nat
type_synonym trx_ptr = nat

datatype Trx_status = TRX_NOT_STARTED | TRX_ACTIVE | TRX_COMMITTED_IN_MEMORY | TRX_PREPARED

datatype view_type = VIEW_NORMAL | VIEW_HIGH_GRANULARITY | VIEW_GARBAGE

record read_view_t =
  vtype :: view_type
  undo_no :: undo_no_t
  low_limit_no :: trx_id_t
  low_limit_id :: trx_id_t
  up_limit_id :: trx_id_t
  trx_ids :: "trx_id_t list"
  creator_trx_id :: trx_id_t

record Trx =
  m_id :: trx_id_t
  m_no :: trx_id_t
  m_conc_state :: Trx_status
  m_is_purge :: bool
  m_undo_no :: undo_no_t
  m_read_view :: "view_ptr option"
  m_global_read_view :: "view_ptr option"
  m_n_client_tables_in_use :: ulint

record cursor_view_t =
  cv_read_view :: view_ptr
  cv_n_client_tables_in_use :: ulint

record Trx_sys =
  m_max_trx_id :: trx_id_t
  m_trx_list :: "trx_ptr list"
  m_view_list :: "view_ptr list"
  trx_heap :: "trx_ptr \<Rightarrow> Trx"
  view_heap :: "view_ptr \<Rightarrow> read_view_t"
  trx_id_store :: trx_id_t
  purge_view :: "view_ptr option"

abbreviation (input) LSN_MAX :: uint64 where "LSN_MAX \<equiv> 0xFFFFFFFFFFFFFFFE"
abbreviation (input) TRX_SYS_TRX_ID_WRITE_MARGIN :: uint64 where "TRX_SYS_TRX_ID_WRITE_MARGIN \<equiv> 256"

definition set_trx :: "Trx_sys \<Rightarrow> trx_ptr \<Rightarrow> Trx \<Rightarrow> Trx_sys" where
  "set_trx s t x = s\<lparr>trx_heap := (trx_heap s)(t := x)\<rparr>"

definition set_view :: "Trx_sys \<Rightarrow> view_ptr \<Rightarrow> read_view_t \<Rightarrow> Trx_sys" where
  "set_view s v x = s\<lparr>view_heap := (view_heap s)(v := x)\<rparr>"

section \<open>Visibility\<close>

text \<open>
  The loop of \<^verbatim>\<open>read_view_sees_trx_id\<close> over the array from its end.  The difference of two
  64-bit ids is assigned to an \<^verbatim>\<open>int\<close>: it keeps the low 32 bits, read as a signed number.
\<close>

fun sees_loop :: "trx_id_t \<Rightarrow> trx_id_t list \<Rightarrow> bool" where
  "sees_loop trx_id [] = True"
| "sees_loop trx_id (x # xs) =
     (let cmp = sint (ucast (trx_id - x) :: 32 word)
      in if cmp \<le> 0 then cmp < 0 else sees_loop trx_id xs)"

definition read_view_sees_trx_id :: "read_view_t \<Rightarrow> trx_id_t \<Rightarrow> bool" where
  "read_view_sees_trx_id view trx_id =
     (if trx_id < up_limit_id view then True
      else if trx_id \<ge> low_limit_id view then False
      else sees_loop trx_id (rev (trx_ids view)))"

section \<open>Opening and closing views\<close>

definition is_running :: "Trx \<Rightarrow> bool" where
  "is_running trx \<longleftrightarrow> m_conc_state trx = TRX_ACTIVE \<or> m_conc_state trx = TRX_PREPARED"

text \<open>The loop over the transaction list that fills the array and lowers \<^verbatim>\<open>low_limit_no\<close>.\<close>

fun collect_trx_ids :: "(Trx \<Rightarrow> bool) \<Rightarrow> Trx list \<Rightarrow> trx_id_t list \<Rightarrow> trx_id_t \<Rightarrow> trx_id_t list \<times> trx_id_t" where
  "collect_trx_ids sel [] ids no = (ids, no)"
| "collect_trx_ids sel (trx # ts) ids no =
     (if sel trx then collect_trx_ids sel ts (ids @ [m_id trx]) (if no > m_no trx then m_no trx else no)
      else collect_trx_ids sel ts ids no)"

definition read_view_open_now :: "view_ptr \<Rightarrow> trx_id_t \<Rightarrow> Trx_sys \<Rightarrow> Trx_sys" where
  "read_view_open_now v cr_trx_id s =
     (let (ids, no) = collect_trx_ids (\<lambda>trx. m_id trx \<noteq> cr_trx_id \<and> is_running trx)
                        (map (trx_heap s) (m_trx_list s)) [] (m_max_trx_id s);
          view = \<lparr>vtype = VIEW_NORMAL, undo_no = 0, low_limit_no = no, low_limit_id = m_max_trx_id s,
                  up_limit_id = (if ids \<noteq> [] then last ids else m_max_trx_id s),
                  trx_ids = ids, creator_trx_id = cr_trx_id\<rparr>
      in (set_view s v view)\<lparr>m_view_list := v # m_view_list s\<rparr>)"

text \<open>
  The loop that copies the array of the oldest view and inserts the id of its creator; \<open>k\<close> is
  the number of cells still to fill, \<open>i\<close> the index of the next one.
\<close>

fun copy_trx_ids :: "trx_id_t list \<Rightarrow> trx_id_t \<Rightarrow> nat \<Rightarrow> nat \<Rightarrow> bool \<Rightarrow> nat \<Rightarrow> trx_id_t list" where
  "copy_trx_ids old creator 0 i needs_insert insert_done = []"
| "copy_trx_ids old creator (Suc k) i needs_insert insert_done =
     (if needs_insert \<and> (i \<ge> length old \<or> creator > old ! i)
      then creator # copy_trx_ids old creator k (i + 1) False 1
      else old ! (i - insert_done) # copy_trx_ids old creator k (i + 1) needs_insert insert_done)"

text \<open>The fields \<^verbatim>\<open>type\<close> and \<^verbatim>\<open>undo_no\<close> of the copy are never assigned.\<close>

definition read_view_oldest_copy_or_open_new :: "view_ptr \<Rightarrow> trx_id_t \<Rightarrow> undo_no_t \<Rightarrow> Trx_sys \<Rightarrow> Trx_sys" where
  "read_view_oldest_copy_or_open_new v cr_trx_id garbage s =
     (if m_view_list s = [] then read_view_open_now v cr_trx_id s
      else
        let old_view = view_heap s (last (m_view_list s));
            needs_insert = (creator_trx_id old_view > 0);
            n = length (trx_ids old_view) + (if needs_insert then 1 else 0);
            ids = copy_trx_ids (trx_ids old_view) (creator_trx_id old_view) n 0 needs_insert 0;
            view = \<lparr>vtype = VIEW_GARBAGE, undo_no = garbage, low_limit_no = low_limit_no old_view,
                    low_limit_id = low_limit_id old_view,
                    up_limit_id = (if n > 0 then last ids else up_limit_id old_view),
                    trx_ids = ids, creator_trx_id = cr_trx_id\<rparr>
        in (set_view s v view)\<lparr>m_view_list := m_view_list s @ [v]\<rparr>)"

definition read_view_close :: "view_ptr \<Rightarrow> Trx_sys \<Rightarrow> Trx_sys" where
  "read_view_close v s = s\<lparr>m_view_list := remove1 v (m_view_list s)\<rparr>"

definition read_view_close_for_read_committed :: "trx_ptr \<Rightarrow> Trx_sys \<Rightarrow> Trx_sys option" where
  "read_view_close_for_read_committed t s =
     (case m_global_read_view (trx_heap s t) of
        None \<Rightarrow> None
      | Some v \<Rightarrow>
          let s = read_view_close v s
          in Some (set_trx s t ((trx_heap s t)\<lparr>m_read_view := None, m_global_read_view := None\<rparr>)))"

definition read_cursor_view_create :: "view_ptr \<Rightarrow> trx_ptr \<Rightarrow> Trx_sys \<Rightarrow> cursor_view_t \<times> Trx_sys" where
  "read_cursor_view_create v t s =
     (let cr_trx = trx_heap s t;
          curview = \<lparr>cv_read_view = v, cv_n_client_tables_in_use = m_n_client_tables_in_use cr_trx\<rparr>;
          s = set_trx s t (cr_trx\<lparr>m_n_client_tables_in_use := 0\<rparr>);
          (ids, no) = collect_trx_ids is_running (map (trx_heap s) (m_trx_list s)) [] (m_max_trx_id s);
          view = \<lparr>vtype = VIEW_HIGH_GRANULARITY, undo_no = m_undo_no cr_trx, low_limit_no = no,
                  low_limit_id = m_max_trx_id s,
                  up_limit_id = (if ids \<noteq> [] then last ids else m_max_trx_id s),
                  trx_ids = ids, creator_trx_id = m_id cr_trx\<rparr>
      in (curview, (set_view s v view)\<lparr>m_view_list := v # m_view_list s\<rparr>))"

definition read_cursor_view_close :: "trx_ptr \<Rightarrow> cursor_view_t \<Rightarrow> Trx_sys \<Rightarrow> Trx_sys" where
  "read_cursor_view_close t curview s =
     (let s = read_view_close (cv_read_view curview) s
      in set_trx s t ((trx_heap s t)\<lparr>
           m_n_client_tables_in_use := m_n_client_tables_in_use (trx_heap s t) + cv_n_client_tables_in_use curview,
           m_read_view := m_global_read_view (trx_heap s t)\<rparr>))"

definition read_cursor_set :: "trx_ptr \<Rightarrow> cursor_view_t option \<Rightarrow> Trx_sys \<Rightarrow> Trx_sys" where
  "read_cursor_set t curview s =
     set_trx s t ((trx_heap s t)\<lparr>m_read_view :=
       (case curview of Some c \<Rightarrow> Some (cv_read_view c) | None \<Rightarrow> m_global_read_view (trx_heap s t))\<rparr>)"

section \<open>Transaction ids and the transaction list\<close>

definition ut_uint64_align_up :: "uint64 \<Rightarrow> ulint \<Rightarrow> uint64" where
  "ut_uint64_align_up n align_no = (let align_1 = align_no - 1 in (n + align_1) AND NOT align_1)"

text \<open>
  The field of the transaction system page that holds the counter is written through the log; here
  the write counts as durable at once, so a crash before the log reaches the disk is not covered.
\<close>

definition flush_max_trx_id :: "Trx_sys \<Rightarrow> Trx_sys" where
  "flush_max_trx_id s = s\<lparr>trx_id_store := m_max_trx_id s\<rparr>"

definition get_new_trx_id :: "Trx_sys \<Rightarrow> trx_id_t \<times> Trx_sys" where
  "get_new_trx_id s =
     (let s = (if m_max_trx_id s mod TRX_SYS_TRX_ID_WRITE_MARGIN = 0 then flush_max_trx_id s else s)
      in (m_max_trx_id s, s\<lparr>m_max_trx_id := m_max_trx_id s + 1\<rparr>))"

text \<open>The counter after a restart, from what the file holds.\<close>

definition start_max_trx_id :: "trx_id_t \<Rightarrow> trx_id_t" where
  "start_max_trx_id store =
     ut_uint64_align_up store TRX_SYS_TRX_ID_WRITE_MARGIN + 2 * TRX_SYS_TRX_ID_WRITE_MARGIN"

definition get_on_id :: "Trx_sys \<Rightarrow> trx_id_t \<Rightarrow> trx_ptr option" where
  "get_on_id s trx_id = find (\<lambda>t. trx_id = m_id (trx_heap s t)) (m_trx_list s)"

definition get_min_trx_id :: "Trx_sys \<Rightarrow> trx_id_t" where
  "get_min_trx_id s = (if m_trx_list s = [] then m_max_trx_id s else m_id (trx_heap s (last (m_trx_list s))))"

definition is_active :: "Trx_sys \<Rightarrow> trx_id_t \<Rightarrow> bool" where
  "is_active s trx_id =
     (if trx_id < get_min_trx_id s then False
      else if trx_id \<ge> m_max_trx_id s then True
      else (case get_on_id s trx_id of None \<Rightarrow> False | Some t \<Rightarrow> is_running (trx_heap s t)))"

text \<open>\<^verbatim>\<open>trx_list_insert_ordered\<close> on the list of ids.\<close>

fun split_at_le :: "trx_id_t \<Rightarrow> trx_id_t list \<Rightarrow> trx_id_t list \<times> trx_id_t list" where
  "split_at_le x [] = ([], [])"
| "split_at_le x (y # ys) = (if x \<ge> y then ([], y # ys) else let (a, b) = split_at_le x ys in (y # a, b))"

definition trx_list_insert_ordered :: "trx_id_t \<Rightarrow> trx_id_t list \<Rightarrow> trx_id_t list" where
  "trx_list_insert_ordered x ys =
     (case split_at_le x ys of
        (before, prev_trx # rest) \<Rightarrow> if before = [] then x # ys else before @ prev_trx # x # rest
      | (before, []) \<Rightarrow> ys @ [x])"

section \<open>Steps of transactions\<close>

text \<open>
  \<^verbatim>\<open>start_low\<close> without the choice of a rollback segment.  The transaction of the purge thread gets
  no id and does not enter the list.
\<close>

definition start_low :: "trx_ptr \<Rightarrow> Trx_sys \<Rightarrow> Trx_sys" where
  "start_low t s =
     (if m_is_purge (trx_heap s t) then set_trx s t ((trx_heap s t)\<lparr>m_id := 0, m_conc_state := TRX_ACTIVE\<rparr>)
      else
        let (id, s) = get_new_trx_id s;
            s = set_trx s t ((trx_heap s t)\<lparr>m_id := id, m_no := LSN_MAX, m_conc_state := TRX_ACTIVE\<rparr>)
        in s\<lparr>m_trx_list := t # m_trx_list s\<rparr>)"

text \<open>The change that \<^verbatim>\<open>prepare_for_commit\<close> makes under the mutex.\<close>

definition prepare_for_commit :: "trx_ptr \<Rightarrow> Trx_sys \<Rightarrow> Trx_sys" where
  "prepare_for_commit t s = set_trx s t ((trx_heap s t)\<lparr>m_conc_state := TRX_PREPARED\<rparr>)"

definition assign_read_view :: "view_ptr \<Rightarrow> trx_ptr \<Rightarrow> Trx_sys \<Rightarrow> Trx_sys" where
  "assign_read_view v t s =
     (if m_read_view (trx_heap s t) \<noteq> None then s
      else
        let s = read_view_open_now v (m_id (trx_heap s t)) s
        in set_trx s t ((trx_heap s t)\<lparr>m_read_view := Some v, m_global_read_view := Some v\<rparr>))"

text \<open>
  The critical sections of \<^verbatim>\<open>commit_off_kernel\<close>: the transaction number (taken when there is an
  update undo log), the commit in memory, the closing of the read view after the locks have been
  released (\<^verbatim>\<open>release_off_kernel\<close> gives up the mutex from time to time), and the removal from the
  list.  \<^verbatim>\<open>cleanup_at_db_startup\<close> removes a recovered transaction that was already committed.
\<close>

definition commit_get_no :: "trx_ptr \<Rightarrow> Trx_sys \<Rightarrow> Trx_sys" where
  "commit_get_no t s =
     (let (no, s) = get_new_trx_id s in set_trx s t ((trx_heap s t)\<lparr>m_no := no\<rparr>))"

definition commit_in_memory :: "trx_ptr \<Rightarrow> Trx_sys \<Rightarrow> Trx_sys" where
  "commit_in_memory t s = set_trx s t ((trx_heap s t)\<lparr>m_conc_state := TRX_COMMITTED_IN_MEMORY\<rparr>)"

definition commit_close_view :: "trx_ptr \<Rightarrow> Trx_sys \<Rightarrow> Trx_sys" where
  "commit_close_view t s =
     (let s = (case m_global_read_view (trx_heap s t) of
                 Some v \<Rightarrow> set_trx (read_view_close v s) t ((trx_heap s t)\<lparr>m_global_read_view := None\<rparr>)
               | None \<Rightarrow> s)
      in set_trx s t ((trx_heap s t)\<lparr>m_read_view := None\<rparr>))"

definition commit_finish :: "trx_ptr \<Rightarrow> Trx_sys \<Rightarrow> Trx_sys" where
  "commit_finish t s =
     (let s = set_trx s t ((trx_heap s t)\<lparr>m_undo_no := 0, m_conc_state := TRX_NOT_STARTED\<rparr>)
      in s\<lparr>m_trx_list := remove1 t (m_trx_list s)\<rparr>)"

definition cleanup_at_db_startup :: "trx_ptr \<Rightarrow> Trx_sys \<Rightarrow> Trx_sys" where
  "cleanup_at_db_startup t s =
     (let s = set_trx s t ((trx_heap s t)\<lparr>m_undo_no := 0, m_conc_state := TRX_NOT_STARTED\<rparr>)
      in s\<lparr>m_trx_list := remove1 t (m_trx_list s)\<rparr>)"

text \<open>
  The part of \<^verbatim>\<open>Purge_sys::run\<close> that renews the purge view, and what purge may remove.  The heap
  of the old view is emptied before the new one is allocated, so the new view may take its address.
  The delay of data manipulation statements computed in between is not part of the state.
\<close>

definition purge_close_view :: "Trx_sys \<Rightarrow> Trx_sys" where
  "purge_close_view s = (case purge_view s of None \<Rightarrow> s | Some p \<Rightarrow> read_view_close p s)\<lparr>purge_view := None\<rparr>"

definition purge_renew_view :: "view_ptr \<Rightarrow> undo_no_t \<Rightarrow> Trx_sys \<Rightarrow> Trx_sys" where
  "purge_renew_view v garbage s =
     (let s = purge_close_view s;
          s = read_view_oldest_copy_or_open_new v 0 garbage s
      in s\<lparr>purge_view := Some v\<rparr>)"

definition update_undo_must_exist :: "Trx_sys \<Rightarrow> trx_id_t \<Rightarrow> bool option" where
  "update_undo_must_exist s trx_id =
     (case purge_view s of None \<Rightarrow> None | Some p \<Rightarrow> Some (\<not> read_view_sees_trx_id (view_heap s p) trx_id))"


section \<open>Visibility of well-formed views\<close>

definition view_wf :: "read_view_t \<Rightarrow> bool" where
  "view_wf v \<longleftrightarrow> sorted_wrt (\<ge>) (trx_ids v) \<and> (\<forall>x \<in> set (trx_ids v). x < low_limit_id v)
     \<and> up_limit_id v = (if trx_ids v \<noteq> [] then last (trx_ids v) else low_limit_id v)"

text \<open>The ids a view has to tell apart are less than \<open>2 ^ 31\<close> apart.\<close>

definition view_narrow :: "read_view_t \<Rightarrow> bool" where
  "view_narrow v \<longleftrightarrow> unat (low_limit_id v) - unat (up_limit_id v) \<le> 2 ^ 31"

text \<open>Exactly these ids should be visible.\<close>

definition visible :: "read_view_t \<Rightarrow> trx_id_t \<Rightarrow> bool" where
  "visible v t \<longleftrightarrow> t < low_limit_id v \<and> t \<notin> set (trx_ids v)"

lemma int_difference:
  fixes t x :: trx_id_t
  assumes "uint t - uint x < 2 ^ 31" "- (2 ^ 31) \<le> uint t - uint x"
  shows "sint (ucast (t - x) :: 32 word) = uint t - uint x"
proof -
  have "sint (ucast (t - x) :: 32 word) = signed_take_bit 31 (uint (t - x))"
    by (simp add: signed_ucast_eq)
  also have "uint (t - x) = take_bit 64 (uint t - uint x)" by (simp add: uint_word_ariths take_bit_eq_mod)
  also have "signed_take_bit 31 \<dots> = signed_take_bit 31 (uint t - uint x)"
    by (simp add: signed_take_bit_take_bit)
  also have "\<dots> = uint t - uint x" using assms by (intro signed_take_bit_int_eq_self) auto
  finally show ?thesis .
qed

lemma sees_loop_correct:
  assumes "sorted_wrt (\<le>) xs"
    and "\<And>x. x \<in> set xs \<Longrightarrow> uint t - uint x < 2 ^ 31 \<and> - (2 ^ 31) \<le> uint t - uint x"
  shows "sees_loop t xs \<longleftrightarrow> t \<notin> set xs"
  using assms
proof (induction xs)
  case Nil
  show ?case by simp
next
  case (Cons x xs)
  note d = int_difference [of t x] Cons.prems(2) [of x]
  show ?case
  proof (cases "t < x")
    case True
    then have "t \<notin> set (x # xs)" using Cons.prems(1) by auto
    then show ?thesis using True d by (simp add: word_less_alt)
  next
    case False
    then show ?thesis
      using d Cons.IH Cons.prems by (auto simp: word_less_alt word_uint_eq_iff)
  qed
qed

lemma nat_gap: "a < b + 2 ^ 31 \<Longrightarrow> int a - int b < 2 ^ 31" "b \<le> a + 2 ^ 31 \<Longrightarrow> - (2 ^ 31) \<le> int a - int b"
  by simp_all

lemma descending_last: "sorted_wrt (\<ge>) xs \<Longrightarrow> x \<in> set xs \<Longrightarrow> last xs \<le> (x :: trx_id_t)"
  by (induction xs rule: rev_induct) (auto simp: sorted_wrt_append)

lemma up_limit_least: "view_wf v \<Longrightarrow> x \<in> set (trx_ids v) \<Longrightarrow> up_limit_id v \<le> x"
  using descending_last by (auto simp: view_wf_def)

lemma view_sees_iff:
  assumes wf: "view_wf v" and narrow: "view_narrow v"
  shows "read_view_sees_trx_id v t \<longleftrightarrow> visible v t"
proof (cases "t < up_limit_id v")
  case True
  have "up_limit_id v \<le> low_limit_id v" using wf by (auto simp: view_wf_def intro: less_imp_le)
  with True up_limit_least [OF wf] show ?thesis by (force simp: read_view_sees_trx_id_def visible_def)
next
  case False
  show ?thesis
  proof (cases "t < low_limit_id v")
    case True
    have sorted: "sorted_wrt (\<le>) (rev (trx_ids v))" using wf by (simp add: view_wf_def sorted_wrt_rev)
    have "sees_loop t (rev (trx_ids v)) \<longleftrightarrow> t \<notin> set (rev (trx_ids v))"
      using sorted
    proof (rule sees_loop_correct)
      fix x assume "x \<in> set (rev (trx_ids v))"
      then have x: "x < low_limit_id v" "up_limit_id v \<le> x"
        using wf up_limit_least [OF wf] by (auto simp: view_wf_def)
      then have "unat x < unat (low_limit_id v)" "unat (up_limit_id v) \<le> unat x"
        "unat t < unat (low_limit_id v)" "unat (up_limit_id v) \<le> unat t"
        using False True by (simp_all add: word_less_nat_alt word_le_nat_alt)
      then have "unat t < unat x + 2 ^ 31" "unat x \<le> unat t + 2 ^ 31"
        using narrow unfolding view_narrow_def by linarith+
      then have "uint t - uint x < 2 ^ 31" "- (2 ^ 31) \<le> uint t - uint x"
        unfolding uint_nat by (blast intro: nat_gap)+
      then show "uint t - uint x < 2 ^ 31 \<and> - (2 ^ 31) \<le> uint t - uint x" ..
    qed
    then show ?thesis using True False by (auto simp: read_view_sees_trx_id_def visible_def)
  next
    case g: False
    then have "low_limit_id v \<le> t" by simp
    then show ?thesis using False g by (auto simp: read_view_sees_trx_id_def visible_def)
  qed
qed


section \<open>The loops over transactions and ids\<close>

lemma collect_trx_ids_eq:
  "collect_trx_ids sel ts ids no =
     (ids @ map m_id (filter sel ts), foldl (\<lambda>a t. if a > m_no t then m_no t else a) no (filter sel ts))"
  by (induction sel ts ids no rule: collect_trx_ids.induct) auto

lemma foldl_min_bounds:
  fixes no :: trx_id_t
  defines "f \<equiv> foldl (\<lambda>a t. if a > m_no t then m_no t else a)"
  shows "f no ts \<le> no" "t \<in> set ts \<Longrightarrow> f no ts \<le> m_no t"
    "k \<le> no \<Longrightarrow> (\<And>t. t \<in> set ts \<Longrightarrow> k \<le> m_no t) \<Longrightarrow> k \<le> f no ts"
proof -
  have 1: "f no ts \<le> no" for no ts
    unfolding f_def by (induction ts arbitrary: no) (auto intro: order_trans less_imp_le)
  then show "f no ts \<le> no" .
  show "t \<in> set ts \<Longrightarrow> f no ts \<le> m_no t"
  proof (induction ts arbitrary: no)
    case (Cons a ts)
    have "f (if no > m_no a then m_no a else no) ts \<le> m_no a"
      by (rule order_trans [OF 1]) auto
    with Cons show ?case unfolding f_def by (auto split: if_splits)
  qed simp
  show "k \<le> no \<Longrightarrow> (\<And>t. t \<in> set ts \<Longrightarrow> k \<le> m_no t) \<Longrightarrow> k \<le> f no ts"
    unfolding f_def by (induction ts arbitrary: no) auto
qed

text \<open>The copy of the oldest array: the creator goes in front of the first smaller id.\<close>

lemma copy_rest: "k + i \<le> length old \<Longrightarrow> copy_trx_ids old c k (Suc i) False 1 = take k (drop i old)"
  by (induction k arbitrary: i) (auto simp: Cons_nth_drop_Suc [symmetric])

lemma copy_plain: "k + i \<le> length old \<Longrightarrow> copy_trx_ids old c k i False 0 = take k (drop i old)"
  by (induction k arbitrary: i) (auto simp: Cons_nth_drop_Suc [symmetric])

lemma copy_insert:
  "i \<le> length old \<Longrightarrow> copy_trx_ids old c (Suc (length old - i)) i True 0 =
     takeWhile (\<lambda>x. \<not> c > x) (drop i old) @ c # dropWhile (\<lambda>x. \<not> c > x) (drop i old)"
proof (induction "length old - i" arbitrary: i)
  case 0
  then show ?case by simp
next
  case (Suc d)
  then have lt: "i < length old" by simp
  have d: "drop i old = old ! i # drop (Suc i) old" using lt by (simp add: Cons_nth_drop_Suc)
  have len: "length old - i = Suc (length old - Suc i)" using lt by simp
  show ?case
  proof (cases "c > old ! i")
    case True
    have "copy_trx_ids old c (length old - i) (Suc i) False 1 = drop i old"
      using copy_rest [of "length old - i" i old c] lt by simp
    with True show ?thesis by (simp add: d)
  next
    case False
    have "copy_trx_ids old c (Suc (length old - Suc i)) (Suc i) True 0 =
        takeWhile (\<lambda>x. \<not> c > x) (drop (Suc i) old) @ c # dropWhile (\<lambda>x. \<not> c > x) (drop (Suc i) old)"
      using Suc(1) [of "Suc i"] Suc(2) lt by simp
    with False lt show ?thesis
      by (subst copy_trx_ids.simps(2)) (simp add: d len del: copy_trx_ids.simps(2))
  qed
qed

definition insert_desc :: "trx_id_t \<Rightarrow> trx_id_t list \<Rightarrow> trx_id_t list" where
  "insert_desc c xs = takeWhile (\<lambda>x. \<not> c > x) xs @ c # dropWhile (\<lambda>x. \<not> c > x) xs"

lemma set_insert_desc [simp]: "set (insert_desc c xs) = insert c (set xs)"
proof -
  have "set (takeWhile P xs) \<union> set (dropWhile P xs) = set xs" for P :: "trx_id_t \<Rightarrow> bool"
    using arg_cong [OF takeWhile_dropWhile_id [of P xs], of set] by (simp del: takeWhile_dropWhile_id)
  then show ?thesis by (auto simp: insert_desc_def)
qed

lemma insert_desc_sorted: "sorted_wrt (\<ge>) xs \<Longrightarrow> sorted_wrt (\<ge>) (insert_desc c xs)"
proof (induction xs)
  case Nil
  show ?case by (simp add: insert_desc_def)
next
  case (Cons x xs)
  have "sorted_wrt (\<ge>) (insert_desc c xs)" using Cons by simp
  moreover have "set (insert_desc c xs) = insert c (set xs)" by (rule set_insert_desc)
  ultimately show ?case
    using Cons.prems by (auto simp: insert_desc_def)
qed

lemma oldest_copy_ids:
  assumes "old = trx_ids v" "c = creator_trx_id v"
  shows "copy_trx_ids old c (length old + (if c > 0 then 1 else 0)) 0 (c > 0) 0 =
    (if c > 0 then insert_desc c old else old)"
  using copy_insert [of 0 old c] copy_plain [of "length old" 0 old c] by (auto simp: insert_desc_def)


section \<open>The system as a state machine\<close>

text \<open>
  One rule per critical section.  The pointer of a new view is not in use; a transaction opens views
  only before it starts to commit; a cursor view is closed by the client that holds it.  A step
  is labelled with the number of ids it draws from the counter.
\<close>

definition fresh_view :: "view_ptr \<Rightarrow> Trx_sys \<Rightarrow> bool" where
  "fresh_view v s \<longleftrightarrow> v \<notin> set (m_view_list s) \<and> (\<forall>t. m_global_read_view (trx_heap s t) \<noteq> Some v)"

definition in_list_running :: "trx_ptr \<Rightarrow> Trx_sys \<Rightarrow> bool" where
  "in_list_running t s \<longleftrightarrow> t \<in> set (m_trx_list s) \<and> is_running (trx_heap s t)"

definition before_commit :: "trx_ptr \<Rightarrow> Trx_sys \<Rightarrow> bool" where
  "before_commit t s \<longleftrightarrow> in_list_running t s \<and> m_no (trx_heap s t) = LSN_MAX"

inductive trx_step :: "Trx_sys \<Rightarrow> nat \<Rightarrow> Trx_sys \<Rightarrow> bool" where
  start: "t \<notin> set (m_trx_list s) \<Longrightarrow> \<not> m_is_purge (trx_heap s t) \<Longrightarrow> trx_step s 1 (start_low t s)"
| start_purge: "t \<notin> set (m_trx_list s) \<Longrightarrow> m_is_purge (trx_heap s t) \<Longrightarrow> trx_step s 0 (start_low t s)"
| read_view: "before_commit t s \<Longrightarrow> fresh_view v s \<Longrightarrow> trx_step s 0 (assign_read_view v t s)"
| cursor_create: "before_commit t s \<Longrightarrow> fresh_view v s \<Longrightarrow> trx_step s 0 (snd (read_cursor_view_create v t s))"
| cursor_close: "cv_read_view c \<in> set (m_view_list s) \<Longrightarrow> purge_view s \<noteq> Some (cv_read_view c)
    \<Longrightarrow> trx_step s 0 (read_cursor_view_close t c s)"
| cursor_set: "trx_step s 0 (read_cursor_set t c s)"
| read_committed: "read_view_close_for_read_committed t s = Some s' \<Longrightarrow> trx_step s 0 s'"
| prepare: "t \<in> set (m_trx_list s) \<Longrightarrow> m_conc_state (trx_heap s t) = TRX_ACTIVE \<Longrightarrow> trx_step s 0 (prepare_for_commit t s)"
| commit1: "in_list_running t s \<Longrightarrow> trx_step s 1 (commit_get_no t s)"
| commit2: "in_list_running t s \<Longrightarrow> trx_step s 0 (commit_in_memory t s)"
| commit3: "m_conc_state (trx_heap s t) = TRX_COMMITTED_IN_MEMORY \<Longrightarrow> trx_step s 0 (commit_close_view t s)"
| commit4: "m_conc_state (trx_heap s t) = TRX_COMMITTED_IN_MEMORY \<Longrightarrow> m_global_read_view (trx_heap s t) = None
    \<Longrightarrow> trx_step s 0 (commit_finish t s)"
| cleanup: "m_conc_state (trx_heap s t) = TRX_COMMITTED_IN_MEMORY \<Longrightarrow> m_global_read_view (trx_heap s t) = None
    \<Longrightarrow> trx_step s 0 (cleanup_at_db_startup t s)"
| purge: "fresh_view v (purge_close_view s) \<Longrightarrow> trx_step s 0 (purge_renew_view v g s)"

text \<open>
  After start-up there is no view; the transaction list holds the recovered transactions, running,
  prepared or committed, in descending order of their ids.  (The insertion during recovery does
  not keep that order in every case, see below.)
\<close>

definition trx_sys_init :: "Trx_sys \<Rightarrow> bool" where
  "trx_sys_init s \<longleftrightarrow> sorted_wrt (\<lambda>a b. m_id (trx_heap s a) > m_id (trx_heap s b)) (m_trx_list s)
     \<and> (\<forall>t \<in> set (m_trx_list s). 0 < m_id (trx_heap s t) \<and> m_id (trx_heap s t) < m_max_trx_id s)
     \<and> m_view_list s = [] \<and> purge_view s = None
     \<and> (\<forall>t. m_global_read_view (trx_heap s t) = None) \<and> 0 < m_max_trx_id s"

text \<open>
  \<open>trx_run n s\<close>: a run has led to state \<open>s\<close>, and \<open>n\<close> is the value that the id counter would have
  if it were unbounded.
\<close>

inductive trx_run :: "nat \<Rightarrow> Trx_sys \<Rightarrow> bool" where
  init: "trx_sys_init s \<Longrightarrow> trx_run (unat (m_max_trx_id s)) s"
| step: "trx_run n s \<Longrightarrow> trx_step s k s' \<Longrightarrow> trx_run (n + k) s'"

section \<open>The invariant\<close>

text \<open>The transaction list is in descending order of the ids, all of them assigned.\<close>

definition trx_list_inv :: "Trx_sys \<Rightarrow> bool" where
  "trx_list_inv s \<longleftrightarrow> sorted_wrt (\<lambda>a b. m_id (trx_heap s a) > m_id (trx_heap s b)) (m_trx_list s)
     \<and> (\<forall>t \<in> set (m_trx_list s). 0 < m_id (trx_heap s t) \<and> m_id (trx_heap s t) < m_max_trx_id s)
     \<and> 0 < m_max_trx_id s \<and> m_max_trx_id s \<le> LSN_MAX"

text \<open>
  What an open view knows: a running transaction is in its array, started after it, or is its
  creator; no running transaction has a number below \<^verbatim>\<open>low_limit_no\<close>.
\<close>

definition view_inv :: "Trx_sys \<Rightarrow> read_view_t \<Rightarrow> bool" where
  "view_inv s w \<longleftrightarrow> view_wf w \<and> creator_trx_id w < low_limit_id w \<and> low_limit_id w \<le> m_max_trx_id s \<and> low_limit_no w \<le> m_max_trx_id s
     \<and> (\<forall>t \<in> set (m_trx_list s). is_running (trx_heap s t) \<longrightarrow>
          (m_id (trx_heap s t) \<in> set (trx_ids w) \<or> low_limit_id w \<le> m_id (trx_heap s t)
             \<or> m_id (trx_heap s t) = creator_trx_id w)
          \<and> low_limit_no w \<le> m_no (trx_heap s t))"

text \<open>A newer view sees whatever an older one sees, apart from the creator of the older one.\<close>

definition newer_than :: "read_view_t \<Rightarrow> read_view_t \<Rightarrow> bool" where
  "newer_than w old \<longleftrightarrow> low_limit_no old \<le> low_limit_no w
     \<and> (\<forall>t. visible old t \<and> (creator_trx_id old = 0 \<or> t \<noteq> creator_trx_id old) \<longrightarrow> visible w t)"

definition view_list_inv :: "Trx_sys \<Rightarrow> bool" where
  "view_list_inv s \<longleftrightarrow> distinct (m_view_list s)
     \<and> (\<forall>v \<in> set (m_view_list s). view_inv s (view_heap s v))
     \<and> sorted_wrt (\<lambda>v u. newer_than (view_heap s v) (view_heap s u)) (m_view_list s)"

definition purge_inv :: "Trx_sys \<Rightarrow> bool" where
  "purge_inv s \<longleftrightarrow> (\<forall>p. purge_view s = Some p \<longrightarrow> m_view_list s \<noteq> [] \<and> last (m_view_list s) = p
       \<and> creator_trx_id (view_heap s p) = 0 \<and> (\<forall>t. m_global_read_view (trx_heap s t) \<noteq> Some p))"

definition sys_inv :: "Trx_sys \<Rightarrow> bool" where
  "sys_inv s \<longleftrightarrow> trx_list_inv s \<and> view_list_inv s \<and> purge_inv s"

lemma sys_invI: "trx_list_inv s \<Longrightarrow> view_list_inv s \<Longrightarrow> purge_inv s \<Longrightarrow> sys_inv s"
  by (simp add: sys_inv_def)

text \<open>
  The invariant looks at transaction objects only through their ids, numbers and running state
  (\<open>same_trxs\<close>), and at views only through those in the list.
\<close>

definition same_trxs :: "Trx_sys \<Rightarrow> Trx_sys \<Rightarrow> bool" where
  "same_trxs s s' \<longleftrightarrow> m_trx_list s' = m_trx_list s \<and> m_max_trx_id s' = m_max_trx_id s
     \<and> (\<forall>t \<in> set (m_trx_list s). m_id (trx_heap s' t) = m_id (trx_heap s t) \<and> m_no (trx_heap s' t) = m_no (trx_heap s t)
          \<and> (is_running (trx_heap s' t) \<longrightarrow> is_running (trx_heap s t)))"

lemma trx_list_inv_same: "same_trxs s s' \<Longrightarrow> trx_list_inv s \<Longrightarrow> trx_list_inv s'"
  by (auto simp: same_trxs_def trx_list_inv_def
      intro: sorted_wrt_mono_rel [of _ "\<lambda>a b. m_id (trx_heap s a) > m_id (trx_heap s b)"])

lemma view_inv_same: "same_trxs s s' \<Longrightarrow> view_inv s w \<Longrightarrow> view_inv s' w"
  by (auto simp: same_trxs_def view_inv_def)

lemma view_list_inv_remove:
  assumes "view_list_inv s" "\<And>w. view_inv s w \<Longrightarrow> view_inv s' w"
    and "m_view_list s' = remove1 v (m_view_list s)" "view_heap s' = view_heap s"
  shows "view_list_inv s'"
proof -
  have "sorted_wrt R xs \<Longrightarrow> sorted_wrt R (remove1 v xs)" for R and xs :: "view_ptr list"
    by (induction xs) (auto dest: notin_set_remove1)
  then show ?thesis using assms set_remove1_subset [of v "m_view_list s"]
    by (auto simp: view_list_inv_def)
qed

lemma view_list_inv_keep:
  assumes "view_list_inv s" "\<And>w. view_inv s w \<Longrightarrow> view_inv s' w"
    and "m_view_list s' = m_view_list s" "view_heap s' = view_heap s"
  shows "view_list_inv s'"
  using assms by (auto simp: view_list_inv_def)

lemma last_remove1: "xs \<noteq> [] \<Longrightarrow> v \<noteq> last xs \<Longrightarrow> remove1 v xs \<noteq> [] \<and> last (remove1 v xs) = last xs"
  by (induction xs) (auto split: if_splits)

lemma purge_inv_remove:
  assumes "purge_inv s" "m_view_list s' = remove1 v (m_view_list s)" "view_heap s' = view_heap s"
    and "purge_view s' = purge_view s" "purge_view s \<noteq> Some v"
    and "\<And>t u. m_global_read_view (trx_heap s' t) = Some u \<Longrightarrow> m_global_read_view (trx_heap s t) = Some u"
  shows "purge_inv s'"
  using assms last_remove1 [of "m_view_list s" v] unfolding purge_inv_def by (metis (no_types, lifting))


text \<open>A newly opened view: exactly the selected transactions are recorded.\<close>

definition opened :: "Trx_sys \<Rightarrow> (Trx \<Rightarrow> bool) \<Rightarrow> trx_id_t \<Rightarrow> read_view_t \<Rightarrow> bool" where
  "opened s sel creator w \<longleftrightarrow>
     trx_ids w = map m_id (filter sel (map (trx_heap s) (m_trx_list s)))
     \<and> low_limit_id w = m_max_trx_id s
     \<and> up_limit_id w = (if trx_ids w \<noteq> [] then last (trx_ids w) else m_max_trx_id s)
     \<and> low_limit_no w = foldl (\<lambda>a t. if a > m_no t then m_no t else a) (m_max_trx_id s)
          (filter sel (map (trx_heap s) (m_trx_list s)))
     \<and> creator_trx_id w = creator"

text \<open>Every running transaction is selected or is the creator, which has no number yet.\<close>

definition selects :: "Trx_sys \<Rightarrow> (Trx \<Rightarrow> bool) \<Rightarrow> trx_id_t \<Rightarrow> bool" where
  "selects s sel creator \<longleftrightarrow> (\<forall>t \<in> set (m_trx_list s).
     (sel (trx_heap s t) \<longrightarrow> is_running (trx_heap s t))
     \<and> (is_running (trx_heap s t) \<longrightarrow> sel (trx_heap s t)
          \<or> m_id (trx_heap s t) = creator \<and> m_max_trx_id s \<le> m_no (trx_heap s t)))"

lemma opened_sorted:
  assumes "trx_list_inv s" "opened s sel c w"
  shows "sorted_wrt (\<ge>) (trx_ids w)"
proof -
  have "sorted_wrt (\<lambda>a b. m_id a > m_id b) (map (trx_heap s) (m_trx_list s))"
    using assms(1) by (simp add: trx_list_inv_def sorted_wrt_map)
  then have "sorted_wrt (\<lambda>a b. m_id a > m_id b) (filter sel (map (trx_heap s) (m_trx_list s)))"
    by (rule sorted_wrt_filter)
  then have "sorted_wrt (>) (trx_ids w)" using assms(2) by (simp add: opened_def sorted_wrt_map)
  then show ?thesis by (rule sorted_wrt_mono_rel [rotated]) auto
qed

lemma opened_mem:
  "opened s sel c w \<Longrightarrow> x \<in> set (trx_ids w) \<longleftrightarrow> (\<exists>t \<in> set (m_trx_list s). sel (trx_heap s t) \<and> x = m_id (trx_heap s t))"
  by (auto simp: opened_def)

lemma opened_no:
  assumes "opened s sel c w"
  shows "low_limit_no w \<le> m_max_trx_id s"
    "t \<in> set (m_trx_list s) \<Longrightarrow> sel (trx_heap s t) \<Longrightarrow> low_limit_no w \<le> m_no (trx_heap s t)"
    "k \<le> m_max_trx_id s \<Longrightarrow> (\<And>t. t \<in> set (m_trx_list s) \<Longrightarrow> sel (trx_heap s t) \<Longrightarrow> k \<le> m_no (trx_heap s t))
      \<Longrightarrow> k \<le> low_limit_no w"
proof -
  let ?ts = "filter sel (map (trx_heap s) (m_trx_list s))"
  have no: "low_limit_no w = foldl (\<lambda>a t. if a > m_no t then m_no t else a) (m_max_trx_id s) ?ts"
    using assms by (simp add: opened_def)
  show "low_limit_no w \<le> m_max_trx_id s" unfolding no by (rule foldl_min_bounds(1))
  show "low_limit_no w \<le> m_no (trx_heap s t)" if "t \<in> set (m_trx_list s)" "sel (trx_heap s t)"
    unfolding no by (rule foldl_min_bounds(2)) (use that in auto)
  show "k \<le> low_limit_no w" if "k \<le> m_max_trx_id s"
    "\<And>t. t \<in> set (m_trx_list s) \<Longrightarrow> sel (trx_heap s t) \<Longrightarrow> k \<le> m_no (trx_heap s t)"
    unfolding no by (rule foldl_min_bounds(3)) (use that in auto)
qed

lemma opened_view_inv:
  assumes "trx_list_inv s" "opened s sel c w" "selects s sel c" "c < m_max_trx_id s"
  shows "view_inv s w"
proof -
  have "view_wf w"
    using opened_sorted [OF assms(1,2)] opened_mem [OF assms(2)] assms(1,2)
    by (auto simp: view_wf_def opened_def trx_list_inv_def)
  moreover have "low_limit_no w \<le> m_no (trx_heap s t)"
    "m_id (trx_heap s t) \<in> set (trx_ids w) \<or> m_id (trx_heap s t) = creator_trx_id w"
    if "t \<in> set (m_trx_list s)" "is_running (trx_heap s t)" for t
    using that assms(3) opened_no(1,2) [OF assms(2)] opened_mem [OF assms(2)] assms(2)
    unfolding selects_def by (auto simp: opened_def intro: order_trans)
  ultimately show ?thesis
    using opened_no(1) [OF assms(2)] assms(2,4) by (auto simp: view_inv_def opened_def)
qed

lemma opened_newer:
  assumes "trx_list_inv s" "opened s sel c w" "selects s sel c" "view_inv s old"
  shows "newer_than w old"
proof -
  have "low_limit_no old \<le> low_limit_no w"
    using assms(3,4) by (intro opened_no(3) [OF assms(2)]) (auto simp: view_inv_def selects_def)
  moreover have "visible w x" if x: "visible old x" "creator_trx_id old = 0 \<or> x \<noteq> creator_trx_id old" for x
  proof -
    have "x < low_limit_id w" using x(1) assms(2,4) by (auto simp: visible_def opened_def view_inv_def)
    moreover have "x \<notin> set (trx_ids w)"
    proof
      assume "x \<in> set (trx_ids w)"
      then obtain t where t: "t \<in> set (m_trx_list s)" "sel (trx_heap s t)" "x = m_id (trx_heap s t)"
        using opened_mem [OF assms(2)] by auto
      then have "x \<in> set (trx_ids old) \<or> low_limit_id old \<le> x \<or> x = creator_trx_id old" "0 < x"
        using assms(1,3,4) by (auto simp: selects_def view_inv_def trx_list_inv_def)
      then show False using x by (auto simp: visible_def)
    qed
    ultimately show ?thesis by (simp add: visible_def)
  qed
  ultimately show ?thesis by (auto simp: newer_than_def)
qed

lemma open_now_opened:
  "opened s (\<lambda>trx. m_id trx \<noteq> c \<and> is_running trx) c (view_heap (read_view_open_now v c s) v)"
  by (simp add: read_view_open_now_def collect_trx_ids_eq opened_def set_view_def)

lemma open_now_frame:
  "m_view_list (read_view_open_now v c s) = v # m_view_list s"
  "u \<noteq> v \<Longrightarrow> view_heap (read_view_open_now v c s) u = view_heap s u"
  "trx_heap (read_view_open_now v c s) = trx_heap s" "m_trx_list (read_view_open_now v c s) = m_trx_list s"
  "m_max_trx_id (read_view_open_now v c s) = m_max_trx_id s" "purge_view (read_view_open_now v c s) = purge_view s"
  by (simp_all add: read_view_open_now_def collect_trx_ids_eq set_view_def)

lemma view_list_inv_open:
  assumes "view_list_inv s" "trx_list_inv s" "v \<notin> set (m_view_list s)"
    and "opened s sel c (view_heap s' v)" "selects s sel c"
    and "\<And>u. u \<noteq> v \<Longrightarrow> view_heap s' u = view_heap s u" "m_view_list s' = v # m_view_list s"
    and "\<And>w. view_inv s w \<Longrightarrow> view_inv s' w" and "c < m_max_trx_id s"
  shows "view_list_inv s'"
proof -
  have other: "view_heap s' u = view_heap s u" if "u \<in> set (m_view_list s)" for u
    using assms(3,6) that by metis
  have new: "view_inv s (view_heap s' v)" by (rule opened_view_inv [OF assms(2,4,5,9)])
  have "newer_than (view_heap s' v) (view_heap s' u)" if "u \<in> set (m_view_list s)" for u
    using opened_newer [OF assms(2,4,5)] assms(1) that other by (simp add: view_list_inv_def)
  moreover have "sorted_wrt (\<lambda>a b. newer_than (view_heap s' a) (view_heap s' b)) (m_view_list s)"
    using assms(1) other unfolding view_list_inv_def
    by (auto intro: sorted_wrt_mono_rel [of _ "\<lambda>a b. newer_than (view_heap s a) (view_heap s b)"])
  ultimately show ?thesis
    using assms(1,3,7,8) other new by (simp add: view_list_inv_def)
qed


section \<open>Every step keeps the invariant\<close>

lemma get_new_trx_id_eq:
  "get_new_trx_id s = (m_max_trx_id s, s\<lparr>m_max_trx_id := m_max_trx_id s + 1,
     trx_id_store := (if m_max_trx_id s mod 256 = 0 then m_max_trx_id s else trx_id_store s)\<rparr>)"
  by (simp add: get_new_trx_id_def flush_max_trx_id_def)

lemma unat_max_Suc: "(x :: uint64) < LSN_MAX \<Longrightarrow> unat (x + 1) = unat x + 1"
  by (simp add: unat_add_mod word_less_nat_alt)

lemma max_grows: "(x :: uint64) < LSN_MAX \<Longrightarrow> y \<le> x \<Longrightarrow> y < x + 1 \<and> y \<le> x + 1"
  by (simp add: word_less_nat_alt word_le_nat_alt unat_max_Suc)

lemma max_bounded: "(x :: uint64) < LSN_MAX \<Longrightarrow> x + 1 \<le> LSN_MAX \<and> 0 < x + 1"
  by (simp add: word_less_nat_alt word_le_nat_alt unat_add_mod)

lemma start_low_inv:
  assumes "sys_inv s" "t \<notin> set (m_trx_list s)" "\<not> m_is_purge (trx_heap s t)" "m_max_trx_id s < LSN_MAX"
  shows "sys_inv (start_low t s)"
proof -
  have inv: "trx_list_inv s" "view_list_inv s" "purge_inv s" using assms(1) by (simp_all add: sys_inv_def)
  note g = max_grows [OF assms(4)] and b = max_bounded [OF assms(4)]
  let ?s = "start_low t s"
  have eq: "trx_heap ?s = (trx_heap s)(t := (trx_heap s t)\<lparr>m_id := m_max_trx_id s, m_no := LSN_MAX, m_conc_state := TRX_ACTIVE\<rparr>)"
    "m_trx_list ?s = t # m_trx_list s" "m_max_trx_id ?s = m_max_trx_id s + 1" "m_view_list ?s = m_view_list s"
    "view_heap ?s = view_heap s" "purge_view ?s = purge_view s"
    using assms(3) by (simp_all add: start_low_def get_new_trx_id_eq set_trx_def Let_def)
  have "sorted_wrt (\<lambda>a b. m_id (trx_heap ?s a) > m_id (trx_heap ?s b)) (m_trx_list s)"
    using inv(1) assms(2) unfolding trx_list_inv_def eq(1)
    by (auto intro: sorted_wrt_mono_rel [of _ "\<lambda>a b. m_id (trx_heap s a) > m_id (trx_heap s b)"])
  then have 1: "trx_list_inv ?s"
    using inv(1) assms(2) g b unfolding trx_list_inv_def eq by (auto intro: less_imp_le order.strict_trans)
  have "view_inv ?s w" if "view_inv s w" for w
    using that assms(2) g assms(4) unfolding view_inv_def eq
    by (auto intro: less_imp_le order_trans [OF _ less_imp_le [OF assms(4)]])
  then have 2: "view_list_inv ?s" by (rule view_list_inv_keep [OF inv(2) _ eq(4,5)])
  have "purge_inv ?s" using inv(3) by (auto simp: purge_inv_def eq)
  with 1 2 show ?thesis by (simp add: sys_inv_def)
qed

lemma commit_get_no_inv:
  assumes "sys_inv s" "m_max_trx_id s < LSN_MAX"
  shows "sys_inv (commit_get_no t s)"
proof -
  have inv: "trx_list_inv s" "view_list_inv s" "purge_inv s" using assms(1) by (simp_all add: sys_inv_def)
  note g = max_grows [OF assms(2)] and b = max_bounded [OF assms(2)]
  let ?s = "commit_get_no t s"
  have eq: "trx_heap ?s = (trx_heap s)(t := (trx_heap s t)\<lparr>m_no := m_max_trx_id s\<rparr>)"
    "m_trx_list ?s = m_trx_list s" "m_max_trx_id ?s = m_max_trx_id s + 1" "m_view_list ?s = m_view_list s"
    "view_heap ?s = view_heap s" "purge_view ?s = purge_view s"
    by (simp_all add: commit_get_no_def get_new_trx_id_eq set_trx_def Let_def)
  have id: "m_id (trx_heap ?s u) = m_id (trx_heap s u)" "is_running (trx_heap ?s u) = is_running (trx_heap s u)" for u
    by (simp_all add: eq is_running_def)
  have 1: "trx_list_inv ?s"
    using inv(1) g b unfolding trx_list_inv_def id eq(2,3) by (auto intro: less_imp_le)
  have "view_inv ?s w" if "view_inv s w" for w
    using that g unfolding view_inv_def id eq(2,3) by (auto simp: eq(1))
  then have 2: "view_list_inv ?s" by (rule view_list_inv_keep [OF inv(2) _ eq(4,5)])
  have "purge_inv ?s" using inv(3) by (auto simp: purge_inv_def eq)
  with 1 2 show ?thesis by (simp add: sys_inv_def)
qed

lemma close_inv:
  assumes "sys_inv s" "same_trxs s s'" "m_view_list s' = remove1 v (m_view_list s)" "view_heap s' = view_heap s"
    and "purge_view s' = purge_view s" "purge_view s \<noteq> Some v"
    and "\<And>t u. m_global_read_view (trx_heap s' t) = Some u \<Longrightarrow> m_global_read_view (trx_heap s t) = Some u"
  shows "sys_inv s'"
  using assms(1) unfolding sys_inv_def
  using trx_list_inv_same [OF assms(2)] view_list_inv_remove [OF _ view_inv_same [OF assms(2)] assms(3,4)]
    purge_inv_remove [OF _ assms(3-7)] by blast

lemma keep_inv:
  assumes "sys_inv s" "same_trxs s s'" "m_view_list s' = m_view_list s" "view_heap s' = view_heap s"
    and "purge_view s' = purge_view s"
    and "\<And>t u. m_global_read_view (trx_heap s' t) = Some u \<Longrightarrow> m_global_read_view (trx_heap s t) = Some u"
  shows "sys_inv s'"
proof -
  have "purge_inv s'" using assms by (auto simp: sys_inv_def purge_inv_def)
  then show ?thesis
    using assms(1) trx_list_inv_same [OF assms(2)] view_list_inv_keep [OF _ view_inv_same [OF assms(2)] assms(3,4)]
    unfolding sys_inv_def by blast
qed

lemma purge_not_global:
  "sys_inv s \<Longrightarrow> m_global_read_view (trx_heap s t) = Some v \<Longrightarrow> purge_view s \<noteq> Some v"
  by (auto simp: sys_inv_def purge_inv_def)

lemma start_purge_inv: "sys_inv s \<Longrightarrow> t \<notin> set (m_trx_list s) \<Longrightarrow> m_is_purge (trx_heap s t) \<Longrightarrow> sys_inv (start_low t s)"
  by (erule keep_inv) (auto simp: start_low_def set_trx_def same_trxs_def is_running_def split: if_splits)

lemma commit_in_memory_inv: "sys_inv s \<Longrightarrow> sys_inv (commit_in_memory t s)"
  by (rule keep_inv) (auto simp: commit_in_memory_def set_trx_def same_trxs_def is_running_def split: if_splits)

lemma prepare_inv: "sys_inv s \<Longrightarrow> m_conc_state (trx_heap s t) = TRX_ACTIVE \<Longrightarrow> sys_inv (prepare_for_commit t s)"
  by (erule keep_inv) (auto simp: prepare_for_commit_def set_trx_def same_trxs_def is_running_def split: if_splits)

lemma commit_close_view_inv: "sys_inv s \<Longrightarrow> sys_inv (commit_close_view t s)"
proof (cases "m_global_read_view (trx_heap s t)")
  case None
  assume "sys_inv s"
  then show ?thesis
    by (rule keep_inv) (use None in \<open>auto simp: commit_close_view_def set_trx_def same_trxs_def is_running_def split: if_splits\<close>)
next
  case (Some v)
  assume inv: "sys_inv s"
  then show ?thesis
    by (rule close_inv [where v = v])
      (use Some purge_not_global [OF inv Some] in \<open>auto simp: commit_close_view_def read_view_close_def set_trx_def
          same_trxs_def is_running_def split: if_splits\<close>)
qed

lemma read_committed_inv:
  assumes "sys_inv s" "read_view_close_for_read_committed t s = Some s'"
  shows "sys_inv s'"
proof -
  obtain v where v: "m_global_read_view (trx_heap s t) = Some v"
    using assms(2) by (auto simp: read_view_close_for_read_committed_def split: option.splits)
  show ?thesis
    by (rule close_inv [where v = v, OF assms(1)])
      (use assms(2) v purge_not_global [OF assms(1) v] in \<open>auto simp: read_view_close_for_read_committed_def
          read_view_close_def set_trx_def same_trxs_def is_running_def split: if_splits\<close>)
qed

lemma cursor_close_inv:
  assumes "sys_inv s" "purge_view s \<noteq> Some (cv_read_view c)"
  shows "sys_inv (read_cursor_view_close t c s)"
  by (rule close_inv [where v = "cv_read_view c", OF assms(1)])
    (use assms(2) in \<open>auto simp: read_cursor_view_close_def read_view_close_def set_trx_def same_trxs_def
        is_running_def Let_def split: if_splits\<close>)

lemma cursor_set_inv: "sys_inv s \<Longrightarrow> sys_inv (read_cursor_set t c s)"
  by (rule keep_inv) (auto simp: read_cursor_set_def set_trx_def same_trxs_def is_running_def split: if_splits)

lemma commit_finish_inv:
  assumes "sys_inv s"
  shows "sys_inv (commit_finish t s)"
proof -
  have inv: "trx_list_inv s" "view_list_inv s" "purge_inv s" using assms by (simp_all add: sys_inv_def)
  let ?s = "commit_finish t s"
  have eq: "trx_heap ?s = (trx_heap s)(t := (trx_heap s t)\<lparr>m_undo_no := 0, m_conc_state := TRX_NOT_STARTED\<rparr>)"
    "m_trx_list ?s = remove1 t (m_trx_list s)" "m_max_trx_id ?s = m_max_trx_id s" "m_view_list ?s = m_view_list s"
    "view_heap ?s = view_heap s" "purge_view ?s = purge_view s"
    by (simp_all add: commit_finish_def set_trx_def Let_def)
  have id: "m_id (trx_heap ?s u) = m_id (trx_heap s u)" "m_no (trx_heap ?s u) = m_no (trx_heap s u)"
    "is_running (trx_heap ?s u) \<Longrightarrow> is_running (trx_heap s u)" for u
    by (auto simp: eq is_running_def split: if_splits)
  have "sorted_wrt R xs \<Longrightarrow> sorted_wrt R (remove1 t xs)" for R and xs :: "trx_ptr list"
    by (induction xs) (auto dest: notin_set_remove1)
  then have 1: "trx_list_inv ?s"
    using inv(1) set_remove1_subset [of t "m_trx_list s"] unfolding trx_list_inv_def id eq(2,3) by blast
  have "view_inv ?s w" if "view_inv s w" for w
    using that set_remove1_subset [of t "m_trx_list s"] id(3) unfolding view_inv_def id(1,2) eq(2,3) by blast
  then have 2: "view_list_inv ?s" by (rule view_list_inv_keep [OF inv(2) _ eq(4,5)])
  have "purge_inv ?s" using inv(3) by (auto simp: purge_inv_def eq)
  with 1 2 show ?thesis by (simp add: sys_inv_def)
qed


lemma cleanup_inv: "sys_inv s \<Longrightarrow> sys_inv (cleanup_at_db_startup t s)"
  using commit_finish_inv [of s t] by (simp add: commit_finish_def cleanup_at_db_startup_def)

lemma unique_id:
  assumes "trx_list_inv s" "t \<in> set (m_trx_list s)" "u \<in> set (m_trx_list s)" "m_id (trx_heap s u) = m_id (trx_heap s t)"
  shows "u = t"
proof -
  have "sorted_wrt (>) ys \<Longrightarrow> distinct ys" for ys :: "trx_id_t list" by (induction ys) auto
  then have "distinct (map (\<lambda>a. m_id (trx_heap s a)) (m_trx_list s))"
    using assms(1) by (simp add: trx_list_inv_def sorted_wrt_map)
  then have "inj_on (\<lambda>a. m_id (trx_heap s a)) (set (m_trx_list s))" by (simp add: distinct_map)
  then show ?thesis using assms(2-4) by (blast dest: inj_onD)
qed

lemma max_below_lsn_max: "trx_list_inv s \<Longrightarrow> m_max_trx_id s \<le> LSN_MAX"
  by (simp add: trx_list_inv_def)

text \<open>Opening a view: the common part of the three operations that do it.\<close>

lemma open_inv:
  assumes inv: "sys_inv s" and fresh: "fresh_view v s" and same: "same_trxs s s'"
    and op: "opened s sel c (view_heap s' v)" "selects s sel c" and c: "c < m_max_trx_id s"
    and frame: "\<And>u. u \<noteq> v \<Longrightarrow> view_heap s' u = view_heap s u" "m_view_list s' = v # m_view_list s"
      "purge_view s' = purge_view s"
    and gl: "\<And>t u. m_global_read_view (trx_heap s' t) = Some u \<Longrightarrow> u = v \<or> m_global_read_view (trx_heap s t) = Some u"
  shows "sys_inv s'"
proof -
  have i: "trx_list_inv s" "view_list_inv s" "purge_inv s" using inv by (simp_all add: sys_inv_def)
  have v: "v \<notin> set (m_view_list s)" using fresh by (simp add: fresh_view_def)
  have "view_list_inv s'"
    by (rule view_list_inv_open [OF i(2,1) v op frame(1,2) view_inv_same [OF same] c])
  moreover have "purge_inv s'"
    unfolding purge_inv_def frame(3)
  proof (intro allI impI)
    fix p assume "purge_view s = Some p"
    with i(3) have p: "m_view_list s \<noteq> []" "last (m_view_list s) = p" "creator_trx_id (view_heap s p) = 0"
      "\<forall>t. m_global_read_view (trx_heap s t) \<noteq> Some p"
      by (auto simp: purge_inv_def)
    then have "p \<noteq> v" using v last_in_set by metis
    then show "m_view_list s' \<noteq> [] \<and> last (m_view_list s') = p \<and> creator_trx_id (view_heap s' p) = 0
        \<and> (\<forall>t. m_global_read_view (trx_heap s' t) \<noteq> Some p)"
      using p frame gl by auto
  qed
  ultimately show ?thesis using trx_list_inv_same [OF same i(1)] by (simp add: sys_inv_def)
qed

lemma selects_creator:
  assumes "trx_list_inv s" "before_commit t s"
  shows "selects s (\<lambda>trx. m_id trx \<noteq> m_id (trx_heap s t) \<and> is_running trx) (m_id (trx_heap s t))"
  using assms unique_id [OF assms(1)] max_below_lsn_max [OF assms(1)]
  unfolding selects_def before_commit_def in_list_running_def by metis

lemma assign_read_view_inv:
  assumes "sys_inv s" "before_commit t s" "fresh_view v s"
  shows "sys_inv (assign_read_view v t s)"
proof (cases "m_read_view (trx_heap s t) = None")
  case False
  then show ?thesis using assms(1) by (simp add: assign_read_view_def)
next
  case True
  let ?c = "m_id (trx_heap s t)"
  have i: "trx_list_inv s" using assms(1) by (simp add: sys_inv_def)
  have eq: "assign_read_view v t s = set_trx (read_view_open_now v ?c s) t
      ((trx_heap s t)\<lparr>m_read_view := Some v, m_global_read_view := Some v\<rparr>)"
    using True by (simp add: assign_read_view_def open_now_frame)
  show ?thesis
    by (rule open_inv [OF assms(1,3) _ _ selects_creator [OF i assms(2)]])
      (use open_now_opened [of s ?c v] i assms(2) in \<open>auto simp: eq before_commit_def in_list_running_def trx_list_inv_def set_trx_def open_now_frame same_trxs_def is_running_def
          split: if_splits\<close>)
qed

lemma cursor_create_eq:
  defines "s' \<equiv> \<lambda>v t s. snd (read_cursor_view_create v t s)"
  shows "m_view_list (s' v t s) = v # m_view_list s" "u \<noteq> v \<Longrightarrow> view_heap (s' v t s) u = view_heap s u"
    "trx_heap (s' v t s) = (trx_heap s)(t := (trx_heap s t)\<lparr>m_n_client_tables_in_use := 0\<rparr>)"
    "m_trx_list (s' v t s) = m_trx_list s" "m_max_trx_id (s' v t s) = m_max_trx_id s"
    "purge_view (s' v t s) = purge_view s"
  by (simp_all add: s'_def read_cursor_view_create_def collect_trx_ids_eq set_view_def set_trx_def Let_def)

lemma cursor_create_opened:
  "opened s is_running (m_id (trx_heap s t)) (view_heap (snd (read_cursor_view_create v t s)) v)"
proof -
  let ?h = "(trx_heap s)(t := (trx_heap s t)\<lparr>m_n_client_tables_in_use := 0\<rparr>)"
  have f: "map f (filter is_running (map ?h ts)) = map f (filter is_running (map (trx_heap s) ts))"
    if "f (?h t) = f (trx_heap s t)" for f :: "Trx \<Rightarrow> 'b" and ts
    using that by (induction ts) (auto simp: is_running_def)
  have fold: "foldl (\<lambda>a t. if a > m_no t then m_no t else a) k (filter is_running (map ?h ts))
      = foldl (\<lambda>a t. if a > m_no t then m_no t else a) k (filter is_running (map (trx_heap s) ts))" for k ts
    by (induction ts arbitrary: k) (auto simp: is_running_def)
  have n: "filter is_running (map ?h ts) = [] \<longleftrightarrow> filter is_running (map (trx_heap s) ts) = []" for ts
    by (induction ts) (auto simp: is_running_def)
  show ?thesis
    using f [of m_id] fold n
    by (simp add: read_cursor_view_create_def collect_trx_ids_eq opened_def set_view_def set_trx_def Let_def)
qed

lemma cursor_create_inv:
  assumes "sys_inv s" "fresh_view v s" "before_commit t s"
  shows "sys_inv (snd (read_cursor_view_create v t s))"
  by (rule open_inv [OF assms(1,2) _ cursor_create_opened])
    (use assms(1,3) in \<open>auto simp: cursor_create_eq before_commit_def in_list_running_def sys_inv_def trx_list_inv_def same_trxs_def is_running_def selects_def split: if_splits\<close>)


text \<open>The copy of the oldest view, with its creator added to the array.\<close>

definition oldest_copy :: "read_view_t \<Rightarrow> read_view_t \<Rightarrow> bool" where
  "oldest_copy old w \<longleftrightarrow>
     trx_ids w = (if creator_trx_id old > 0 then insert_desc (creator_trx_id old) (trx_ids old) else trx_ids old)
     \<and> low_limit_id w = low_limit_id old \<and> low_limit_no w = low_limit_no old
     \<and> up_limit_id w = (if trx_ids w \<noteq> [] then last (trx_ids w) else up_limit_id old)
     \<and> creator_trx_id w = 0"

lemma insert_desc_Nil [simp]: "insert_desc c xs \<noteq> []"
  by (simp add: insert_desc_def)

lemma oldest_copy_view:
  fixes v :: view_ptr and g :: undo_no_t
  assumes "m_view_list s \<noteq> []"
  defines "s' \<equiv> read_view_oldest_copy_or_open_new v 0 g s"
  shows "oldest_copy (view_heap s (last (m_view_list s))) (view_heap s' v)"
    "m_view_list s' = m_view_list s @ [v]" "u \<noteq> v \<Longrightarrow> view_heap s' u = view_heap s u"
    "trx_heap s' = trx_heap s" "m_trx_list s' = m_trx_list s" "m_max_trx_id s' = m_max_trx_id s"
  using assms(1) oldest_copy_ids [OF refl refl, of "view_heap s (last (m_view_list s))"]
  by (auto simp: s'_def read_view_oldest_copy_or_open_new_def oldest_copy_def set_view_def Let_def
      split: if_splits)

lemma oldest_copy_visible:
  assumes "oldest_copy old w"
  shows "visible w t \<longleftrightarrow> visible old t \<and> (creator_trx_id old = 0 \<or> t \<noteq> creator_trx_id old)"
  using assms by (auto simp: oldest_copy_def visible_def word_greater_zero_iff)

lemma oldest_copy_inv:
  assumes "view_inv s old" "oldest_copy old w" "trx_list_inv s"
  shows "view_inv s w"
proof -
  have wf: "view_wf old" and c: "creator_trx_id old < low_limit_id old" using assms(1) by (simp_all add: view_inv_def)
  have "sorted_wrt (\<ge>) (trx_ids w)"
    using assms(2) wf insert_desc_sorted by (auto simp: oldest_copy_def view_wf_def)
  then have "view_wf w"
    using assms(2) wf c by (auto simp: oldest_copy_def view_wf_def split: if_splits)
  moreover have "0 < low_limit_id w" using c assms(2) by (simp add: oldest_copy_def) (metis word_gt_0 word_not_simps(1))
  moreover have "set (trx_ids w) = (if creator_trx_id old > 0 then insert (creator_trx_id old) (set (trx_ids old)) else set (trx_ids old))"
    using assms(2) by (simp add: oldest_copy_def)
  moreover have "0 < m_id (trx_heap s t)" if "t \<in> set (m_trx_list s)" for t
    using assms(3) that by (simp add: trx_list_inv_def)
  ultimately show ?thesis
    using assms(1,2) unfolding view_inv_def oldest_copy_def by (auto simp: word_greater_zero_iff)
qed

lemma purge_copy_inv:
  fixes g :: undo_no_t
  assumes inv: "sys_inv s" and fresh: "fresh_view v s" and ne: "m_view_list s \<noteq> []"
  defines "s' \<equiv> (read_view_oldest_copy_or_open_new v 0 g s)\<lparr>purge_view := Some v\<rparr>"
  shows "sys_inv s'"
proof -
  have i: "trx_list_inv s" "view_list_inv s" using inv by (simp_all add: sys_inv_def)
  note cp = oldest_copy_view [OF ne, where v = v and g = g]
  let ?old = "view_heap s (last (m_view_list s))" and ?w = "view_heap s' v"
  have w: "oldest_copy ?old ?w" using cp(1) by (simp add: s'_def)
  have other: "view_heap s' u = view_heap s u" if "u \<in> set (m_view_list s)" for u
  proof -
    have "u \<noteq> v" using that fresh by (auto simp: fresh_view_def)
    then show ?thesis by (simp add: s'_def cp(3))
  qed
  have same: "same_trxs s s'" by (simp add: same_trxs_def s'_def cp)
  have old: "view_inv s ?old" using i(2) ne by (simp add: view_list_inv_def)
  have new: "newer_than (view_heap s u) ?w" if u: "u \<in> set (m_view_list s)" for u
  proof (cases "u = last (m_view_list s)")
    case True
    then show ?thesis using w oldest_copy_visible [OF w] by (simp add: newer_than_def oldest_copy_def)
  next
    case False
    have "m_view_list s = butlast (m_view_list s) @ [last (m_view_list s)]" using ne by simp
    moreover have "u \<in> set (butlast (m_view_list s))"
      using False u ne by (metis append_butlast_last_id in_set_conv_decomp_last rotate1.simps(2) set_ConsD set_rotate1)
    ultimately have "newer_than (view_heap s u) ?old"
      using i(2) sorted_wrt_append [of _ "butlast (m_view_list s)" "[last (m_view_list s)]"]
      unfolding view_list_inv_def by auto
    then show ?thesis using w oldest_copy_visible [OF w] by (simp add: newer_than_def oldest_copy_def)
  qed
  have sorted: "sorted_wrt (\<lambda>a b. newer_than (view_heap s' a) (view_heap s' b)) (m_view_list s)"
    using i(2) other unfolding view_list_inv_def
    by (auto intro: sorted_wrt_mono_rel [of _ "\<lambda>a b. newer_than (view_heap s a) (view_heap s b)"])
  have list: "m_view_list s' = m_view_list s @ [v]" using cp(2) by (simp add: s'_def)
  have "view_list_inv s'"
    unfolding view_list_inv_def list
    using i(2) other new sorted fresh view_inv_same [OF same] oldest_copy_inv [OF old w i(1)]
    by (auto simp: view_list_inv_def sorted_wrt_append fresh_view_def)
  moreover have "purge_inv s'"
    using fresh w by (auto simp: purge_inv_def list s'_def cp fresh_view_def oldest_copy_def)
  ultimately show ?thesis using trx_list_inv_same [OF same i(1)] by (simp add: sys_inv_def)
qed


lemma purge_close_inv:
  assumes "sys_inv s"
  shows "sys_inv (purge_close_view s)" "purge_view (purge_close_view s) = None"
proof -
  let ?s = "purge_close_view s"
  have i: "trx_list_inv s" "view_list_inv s" using assms(1) by (simp_all add: sys_inv_def)
  have same: "same_trxs s ?s" by (auto simp: same_trxs_def purge_close_view_def read_view_close_def split: option.splits)
  have "view_list_inv ?s"
  proof (cases "purge_view s")
    case None
    then show ?thesis
      by (intro view_list_inv_keep [OF i(2) view_inv_same [OF same]]) (simp_all add: purge_close_view_def)
  next
    case (Some p)
    then show ?thesis
      by (intro view_list_inv_remove [OF i(2) view_inv_same [OF same], where v = p])
        (simp_all add: purge_close_view_def read_view_close_def)
  qed
  then show "sys_inv ?s" using trx_list_inv_same [OF same i(1)] by (simp add: sys_inv_def purge_inv_def purge_close_view_def)
  show "purge_view ?s = None" by (simp add: purge_close_view_def)
qed

lemma purge_open_inv:
  assumes inv: "sys_inv s" and fresh: "fresh_view v s" and "m_view_list s = []" "purge_view s = None"
  shows "sys_inv ((read_view_open_now v 0 s)\<lparr>purge_view := Some v\<rparr>)"
proof -
  let ?s1 = "read_view_open_now v 0 s"
  have i: "trx_list_inv s" using inv by (simp add: sys_inv_def)
  have "selects s (\<lambda>trx. m_id trx \<noteq> 0 \<and> is_running trx) 0"
    using i by (auto simp: selects_def trx_list_inv_def)
  then have "sys_inv ?s1"
    by (intro open_inv [OF inv fresh _ open_now_opened])
      (use i in \<open>auto simp: same_trxs_def open_now_frame trx_list_inv_def\<close>)
  moreover have "creator_trx_id (view_heap ?s1 v) = 0" using open_now_opened [of s 0 v] by (simp add: opened_def)
  ultimately show ?thesis
    using fresh assms(3)
    by (auto simp: sys_inv_def trx_list_inv_def view_list_inv_def view_inv_def purge_inv_def open_now_frame fresh_view_def)
qed

lemma purge_renew_inv:
  assumes "sys_inv s" "fresh_view v (purge_close_view s)"
  shows "sys_inv (purge_renew_view v g s)"
proof (cases "m_view_list (purge_close_view s) = []")
  case True
  then show ?thesis
    using purge_open_inv [OF purge_close_inv(1) [OF assms(1)] assms(2) True purge_close_inv(2) [OF assms(1)]]
    by (simp add: purge_renew_view_def read_view_oldest_copy_or_open_new_def)
next
  case False
  then show ?thesis
    using purge_copy_inv [OF purge_close_inv(1) [OF assms(1)] assms(2)] by (simp add: purge_renew_view_def)
qed

lemma trx_step_inv:
  "trx_step s k s' \<Longrightarrow> sys_inv s \<Longrightarrow> (0 < k \<longrightarrow> m_max_trx_id s < LSN_MAX) \<Longrightarrow> sys_inv s'"
  by (induction rule: trx_step.induct)
    (simp_all add: start_low_inv start_purge_inv assign_read_view_inv cursor_create_inv cursor_close_inv cursor_set_inv
      read_committed_inv prepare_inv commit_get_no_inv commit_in_memory_inv commit_close_view_inv commit_finish_inv
      cleanup_inv purge_renew_inv)

lemma purge_close_max: "m_max_trx_id (purge_close_view s) = m_max_trx_id s"
  by (auto simp: purge_close_view_def read_view_close_def split: option.splits)

lemma trx_step_counter: "trx_step s k s' \<Longrightarrow> m_max_trx_id s' = m_max_trx_id s + of_nat k"
proof (induction rule: trx_step.induct)
  case (purge v s g)
  then show ?case
    by (simp add: purge_renew_view_def read_view_oldest_copy_or_open_new_def open_now_frame set_view_def Let_def
        purge_close_max)
qed (auto simp: start_low_def get_new_trx_id_eq assign_read_view_def open_now_frame cursor_create_eq
    read_cursor_view_close_def read_cursor_set_def read_view_close_for_read_committed_def read_view_close_def
    prepare_for_commit_def commit_get_no_def commit_in_memory_def commit_close_view_def commit_finish_def
    cleanup_at_db_startup_def set_trx_def Let_def split: option.splits)

lemma trx_step_label: "trx_step s k s' \<Longrightarrow> k \<le> 1"
  by (induction rule: trx_step.induct) simp_all

lemma trx_run_inv: "trx_run n s \<Longrightarrow> n \<le> unat LSN_MAX \<Longrightarrow> sys_inv s \<and> unat (m_max_trx_id s) = n"
proof (induction rule: trx_run.induct)
  case (init s)
  then show ?case
    by (auto simp: trx_sys_init_def sys_inv_def trx_list_inv_def view_list_inv_def purge_inv_def word_le_nat_alt)
next
  case (step n s k s')
  then have IH: "sys_inv s" "unat (m_max_trx_id s) = n" by simp_all
  have "m_max_trx_id s < LSN_MAX" if "0 < k"
    using that step.prems IH(2) by (simp add: word_less_nat_alt)
  then have "sys_inv s'" using trx_step_inv [OF step.hyps(2)] IH(1) by blast
  moreover have "unat (m_max_trx_id s') = n + k"
    using step.prems IH(2) trx_step_label [OF step.hyps(2)]
    by (simp add: trx_step_counter [OF step.hyps(2)] unat_add_mod unsigned_of_nat take_bit_nat_eq_self)
  ultimately show ?case ..
qed


section \<open>Properties\<close>

text \<open>
  C23. The array search of \<^verbatim>\<open>read_view_sees_trx_id\<close> decides visibility: on a view with a descending
  array below its high water mark, and ids less than \<open>2 ^ 31\<close> apart, a transaction is seen
  exactly if its id is below the high water mark and not in the array.
\<close>

theorem read_view_sees_correct:
  assumes "view_wf v" "view_narrow v"
  shows "read_view_sees_trx_id v t \<longleftrightarrow> t < low_limit_id v \<and> t \<notin> set (trx_ids v)"
  using view_sees_iff [OF assms] by (simp add: visible_def)

definition sample_view :: read_view_t where
  "sample_view = \<lparr>vtype = VIEW_NORMAL, undo_no = 0, low_limit_no = 20, low_limit_id = 20,
     up_limit_id = 5, trx_ids = [12, 5], creator_trx_id = 13\<rparr>"

theorem read_view_sees_correct_witness:
  "read_view_sees_trx_id sample_view 7 \<and> \<not> read_view_sees_trx_id sample_view 12"
  using read_view_sees_correct [of sample_view 7] read_view_sees_correct [of sample_view 12]
  by (simp add: sample_view_def view_wf_def view_narrow_def)

text \<open>
  C24. Beyond that distance the answer can be wrong, because the 64-bit difference is cut to an \<^verbatim>\<open>int\<close>.
  Let \<open>d\<close> be how far an id lies above the oldest active one of the view, modulo \<open>2 ^ 32\<close>.  If \<open>d\<close> is
  \<open>2 ^ 31\<close> or more, the view reports the transaction as visible even when it is active; if \<open>d\<close> is
  zero, the view hides it even when it is committed.
\<close>

theorem read_view_sees_truncates:
  assumes "view_wf v" "trx_ids v \<noteq> []" "last (trx_ids v) < t" "t < low_limit_id v"
  shows "(2 ^ 31 \<le> (unat t - unat (last (trx_ids v))) mod 2 ^ 32 \<longrightarrow> read_view_sees_trx_id v t)
    \<and> ((unat t - unat (last (trx_ids v))) mod 2 ^ 32 = 0 \<longrightarrow> \<not> read_view_sees_trx_id v t)"
proof -
  define x where "x = last (trx_ids v)"
  define c where "c = (ucast (t - x) :: 32 word)"
  have x: "up_limit_id v = x" "x < t" using assms by (simp_all add: view_wf_def x_def)
  have "rev (trx_ids v) = x # rev (butlast (trx_ids v))"
    using assms(2) by (metis append_butlast_last_id rev_append rev_singleton_conv append_Cons append_Nil x_def)
  moreover have "\<not> t < up_limit_id v" "\<not> low_limit_id v \<le> t" using x assms(4) by auto
  ultimately have sees: "read_view_sees_trx_id v t = (if sint c \<le> 0 then sint c < 0 else sees_loop t (rev (butlast (trx_ids v))))"
    by (simp only: read_view_sees_trx_id_def if_False sees_loop.simps Let_def c_def)
  have "unat (t - x) = unat t - unat x" using x(2) by (simp add: unat_sub less_imp_le)
  then have c: "unat c = (unat t - unat x) mod 2 ^ 32" by (simp add: c_def unsigned_ucast_eq unsigned_take_bit_eq take_bit_eq_mod)
  have "sint c < 0" if "2 ^ 31 \<le> unat c"
  proof -
    have "unat c div 2 ^ 31 = 1" using that unat_uint32_less [of c] by (intro div_nat_eqI) simp_all
    then have "bit (unat c) 31" by (simp add: bit_iff_odd)
    then have "bit c 31" by (simp add: bit_unsigned_iff)
    then show ?thesis by (simp add: sint_uint bit_unsigned_iff)
  qed
  moreover have "sint c = 0" if "unat c = 0" using that by (simp add: unat_eq_0)
  ultimately show ?thesis using sees c x_def by auto
qed

definition far_view :: read_view_t where
  "far_view = \<lparr>vtype = VIEW_NORMAL, undo_no = 0, low_limit_no = 2 ^ 33, low_limit_id = 2 ^ 33,
     up_limit_id = 5, trx_ids = [2 ^ 31 + 5, 5], creator_trx_id = 2 ^ 33 - 1\<rparr>"

theorem read_view_sees_truncates_witness:
  "read_view_sees_trx_id far_view (2 ^ 31 + 5) \<and> 2 ^ 31 + 5 \<in> set (trx_ids far_view)
   \<and> \<not> read_view_sees_trx_id far_view (2 ^ 32 + 5) \<and> 2 ^ 32 + 5 \<notin> set (trx_ids far_view)"
  using read_view_sees_truncates [of far_view "2 ^ 31 + 5"] read_view_sees_truncates [of far_view "2 ^ 32 + 5"]
  by (simp add: far_view_def view_wf_def)

text \<open>
  C22. A transaction's read view is a snapshot.  In every state that a run reaches from recovered
  transactions in descending order, with interleaved starts, prepares, commits, views and purge
  rounds, as long as the 64-bit counter has not reached its end: when a running or prepared
  transaction with no commit number and no view yet is given one, and every running transaction's id is at most
  \<open>2 ^ 31\<close> below the counter, the view sees a transaction exactly if its id was assigned before
  and it is not running now, or it is the transaction itself.
\<close>

theorem assign_read_view_snapshot:
  assumes "trx_run n s" "n \<le> unat LSN_MAX" "before_commit t s" "m_read_view (trx_heap s t) = None"
    and "\<forall>u \<in> set (m_trx_list s). is_running (trx_heap s u) \<longrightarrow> n - unat (m_id (trx_heap s u)) \<le> 2 ^ 31"
  shows "read_view_sees_trx_id (view_heap (assign_read_view v t s) v) x \<longleftrightarrow>
    x < m_max_trx_id s \<and> (x = m_id (trx_heap s t)
      \<or> \<not> (\<exists>u \<in> set (m_trx_list s). is_running (trx_heap s u) \<and> m_id (trx_heap s u) = x))"
proof -
  let ?c = "m_id (trx_heap s t)" and ?sel = "\<lambda>trx. m_id trx \<noteq> m_id (trx_heap s t) \<and> is_running trx"
  let ?w = "view_heap (assign_read_view v t s) v"
  have i: "trx_list_inv s" and n: "unat (m_max_trx_id s) = n"
    using trx_run_inv [OF assms(1,2)] by (simp_all add: sys_inv_def)
  have op: "opened s ?sel ?c ?w"
    using assms(4) open_now_opened [of s ?c v] by (simp add: assign_read_view_def set_trx_def Let_def)
  have "?c < m_max_trx_id s" using i assms(3) by (simp add: trx_list_inv_def before_commit_def in_list_running_def)
  then have wf: "view_wf ?w"
    using opened_view_inv [OF i op selects_creator [OF i assms(3)]] by (simp add: view_inv_def)
  have "view_narrow ?w"
  proof (cases "trx_ids ?w = []")
    case True
    then show ?thesis using op by (simp add: view_narrow_def opened_def)
  next
    case False
    then have "last (trx_ids ?w) \<in> set (trx_ids ?w)" by simp
    then obtain u where "u \<in> set (m_trx_list s)" "?sel (trx_heap s u)" "last (trx_ids ?w) = m_id (trx_heap s u)"
      using opened_mem [OF op] by blast
    then show ?thesis using assms(5) op False n by (simp add: view_narrow_def opened_def)
  qed
  then have "read_view_sees_trx_id ?w x = visible ?w x" by (rule view_sees_iff [OF wf])
  also have "\<dots> \<longleftrightarrow> x < m_max_trx_id s \<and> \<not> (\<exists>u \<in> set (m_trx_list s). ?sel (trx_heap s u) \<and> x = m_id (trx_heap s u))"
    unfolding visible_def using opened_mem [OF op] op by (auto simp: opened_def)
  finally show ?thesis by auto
qed

text \<open>
  C21. Purge removes nothing that an open view may still need (the source leaves this as a remark to be
  proved).  In every state of a run as above in which the 64-bit counter has not reached its end:
  if \<^verbatim>\<open>update_undo_must_exist\<close> lets purge drop the versions made by a transaction, every open
  view, plain or cursor, sees that transaction, provided that the ids which that view and the
  purge view tell apart are at most \<open>2 ^ 31\<close> apart; and no open view, however wide, needs undo
  logs of transactions numbered below the purge view's limit.
\<close>

theorem purge_view_safe:
  assumes "trx_run n s" "n \<le> unat LSN_MAX" "purge_view s = Some p" "v \<in> set (m_view_list s)"
  shows "low_limit_no (view_heap s p) \<le> low_limit_no (view_heap s v)
    \<and> (view_narrow (view_heap s v) \<and> view_narrow (view_heap s p) \<and> update_undo_must_exist s t = Some False
        \<longrightarrow> read_view_sees_trx_id (view_heap s v) t)"
proof -
  have i: "view_list_inv s" "purge_inv s" using trx_run_inv [OF assms(1,2)] by (simp_all add: sys_inv_def)
  have last: "m_view_list s \<noteq> []" "last (m_view_list s) = p" "creator_trx_id (view_heap s p) = 0"
    using i(2) assms(3) by (auto simp: purge_inv_def)
  then have p: "p \<in> set (m_view_list s)" by auto
  have sees: "read_view_sees_trx_id (view_heap s u) t = visible (view_heap s u) t"
    if "u \<in> set (m_view_list s)" "view_narrow (view_heap s u)" for u
    using i(1) that by (intro view_sees_iff) (auto simp: view_list_inv_def view_inv_def)
  have new: "newer_than (view_heap s v) (view_heap s p) \<or> v = p"
  proof (cases "v = p")
    case False
    obtain xs where xs: "m_view_list s = xs @ [p]" using last by (metis append_butlast_last_id)
    then have "v \<in> set xs" using assms(4) False by auto
    then show ?thesis using i(1) xs by (simp add: view_list_inv_def sorted_wrt_append)
  qed simp
  then have "low_limit_no (view_heap s p) \<le> low_limit_no (view_heap s v)" by (auto simp: newer_than_def)
  moreover have "read_view_sees_trx_id (view_heap s v) t"
    if "view_narrow (view_heap s v)" "view_narrow (view_heap s p)" "update_undo_must_exist s t = Some False"
    using that sees [OF p] sees [OF assms(4)] new last(3) assms(3)
    by (auto simp: update_undo_must_exist_def newer_than_def)
  ultimately show ?thesis by blast
qed


text \<open>A run: transaction 1 commits, transaction 2 opens a read view, purge renews its view.\<close>

definition run0 :: Trx_sys where
  "run0 = \<lparr>m_max_trx_id = 1, m_trx_list = [], m_view_list = [],
     trx_heap = \<lambda>_. \<lparr>m_id = 0, m_no = LSN_MAX, m_conc_state = TRX_NOT_STARTED, m_is_purge = False, m_undo_no = 0,
       m_read_view = None, m_global_read_view = None, m_n_client_tables_in_use = 0\<rparr>,
     view_heap = \<lambda>_. sample_view, trx_id_store = 0, purge_view = None\<rparr>"
definition run2 :: Trx_sys where "run2 = commit_in_memory 0 (start_low 0 run0)"
definition run4 :: Trx_sys where "run4 = commit_finish 0 (commit_close_view 0 run2)"
definition run5 :: Trx_sys where "run5 = start_low 1 run4"
definition run7 :: Trx_sys where "run7 = purge_renew_view 9 0 (assign_read_view 5 1 run5)"

lemmas trx_op_defs = start_low_def get_new_trx_id_eq set_trx_def set_view_def Let_def commit_in_memory_def
  commit_close_view_def commit_finish_def assign_read_view_def read_view_open_now_def read_view_close_def
  purge_renew_view_def purge_close_view_def read_view_oldest_copy_or_open_new_def is_running_def
lemmas run_defs = run0_def run2_def run4_def run5_def run7_def

lemma trx_run5: "trx_run 3 run5"
proof -
  have 0: "trx_run 1 run0" using trx_run.init [of run0] by (simp add: run0_def trx_sys_init_def)
  have 1: "trx_run (1 + 1) (start_low 0 run0)"
    by (rule trx_run.step [OF 0 trx_step.start]) (simp_all add: run0_def)
  have 2: "trx_run (1 + 1 + 0) run2" unfolding run2_def
    by (rule trx_run.step [OF 1 trx_step.commit2]) (simp add: run0_def trx_op_defs in_list_running_def)
  have 3: "trx_run (1 + 1 + 0 + 0) (commit_close_view 0 run2)"
    by (rule trx_run.step [OF 2 trx_step.commit3]) (simp add: run_defs trx_op_defs)
  have 4: "trx_run (1 + 1 + 0 + 0 + 0) run4" unfolding run4_def
    by (rule trx_run.step [OF 3 trx_step.commit4]) (simp_all add: run_defs trx_op_defs)
  have "trx_run (1 + 1 + 0 + 0 + 0 + 1) run5" unfolding run5_def
    by (rule trx_run.step [OF 4 trx_step.start]) (simp_all add: run_defs trx_op_defs)
  then show ?thesis by (simp add: numeral_3_eq_3)
qed

lemma run5_before_commit: "before_commit 1 run5" "fresh_view v run5" "m_read_view (trx_heap run5 1) = None"
  by (simp_all add: run_defs trx_op_defs before_commit_def in_list_running_def fresh_view_def)

lemma trx_run7: "trx_run 3 run7"
proof -
  have "trx_run (3 + 0) (assign_read_view 5 1 run5)"
    by (rule trx_run.step [OF trx_run5 trx_step.read_view [OF run5_before_commit(1,2)]])
  then have "trx_run (3 + 0 + 0) run7" unfolding run7_def
    by (rule trx_run.step [OF _ trx_step.purge]) (simp add: run_defs trx_op_defs fresh_view_def)
  then show ?thesis by simp
qed

theorem assign_read_view_snapshot_witness:
  "read_view_sees_trx_id (view_heap (assign_read_view 5 1 run5) 5) 1
   \<and> \<not> read_view_sees_trx_id (view_heap (assign_read_view 5 1 run5) 5) 3"
proof -
  have near: "\<forall>u \<in> set (m_trx_list run5). is_running (trx_heap run5 u) \<longrightarrow> 3 - unat (m_id (trx_heap run5 u)) \<le> 2 ^ 31"
    by (auto intro: order_trans [OF diff_le_self])
  note snap = assign_read_view_snapshot [OF trx_run5 _ run5_before_commit(1,3) near, of 5]
  show ?thesis using snap [of 1] snap [of 3] by (simp add: run_defs trx_op_defs)
qed

theorem purge_view_safe_witness:
  "read_view_sees_trx_id (view_heap run7 5) 1 \<and> update_undo_must_exist run7 1 = Some False"
proof -
  have p: "purge_view run7 = Some 9" "5 \<in> set (m_view_list run7)" "update_undo_must_exist run7 1 = Some False"
    "view_narrow (view_heap run7 5)" "view_narrow (view_heap run7 9)"
    by (simp_all add: run_defs trx_op_defs update_undo_must_exist_def read_view_sees_trx_id_def view_narrow_def)
  from purge_view_safe [OF trx_run7 _ p(1,2), of 1] p(3-5) show ?thesis by simp
qed

text \<open>\<^verbatim>\<open>Trx_sys::is_active\<close> on assigned ids: the transaction is in the list and running.\<close>

lemma is_active_correct:
  assumes "trx_list_inv s" "x < m_max_trx_id s"
  shows "is_active s x \<longleftrightarrow> (\<exists>t \<in> set (m_trx_list s). m_id (trx_heap s t) = x \<and> is_running (trx_heap s t))"
proof (cases "x < get_min_trx_id s")
  case True
  have "sorted_wrt (\<ge>) (map (\<lambda>t. m_id (trx_heap s t)) (m_trx_list s))"
    using assms(1) by (auto simp: trx_list_inv_def sorted_wrt_map intro: sorted_wrt_mono_rel [rotated])
  then have "get_min_trx_id s \<le> m_id (trx_heap s t)" if "t \<in> set (m_trx_list s)" for t
    using that descending_last [of "map (\<lambda>t. m_id (trx_heap s t)) (m_trx_list s)" "m_id (trx_heap s t)"]
    by (auto simp: get_min_trx_id_def last_map)
  then show ?thesis using True leD by (fastforce simp: is_active_def)
next
  case False
  have "is_active s x \<longleftrightarrow> (case get_on_id s x of None \<Rightarrow> False | Some t \<Rightarrow> is_running (trx_heap s t))"
    using False assms(2) by (auto simp: is_active_def)
  also have "\<dots> \<longleftrightarrow> (\<exists>t \<in> set (m_trx_list s). m_id (trx_heap s t) = x \<and> is_running (trx_heap s t))"
    using unique_id [OF assms(1)]
    by (auto simp: get_on_id_def find_None_iff find_Some_iff split: option.splits)
      (metis nth_mem)+
  finally show ?thesis .
qed

section \<open>Recovered transactions and restarts\<close>

lemma split_at_le_append: "split_at_le x ys = (a, b) \<Longrightarrow> ys = a @ b \<and> (\<forall>y \<in> set a. x < y) \<and> (b \<noteq> [] \<longrightarrow> hd b \<le> x)"
  by (induction x ys arbitrary: a b rule: split_at_le.induct) (auto split: if_splits prod.splits)

text \<open>
  C25. \<^verbatim>\<open>trx_list_insert_ordered\<close> puts a recovered transaction behind the first one with a smaller
  id instead of before it, so the list stays in descending order exactly if the new id is the
  largest or the smallest of all.
\<close>

theorem trx_list_insert_ordered_exact:
  assumes "sorted_wrt (>) ys" "x \<notin> set ys"
  shows "sorted_wrt (>) (trx_list_insert_ordered x ys) \<longleftrightarrow> (\<forall>y \<in> set ys. y < x) \<or> (\<forall>y \<in> set ys. x < y)"
proof -
  obtain a b where ab: "split_at_le x ys = (a, b)" by fastforce
  note ys = split_at_le_append [OF ab]
  show ?thesis
  proof (cases b)
    case Nil
    then show ?thesis using ab ys assms(1)
      by (auto simp: trx_list_insert_ordered_def sorted_wrt_append)
  next
    case (Cons p rest)
    then have p: "p < x" using ys assms(2) by auto
    then have "\<forall>y \<in> set b. y < x" using Cons ys assms(1) by (auto simp: sorted_wrt_append)
    show ?thesis
    proof (cases "a = []")
      case True
      then have "trx_list_insert_ordered x ys = x # ys" "\<forall>y \<in> set ys. y < x"
        using ab ys Cons \<open>\<forall>y \<in> set b. y < x\<close> by (simp_all add: trx_list_insert_ordered_def)
      then show ?thesis using assms(1) by simp
    next
      case False
      then have "trx_list_insert_ordered x ys = a @ p # x # rest" using ab Cons by (simp add: trx_list_insert_ordered_def)
      then have "\<not> sorted_wrt (>) (trx_list_insert_ordered x ys)"
        using p less_asym by (auto simp: sorted_wrt_append)
      moreover obtain y where "y \<in> set ys" "x < y" using False ys by (cases a) auto
      moreover have "p \<in> set ys" using ys Cons by simp
      ultimately show ?thesis using p less_asym by blast
    qed
  qed
qed

theorem trx_list_insert_ordered_exact_witness:
  "\<not> sorted_wrt (>) (trx_list_insert_ordered 4 [5, 3])"
  using trx_list_insert_ordered_exact [of "[5, 3]" 4] by simp


fun take_ids :: "nat \<Rightarrow> Trx_sys \<Rightarrow> Trx_sys" where
  "take_ids 0 s = s"
| "take_ids (Suc n) s = snd (get_new_trx_id (take_ids n s))"

lemma and_not_mask_8: "(x :: uint64) AND - 256 = push_bit 8 (drop_bit 8 x)"
proof -
  have m: "(- 256 :: uint64) = NOT (mask 8)" by (simp add: mask_eq_exp_minus_1)
  show ?thesis unfolding m
    by (rule bit_word_eqI) (auto simp: bit_and_iff bit_not_iff bit_mask_iff bit_push_bit_iff bit_drop_bit_eq)
qed

lemma unat_align_up:
  assumes "unat x + 255 < 2 ^ 64"
  shows "unat (ut_uint64_align_up x 256) = (unat x + 255) div 256 * 256"
proof -
  have u: "unat (x + 255) = unat x + 255" using assms by (simp add: unat_add_mod)
  have "ut_uint64_align_up x 256 = push_bit 8 (drop_bit 8 (x + 255))"
    by (simp add: ut_uint64_align_up_def and_not_mask_8)
  moreover have "(unat x + 255) div 256 * 256 < 2 ^ 64"
    using assms div_times_less_eq_dividend [of "unat x + 255" 256] by linarith
  ultimately show ?thesis by (simp add: unat_push_bit_mod unat_drop_bit_div u)
qed

lemma unat_start_max:
  assumes "unat x + 767 < 2 ^ 64"
  shows "unat (start_max_trx_id x) = (unat x + 255) div 256 * 256 + 512"
proof -
  have "(unat x + 255) div 256 * 256 \<le> unat x + 255" by (rule div_times_less_eq_dividend)
  then have "(unat x + 255) div 256 * 256 + 512 < 2 ^ 64" using assms by linarith
  then show ?thesis using assms by (simp add: start_max_trx_id_def unat_add_mod unat_align_up)
qed

lemma take_ids_counter:
  assumes "unat (m_max_trx_id s) + n < 2 ^ 64" "256 dvd unat (m_max_trx_id s)"
  shows "unat (m_max_trx_id (take_ids n s)) = unat (m_max_trx_id s) + n
    \<and> (0 < n \<longrightarrow> unat (trx_id_store (take_ids n s)) = unat (m_max_trx_id s) + (n - 1) div 256 * 256)"
  using assms(1)
proof (induction n)
  case 0
  show ?case by simp
next
  case (Suc n)
  let ?M = "unat (m_max_trx_id s)"
  have IH: "unat (m_max_trx_id (take_ids n s)) = ?M + n"
    "0 < n \<Longrightarrow> unat (trx_id_store (take_ids n s)) = ?M + (n - 1) div 256 * 256"
    using Suc by simp_all
  have mod: "m_max_trx_id (take_ids n s) mod 256 = 0 \<longleftrightarrow> n mod 256 = 0"
    using assms(2) by (simp add: unat_eq_iff unat_mod IH(1)) presburger
  have max: "unat (m_max_trx_id (take_ids (Suc n) s)) = ?M + Suc n"
    using IH(1) Suc.prems by (simp add: get_new_trx_id_eq unat_add_mod)
  have store: "unat (trx_id_store (take_ids (Suc n) s)) = ?M + n div 256 * 256"
  proof (cases "n mod 256 = 0")
    case True
    then have "n div 256 * 256 = n" by auto
    then show ?thesis using mod True IH(1) by (simp add: get_new_trx_id_eq)
  next
    case False
    then have n: "0 < n" by auto
    have "trx_id_store (take_ids (Suc n) s) = trx_id_store (take_ids n s)"
      using mod False by (simp add: get_new_trx_id_eq)
    moreover have "(n - 1) div 256 = n div 256"
    proof (rule div_nat_eqI)
      show "256 * (n div 256) \<le> n - 1" using div_mult_mod_eq [of n 256] False by linarith
      show "n - 1 < 256 * Suc (n div 256)" using div_mult_mod_eq [of n 256] mod_less_divisor [of 256 n] by simp
    qed
    ultimately show ?thesis using IH(2) [OF n] by (simp only:)
  qed
  show ?case using max store by (simp only: diff_Suc_1) simp
qed

text \<open>
  C26. Transaction ids are not reused after a restart: if the counter starts from the stored value
  as at database start and any number of ids (at least one) is handed out before the next
  start, the counter of the next start is above all of them.
\<close>

theorem trx_ids_not_reused:
  assumes "m_max_trx_id s = start_max_trx_id (trx_id_store s)" "unat (trx_id_store s) + n + 2048 < 2 ^ 64" "k < n"
  shows "fst (get_new_trx_id (take_ids k s)) < start_max_trx_id (trx_id_store (take_ids n s))"
proof -
  let ?x = "unat (trx_id_store s)" and ?M = "unat (m_max_trx_id s)"
  have M: "?M = (?x + 255) div 256 * 256 + 512" using assms(1,2) unat_start_max [of "trx_id_store s"] by simp
  have le: "(?x + 255) div 256 * 256 \<le> ?x + 255" by (rule div_times_less_eq_dividend)
  have "256 dvd ?M" unfolding M by (metis dvd_add dvd_triv_right dvd_def numeral_Bit0 mult_2_right) 
  moreover have "?M + n < 2 ^ 64" using M le assms(2) by linarith
  ultimately have c: "unat (m_max_trx_id (take_ids k s)) = ?M + k"
    "unat (trx_id_store (take_ids n s)) = ?M + (n - 1) div 256 * 256"
    using take_ids_counter [of s k] take_ids_counter [of s n] assms(3) by simp_all
  have "256 dvd unat (trx_id_store (take_ids n s))" unfolding c(2) using \<open>256 dvd ?M\<close> by simp
  then have "(unat (trx_id_store (take_ids n s)) + 255) div 256 * 256 = unat (trx_id_store (take_ids n s))" by auto
  moreover have d: "(n - 1) div 256 * 256 \<le> n - 1" by (rule div_times_less_eq_dividend)
  moreover have "unat (trx_id_store (take_ids n s)) + 767 < 2 ^ 64"
    using c(2) d M le assms(2) by linarith
  ultimately have "unat (start_max_trx_id (trx_id_store (take_ids n s))) = ?M + (n - 1) div 256 * 256 + 512"
    using unat_start_max c(2) by simp
  moreover have "n - 1 < (n - 1) div 256 * 256 + 256" using div_mod_decomp [of "n - 1" 256] mod_less_divisor [of 256 "n - 1"] by linarith
  ultimately have "?M + k < unat (start_max_trx_id (trx_id_store (take_ids n s)))" using assms(3) by linarith
  then show ?thesis using c(1) by (simp add: get_new_trx_id_eq word_less_nat_alt)
qed

theorem trx_ids_not_reused_witness:
  "\<exists>s. fst (get_new_trx_id (take_ids 300 s)) < start_max_trx_id (trx_id_store (take_ids 1000 s))"
  using trx_ids_not_reused [of "run0\<lparr>m_max_trx_id := start_max_trx_id 0\<rparr>" 1000 300] by (auto simp: run0_def)

end
