(* ===== verification/Lock_Types.thy ===== *)
theory Lock_Types
  imports Prelude
begin

text \<open>
  The lock structs of \<^verbatim>\<open>lock0types.h\<close> and the mode tables and conflict rules of
  \<^verbatim>\<open>lock0lock.cc\<close>.  A lock's type, mode and flags are the bits of the 16-bit
  \<^verbatim>\<open>m_type_mode\<close>; the records it covers are the set bits of the bitmap the code places
  behind the struct, indexed by heap number.

  The lemmas read the flag words bit by bit (collection \<open>flag_simps\<close>), relate the
  bitmap operations to the set of heap numbers they denote, and characterise when one
  request waits for another.
\<close>

unbundle bit_operations_syntax

section \<open>Definitions\<close>

type_synonym lock_type_t = uint16
type_synonym lock_ptr = nat
type_synonym ltrx_ptr = nat
datatype page_id = Page_id (m_space_id: nat) (m_page_no: nat)

definition LOCK_MODE_MASK :: lock_type_t where "LOCK_MODE_MASK = 0xF"
definition LOCK_TABLE :: lock_type_t where "LOCK_TABLE = 16"
definition LOCK_REC :: lock_type_t where "LOCK_REC = 32"
definition LOCK_TYPE_MASK :: lock_type_t where "LOCK_TYPE_MASK = 0xF0"
definition LOCK_WAIT :: lock_type_t where "LOCK_WAIT = 256"
definition LOCK_ORDINARY :: lock_type_t where "LOCK_ORDINARY = 0"
definition LOCK_GAP :: lock_type_t where "LOCK_GAP = 512"
definition LOCK_REC_NOT_GAP :: lock_type_t where "LOCK_REC_NOT_GAP = 1024"
definition LOCK_INSERT_INTENTION :: lock_type_t where "LOCK_INSERT_INTENTION = 2048"

definition LOCK_IS :: lock_type_t where "LOCK_IS = 0"
definition LOCK_IX :: lock_type_t where "LOCK_IX = 1"
definition LOCK_S :: lock_type_t where "LOCK_S = 2"
definition LOCK_X :: lock_type_t where "LOCK_X = 3"
definition LOCK_NONE :: lock_type_t where "LOCK_NONE = 4"

definition PAGE_HEAP_NO_INFIMUM :: nat where "PAGE_HEAP_NO_INFIMUM = 0"
definition PAGE_HEAP_NO_SUPREMUM :: nat where "PAGE_HEAP_NO_SUPREMUM = 1"
definition ULINT_UNDEFINED :: nat where "ULINT_UNDEFINED = 2 ^ 64 - 1"

text \<open>
  \<^verbatim>\<open>union { Table_lock m_table; Rec_lock m_rec; }\<close>: both members begin with a pointer, to
  the table or to the index; \<open>m_object\<close> is that first word.  The page id is meaningful
  for record locks.
\<close>

record lock_t =
  m_trx :: ltrx_ptr
  m_type_mode :: lock_type_t
  m_object :: nat
  m_page_id :: page_id
  m_n_bits :: nat
  m_bitmap :: "byte list"

definition lock_type :: "lock_t \<Rightarrow> lock_type_t" where
  "lock_type l = m_type_mode l AND LOCK_TYPE_MASK"

definition lock_mode :: "lock_t \<Rightarrow> lock_type_t" where
  "lock_mode l = m_type_mode l AND LOCK_MODE_MASK"

definition precise_mode :: "lock_t \<Rightarrow> lock_type_t" where
  "precise_mode l = m_type_mode l"

definition is_waiting :: "lock_t \<Rightarrow> bool" where
  "is_waiting l = (m_type_mode l AND LOCK_WAIT \<noteq> 0)"

definition rec_is_gap :: "lock_t \<Rightarrow> bool" where
  "rec_is_gap l = (m_type_mode l AND LOCK_GAP \<noteq> 0)"

definition rec_is_not_gap :: "lock_t \<Rightarrow> bool" where
  "rec_is_not_gap l = (m_type_mode l AND LOCK_REC_NOT_GAP \<noteq> 0)"

definition rec_is_insert_intention :: "lock_t \<Rightarrow> bool" where
  "rec_is_insert_intention l = (m_type_mode l AND LOCK_INSERT_INTENTION \<noteq> 0)"

text \<open>The bitmap behind the struct.\<close>

definition rec_set_nth_bit :: "nat \<Rightarrow> lock_t \<Rightarrow> lock_t" where
  "rec_set_nth_bit i l =
     l\<lparr>m_bitmap := (m_bitmap l)[i div 8 := (m_bitmap l ! (i div 8)) OR push_bit (i mod 8) 1]\<rparr>"

definition rec_get_n_bits :: "lock_t \<Rightarrow> nat" where
  "rec_get_n_bits l = m_n_bits l"

definition rec_is_nth_bit_set :: "lock_t \<Rightarrow> nat \<Rightarrow> bool" where
  "rec_is_nth_bit_set l i =
     (if i \<ge> m_n_bits l then False
      else 1 AND drop_bit (i mod 8) (m_bitmap l ! (i div 8)) \<noteq> 0)"

fun rec_find_set_bit_loop :: "lock_t \<Rightarrow> nat \<Rightarrow> nat \<Rightarrow> nat" where
  "rec_find_set_bit_loop l i 0 = ULINT_UNDEFINED"
| "rec_find_set_bit_loop l i (Suc n) =
     (if rec_is_nth_bit_set l i then i else rec_find_set_bit_loop l (i + 1) n)"

definition rec_find_set_bit :: "lock_t \<Rightarrow> nat" where
  "rec_find_set_bit l = rec_find_set_bit_loop l 0 (rec_get_n_bits l)"

definition rec_reset_nth_bit :: "nat \<Rightarrow> lock_t \<Rightarrow> lock_t" where
  "rec_reset_nth_bit i l =
     l\<lparr>m_bitmap := (m_bitmap l)[i div 8 := (m_bitmap l ! (i div 8)) AND NOT (push_bit (i mod 8) 1)]\<rparr>"

definition rec_bitmap_reset :: "lock_t \<Rightarrow> lock_t" where
  "rec_bitmap_reset l =
     l\<lparr>m_bitmap := replicate (rec_get_n_bits l div 8) 0 @ drop (rec_get_n_bits l div 8) (m_bitmap l)\<rparr>"

text \<open>The mode tables, rows and columns in the order IS, IX, S, X.\<close>

definition Lock_compatibility_matrix :: "bool list list" where
  "Lock_compatibility_matrix =
    [[True,  True,  True,  False],
     [True,  True,  False, False],
     [True,  False, True,  False],
     [False, False, False, False]]"

definition Lock_strength_matrix :: "bool list list" where
  "Lock_strength_matrix =
    [[True, False, False, False],
     [True, True,  False, False],
     [True, False, True,  False],
     [True, True,  True,  True]]"

definition mode_stronger_or_eq :: "lock_type_t \<Rightarrow> lock_type_t \<Rightarrow> bool" where
  "mode_stronger_or_eq lhs rhs = Lock_strength_matrix ! unat lhs ! unat rhs"

definition mode_compatible :: "lock_type_t \<Rightarrow> lock_type_t \<Rightarrow> bool" where
  "mode_compatible lhs rhs = Lock_compatibility_matrix ! unat lhs ! unat rhs"

definition rec_blocks :: "lock_t \<Rightarrow> ltrx_ptr \<Rightarrow> lock_type_t \<Rightarrow> bool \<Rightarrow> bool" where
  "rec_blocks l trx type_mode lock_is_on_supremum =
    (if trx \<noteq> m_trx l \<and> \<not> mode_compatible (LOCK_MODE_MASK AND type_mode) (lock_mode l) then
       if (lock_is_on_supremum \<or> type_mode AND LOCK_GAP \<noteq> 0)
          \<and> \<not> type_mode AND LOCK_INSERT_INTENTION \<noteq> 0 then False
       else if \<not> type_mode AND LOCK_INSERT_INTENTION \<noteq> 0 \<and> rec_is_gap l then False
       else if type_mode AND LOCK_GAP \<noteq> 0 \<and> rec_is_not_gap l then False
       else \<not> rec_is_insert_intention l
     else False)"

definition has_to_wait_for :: "lock_t \<Rightarrow> lock_t \<Rightarrow> nat \<Rightarrow> bool" where
  "has_to_wait_for l other heap_no =
    (if m_trx l \<noteq> m_trx other \<and> \<not> mode_compatible (lock_mode l) (lock_mode other) then
       if lock_type l = LOCK_REC
       then rec_blocks other (m_trx l) (precise_mode l) (heap_no = PAGE_HEAP_NO_SUPREMUM)
       else True
     else False)"

section \<open>Flag words bit by bit\<close>

named_theorems flag_simps \<open>reading the bits of a lock's type and mode word\<close>

lemmas lock_flag_defs =
  LOCK_MODE_MASK_def LOCK_TABLE_def LOCK_REC_def LOCK_TYPE_MASK_def LOCK_WAIT_def
  LOCK_GAP_def LOCK_REC_NOT_GAP_def LOCK_INSERT_INTENTION_def
  LOCK_IS_def LOCK_IX_def LOCK_S_def LOCK_X_def

lemma flag_bit_iff:
  "w AND LOCK_WAIT \<noteq> 0 \<longleftrightarrow> bit w 8" "w AND LOCK_GAP \<noteq> 0 \<longleftrightarrow> bit w 9"
  "w AND LOCK_REC_NOT_GAP \<noteq> 0 \<longleftrightarrow> bit w 10"
  "w AND LOCK_INSERT_INTENTION \<noteq> 0 \<longleftrightarrow> bit w 11"
  using and_exp_eq_0_iff_not_bit [of w 8] and_exp_eq_0_iff_not_bit [of w 9]
    and_exp_eq_0_iff_not_bit [of w 10] and_exp_eq_0_iff_not_bit [of w 11]
  by (simp_all add: lock_flag_defs)


text \<open>Setting or clearing a flag outside a mask does not change what the mask extracts.\<close>

lemma and_or_disjoint: "c AND m = 0 \<Longrightarrow> (w OR c) AND m = w AND (m :: lock_type_t)"
  by (simp add: bit.conj_disj_distrib2)

lemma and_not_disjoint:
  assumes "c AND m = 0"
  shows "(w AND NOT c) AND m = w AND (m :: lock_type_t)"
proof (rule bit_eqI)
  fix n
  have "\<not> bit (c AND m) n" using assms by simp
  then have "\<not> (bit c n \<and> bit m n)" by (simp add: bit_and_iff)
  then show "bit ((w AND NOT c) AND m) n = bit (w AND m) n"
    by (auto simp: bit_simps dest: bit_imp_le_length)
qed

lemma mode_mask_or [flag_simps]:
  "(w OR LOCK_WAIT) AND LOCK_MODE_MASK = w AND LOCK_MODE_MASK"
  "(w OR LOCK_REC) AND LOCK_MODE_MASK = w AND LOCK_MODE_MASK"
  "(w OR LOCK_TABLE) AND LOCK_MODE_MASK = w AND LOCK_MODE_MASK"
  "(w OR LOCK_GAP) AND LOCK_MODE_MASK = w AND LOCK_MODE_MASK"
  by (rule and_or_disjoint, simp add: lock_flag_defs)+

lemma mode_mask_clear [flag_simps]:
  "(w AND NOT LOCK_WAIT) AND LOCK_MODE_MASK = w AND LOCK_MODE_MASK"
  "(w AND NOT LOCK_TYPE_MASK) AND LOCK_MODE_MASK = w AND LOCK_MODE_MASK"
  "(w AND NOT (LOCK_GAP OR LOCK_REC_NOT_GAP)) AND LOCK_MODE_MASK = w AND LOCK_MODE_MASK"
  by (rule and_not_disjoint, simp add: lock_flag_defs)+

lemma mode_mask_clear_gap [flag_simps]:
  "(w AND (NOT LOCK_GAP AND NOT LOCK_REC_NOT_GAP)) AND LOCK_MODE_MASK = w AND LOCK_MODE_MASK"
  using mode_mask_clear(3) [of w] by simp

lemma type_mask_flags [flag_simps]:
  "(w OR LOCK_WAIT) AND LOCK_TYPE_MASK = w AND LOCK_TYPE_MASK"
  "(w AND NOT LOCK_WAIT) AND LOCK_TYPE_MASK = w AND LOCK_TYPE_MASK"
  by (rule and_or_disjoint and_not_disjoint, simp add: lock_flag_defs)+

lemma type_mask_rec [flag_simps]:
  "((w AND NOT LOCK_TYPE_MASK) OR LOCK_REC) AND LOCK_TYPE_MASK = LOCK_REC"
proof -
  have "(w AND NOT LOCK_TYPE_MASK) AND LOCK_TYPE_MASK = 0"
    by (simp add: and.assoc)
  then show ?thesis by (simp add: bit.conj_disj_distrib2) (simp add: lock_flag_defs)
qed

lemma bit_flag_words [flag_simps]:
  "bit LOCK_WAIT n \<longleftrightarrow> n = 8" "bit LOCK_REC n \<longleftrightarrow> n = 5" "bit LOCK_TABLE n \<longleftrightarrow> n = 4"
  "bit LOCK_GAP n \<longleftrightarrow> n = 9" "bit LOCK_REC_NOT_GAP n \<longleftrightarrow> n = 10"
  "bit LOCK_INSERT_INTENTION n \<longleftrightarrow> n = 11"
proof -
  have [simp]: "(256 :: lock_type_t) = 2 ^ 8" "(512 :: lock_type_t) = 2 ^ 9"
    "(1024 :: lock_type_t) = 2 ^ 10" "(2048 :: lock_type_t) = 2 ^ 11"
    "(32 :: lock_type_t) = 2 ^ 5" "(16 :: lock_type_t) = 2 ^ 4"
    by simp_all
  show "bit LOCK_WAIT n \<longleftrightarrow> n = 8" "bit LOCK_REC n \<longleftrightarrow> n = 5" "bit LOCK_TABLE n \<longleftrightarrow> n = 4"
    "bit LOCK_GAP n \<longleftrightarrow> n = 9" "bit LOCK_REC_NOT_GAP n \<longleftrightarrow> n = 10"
    "bit LOCK_INSERT_INTENTION n \<longleftrightarrow> n = 11"
    by (auto simp: lock_flag_defs bit_exp_iff simp del: power_numeral)
qed

lemma bit_type_mask [flag_simps]:
  "\<not> bit LOCK_TYPE_MASK 8" "\<not> bit LOCK_TYPE_MASK 9" "\<not> bit LOCK_TYPE_MASK 10" "\<not> bit LOCK_TYPE_MASK 11"
  by (simp_all add: lock_flag_defs)

lemma lock_flag_bits:
  "is_waiting l \<longleftrightarrow> bit (m_type_mode l) 8" "rec_is_gap l \<longleftrightarrow> bit (m_type_mode l) 9"
  "rec_is_not_gap l \<longleftrightarrow> bit (m_type_mode l) 10" "rec_is_insert_intention l \<longleftrightarrow> bit (m_type_mode l) 11"
  unfolding is_waiting_def rec_is_gap_def rec_is_not_gap_def rec_is_insert_intention_def
  by (rule flag_bit_iff)+


section \<open>The bitmap as a set of heap numbers\<close>

text \<open>A record lock's bitmap has one byte for each eight bits.\<close>

definition wf_bitmap :: "lock_t \<Rightarrow> bool" where
  "wf_bitmap l \<longleftrightarrow> m_n_bits l = 8 * length (m_bitmap l) \<and> m_n_bits l < ULINT_UNDEFINED"

lemma rec_is_nth_bit_set_iff:
  "rec_is_nth_bit_set l i \<longleftrightarrow> i < m_n_bits l \<and> bit (m_bitmap l ! (i div 8)) (i mod 8)"
proof -
  have "(1 AND drop_bit n (b :: byte) \<noteq> 0) = bit b n" for n b
    by (simp add: one_and_eq mod_2_eq_odd bit_iff_odd_drop_bit)
  then show ?thesis by (auto simp: rec_is_nth_bit_set_def)
qed

lemma rec_is_nth_bit_set_bound: "rec_is_nth_bit_set l i \<Longrightarrow> i < m_n_bits l"
  by (simp add: rec_is_nth_bit_set_iff)

lemma div_mod_8_eq: "i div 8 = j div 8 \<Longrightarrow> i mod 8 = j mod 8 \<longleftrightarrow> i = (j :: nat)"
  by (metis div_mult_mod_eq)

lemma rec_set_nth_bit_iff:
  assumes "wf_bitmap l" "i < m_n_bits l"
  shows "rec_is_nth_bit_set (rec_set_nth_bit i l) h \<longleftrightarrow> h = i \<or> rec_is_nth_bit_set l h"
proof (cases "h < m_n_bits l")
  case True
  with assms have "h div 8 < length (m_bitmap l)" "i div 8 < length (m_bitmap l)"
    by (auto simp: wf_bitmap_def)
  moreover have "h mod 8 < 8" "i mod 8 < 8" by simp_all
  ultimately show ?thesis using True div_mod_8_eq [of h i]
    by (auto simp: rec_is_nth_bit_set_iff rec_set_nth_bit_def nth_list_update bit_simps)
next
  case False
  with assms show ?thesis by (auto simp: rec_is_nth_bit_set_iff rec_set_nth_bit_def)
qed

lemma rec_reset_nth_bit_iff:
  assumes "wf_bitmap l"
  shows "rec_is_nth_bit_set (rec_reset_nth_bit i l) h \<longleftrightarrow> h \<noteq> i \<and> rec_is_nth_bit_set l h"
proof (cases "h < m_n_bits l")
  case True
  with assms have "h div 8 < length (m_bitmap l)" by (auto simp: wf_bitmap_def)
  moreover have "h mod 8 < 8" "i mod 8 < 8" by simp_all
  ultimately show ?thesis using True div_mod_8_eq [of h i]
    by (cases "h div 8 = i div 8")
       (auto simp: rec_is_nth_bit_set_iff rec_reset_nth_bit_def bit_simps)
next
  case False
  then show ?thesis by (auto simp: rec_is_nth_bit_set_iff rec_reset_nth_bit_def)
qed

lemma rec_bitmap_reset_none:
  assumes "wf_bitmap l"
  shows "\<not> rec_is_nth_bit_set (rec_bitmap_reset l) h"
  using assms by (auto simp: rec_is_nth_bit_set_iff rec_bitmap_reset_def rec_get_n_bits_def wf_bitmap_def)

lemma rec_bit_ops_fields [simp]:
  "m_trx (rec_set_nth_bit i l) = m_trx l" "m_type_mode (rec_set_nth_bit i l) = m_type_mode l"
  "m_object (rec_set_nth_bit i l) = m_object l" "m_page_id (rec_set_nth_bit i l) = m_page_id l"
  "m_n_bits (rec_set_nth_bit i l) = m_n_bits l"
  "m_trx (rec_reset_nth_bit i l) = m_trx l" "m_type_mode (rec_reset_nth_bit i l) = m_type_mode l"
  "m_object (rec_reset_nth_bit i l) = m_object l" "m_page_id (rec_reset_nth_bit i l) = m_page_id l"
  "m_n_bits (rec_reset_nth_bit i l) = m_n_bits l"
  "m_trx (rec_bitmap_reset l) = m_trx l" "m_type_mode (rec_bitmap_reset l) = m_type_mode l"
  "m_object (rec_bitmap_reset l) = m_object l" "m_page_id (rec_bitmap_reset l) = m_page_id l"
  "m_n_bits (rec_bitmap_reset l) = m_n_bits l"
  by (simp_all add: rec_set_nth_bit_def rec_reset_nth_bit_def rec_bitmap_reset_def)

lemma wf_bitmap_ops [simp]:
  "wf_bitmap (rec_set_nth_bit i l) = wf_bitmap l" "wf_bitmap (rec_reset_nth_bit i l) = wf_bitmap l"
  "wf_bitmap l \<Longrightarrow> wf_bitmap (rec_bitmap_reset l)"
  by (auto simp: wf_bitmap_def rec_set_nth_bit_def rec_reset_nth_bit_def rec_bitmap_reset_def
      rec_get_n_bits_def)

lemma wf_bitmap_type_mode [simp]: "wf_bitmap (l\<lparr>m_type_mode := w\<rparr>) = wf_bitmap l"
  by (simp add: wf_bitmap_def)

lemma rec_is_nth_bit_set_type_mode [simp]:
  "rec_is_nth_bit_set (l\<lparr>m_type_mode := w\<rparr>) i = rec_is_nth_bit_set l i"
  by (simp add: rec_is_nth_bit_set_def)

text \<open>The search for a set bit finds the smallest one.\<close>

lemma rec_find_set_bit_loop_none:
  "(\<And>j. i \<le> j \<Longrightarrow> \<not> rec_is_nth_bit_set l j) \<Longrightarrow> rec_find_set_bit_loop l i n = ULINT_UNDEFINED"
  by (induction n arbitrary: i) auto

lemma rec_find_set_bit_loop_found:
  "rec_is_nth_bit_set l j \<Longrightarrow> i \<le> j \<Longrightarrow> j < i + n \<Longrightarrow>
     rec_is_nth_bit_set l (rec_find_set_bit_loop l i n)"
proof (induction n arbitrary: i)
  case (Suc n)
  then show ?case by (cases "i = j") auto
qed simp

lemma rec_find_set_bit_set:
  assumes "rec_is_nth_bit_set l h"
  shows "rec_is_nth_bit_set l (rec_find_set_bit l)"
  using rec_find_set_bit_loop_found [OF assms, of 0 "m_n_bits l"] rec_is_nth_bit_set_bound [OF assms]
  by (simp add: rec_find_set_bit_def rec_get_n_bits_def)

lemma rec_find_set_bit_unique:
  assumes "rec_is_nth_bit_set l h" "\<And>j. rec_is_nth_bit_set l j \<Longrightarrow> j = h"
  shows "rec_find_set_bit l = h"
  using assms(2) rec_find_set_bit_set [OF assms(1)] by blast

lemma rec_find_set_bit_undefined:
  assumes "m_n_bits l < ULINT_UNDEFINED"
  shows "rec_find_set_bit l = ULINT_UNDEFINED \<longleftrightarrow> (\<forall>h. \<not> rec_is_nth_bit_set l h)"
proof
  assume "rec_find_set_bit l = ULINT_UNDEFINED"
  then show "\<forall>h. \<not> rec_is_nth_bit_set l h"
    using assms rec_find_set_bit_set rec_is_nth_bit_set_bound by (metis less_asym)
next
  assume "\<forall>h. \<not> rec_is_nth_bit_set l h"
  then show "rec_find_set_bit l = ULINT_UNDEFINED"
    by (simp add: rec_find_set_bit_def rec_find_set_bit_loop_none)
qed


section \<open>Modes\<close>

lemma mode_cases:
  assumes "unat (m :: lock_type_t) < 4"
  shows "m = LOCK_IS \<or> m = LOCK_IX \<or> m = LOCK_S \<or> m = LOCK_X"
proof -
  have "unat m = 0 \<or> unat m = 1 \<or> unat m = 2 \<or> unat m = 3" using assms by linarith
  then show ?thesis by (simp add: lock_flag_defs word_unat_eq_iff)
qed

lemma mode_compatible_sym:
  assumes "unat m < 4" "unat n < 4"
  shows "mode_compatible m n = mode_compatible n m"
  using mode_cases [OF assms(1)] mode_cases [OF assms(2)]
  by (elim disjE) (simp_all add: mode_compatible_def Lock_compatibility_matrix_def lock_flag_defs)

lemma stronger_blocks_more:
  assumes "unat m < 4" "unat n < 4" "unat k < 4" "mode_stronger_or_eq m n" "mode_compatible k m"
  shows "mode_compatible k n"
  using mode_cases [OF assms(1)] mode_cases [OF assms(2)] mode_cases [OF assms(3)] assms(4,5)
  by (elim disjE) (simp_all add: mode_compatible_def Lock_compatibility_matrix_def
      mode_stronger_or_eq_def Lock_strength_matrix_def lock_flag_defs)

section \<open>Conflicts on a record\<close>

text \<open>
  Two locks conflict on the record with heap number \<open>h\<close> when both cover the record itself (the
  bit is set, the lock is not a gap lock, not an insert intention, the record is not the
  supremum) for different transactions in incompatible modes.  Gap locks never conflict.
\<close>

definition rec_conflict :: "nat \<Rightarrow> lock_t \<Rightarrow> lock_t \<Rightarrow> bool" where
  "rec_conflict h l k \<longleftrightarrow>
     h \<noteq> PAGE_HEAP_NO_SUPREMUM \<and> m_trx l \<noteq> m_trx k
     \<and> rec_is_nth_bit_set l h \<and> rec_is_nth_bit_set k h
     \<and> \<not> mode_compatible (lock_mode l) (lock_mode k)
     \<and> \<not> rec_is_gap l \<and> \<not> rec_is_gap k
     \<and> \<not> rec_is_insert_intention l \<and> \<not> rec_is_insert_intention k"

lemma rec_conflict_sym:
  assumes "unat (lock_mode l) < 4" "unat (lock_mode k) < 4"
  shows "rec_conflict h l k = rec_conflict h k l"
  using mode_compatible_sym [OF assms] by (auto simp: rec_conflict_def)

lemma rec_conflict_waits:
  assumes "lock_type l = LOCK_REC" "rec_conflict h l k"
  shows "has_to_wait_for l k h"
  using assms
  by (auto simp: rec_conflict_def has_to_wait_for_def rec_blocks_def precise_mode_def
      rec_is_gap_def rec_is_insert_intention_def lock_mode_def and.commute [of LOCK_MODE_MASK])

text \<open>What a request covers: the record, the gap before it, or the insertion into the gap.\<close>

definition requests_insert :: "lock_type_t \<Rightarrow> bool" where
  "requests_insert w \<longleftrightarrow> bit w 11"

definition covers_record :: "lock_type_t \<Rightarrow> bool \<Rightarrow> bool" where
  "covers_record w supremum \<longleftrightarrow> \<not> supremum \<and> \<not> bit w 9"

definition covers_gap :: "lock_type_t \<Rightarrow> bool" where
  "covers_gap w \<longleftrightarrow> \<not> bit w 10"

text \<open>
  The conflict rule of \<^verbatim>\<open>Lock::rec_blocks\<close> in terms of what the locks protect: a request
  waits for a lock exactly when they belong to different transactions in incompatible modes,
  the lock is not an insert intention, and either the request inserts into a gap the lock
  covers, or both the request and the lock cover the record itself.  Insert intentions are
  requested with the gap flag, as every caller does.
\<close>
theorem rec_blocks_covers:
  assumes "requests_insert type_mode \<Longrightarrow> bit type_mode 9"
  shows "rec_blocks l trx type_mode supremum \<longleftrightarrow>
    trx \<noteq> m_trx l \<and> \<not> mode_compatible (type_mode AND LOCK_MODE_MASK) (lock_mode l)
    \<and> \<not> requests_insert (m_type_mode l)
    \<and> (if requests_insert type_mode then covers_gap (m_type_mode l)
        else covers_record type_mode supremum \<and> covers_record (m_type_mode l) False)"
  using assms
  by (auto simp: rec_blocks_def and.commute [of LOCK_MODE_MASK] flag_bit_iff lock_flag_bits
      requests_insert_def covers_record_def covers_gap_def)

definition sample_x_lock :: lock_t where
  "sample_x_lock = \<lparr>m_trx = 7, m_type_mode = LOCK_X OR LOCK_REC, m_object = 0, m_page_id = Page_id 0 3,
     m_n_bits = 72, m_bitmap = [4, 0, 0, 0, 0, 0, 0, 0, 0]\<rparr>"

theorem rec_blocks_covers_witness:
  "rec_blocks sample_x_lock 8 (LOCK_S OR LOCK_GAP OR LOCK_INSERT_INTENTION) False
   \<and> \<not> rec_blocks sample_x_lock 8 (LOCK_S OR LOCK_GAP) False"
  using rec_blocks_covers [of "LOCK_S OR LOCK_GAP OR LOCK_INSERT_INTENTION" sample_x_lock 8 False]
    rec_blocks_covers [of "LOCK_S OR LOCK_GAP" sample_x_lock 8 False]
  by (simp add: requests_insert_def covers_gap_def covers_record_def sample_x_lock_def lock_mode_def
      lock_flag_defs mode_compatible_def Lock_compatibility_matrix_def)

end
