(* ===== verification/Lock_Sys.thy ===== *)
theory Lock_Sys
  imports Lock_Types "HOL-Library.Monad_Syntax"
begin

text \<open>
  The lock system of \<^verbatim>\<open>lock0lock.cc\<close>, with the parts of transactions
  (\<^verbatim>\<open>trx0trx.cc\<close>) and query threads (\<^verbatim>\<open>que0que.cc\<close>) that lock waits touch.

  The state holds the lock structs by address, the record-lock queues by page id
  (\<^verbatim>\<open>m_rec_locks\<close>), the lock list of each table, the transactions, the query threads and
  their graphs.  The intrusive lists are HOL lists: theory \<open>Ut_List\<close> shows that
  \<^verbatim>\<open>ut_list_base\<close> implements them.  \<open>None\<close> is the abort of a failed \<^verbatim>\<open>ut_a\<close> or
  \<^verbatim>\<open>ut_error\<close>, a null dereference, or a loop that does not end; the debug-only \<^verbatim>\<open>ut_ad\<close>
  checks are not executed.  All operations run under the kernel mutex, so each is one atomic
  step.  Log output is not modelled.
\<close>

section \<open>State\<close>

type_synonym thr_ptr = nat
type_synonym fork_ptr = nat
type_synonym table_ptr = nat

datatype Trx_isolation =
  TRX_ISO_READ_UNCOMMITTED | TRX_ISO_READ_COMMITTED | TRX_ISO_REPEATABLE_READ | TRX_ISO_SERIALIZABLE

datatype que_state = TRX_QUE_RUNNING | TRX_QUE_LOCK_WAIT | TRX_QUE_ROLLING_BACK | TRX_QUE_COMMITTING

datatype thr_state =
  QUE_THR_RUNNING | QUE_THR_PROCEDURE_WAIT | QUE_THR_COMPLETED | QUE_THR_COMMAND_WAIT
| QUE_THR_LOCK_WAIT | QUE_THR_SIG_REPLY_WAIT | QUE_THR_SUSPENDED | QUE_THR_ERROR

datatype fork_state = QUE_FORK_ACTIVE | QUE_FORK_COMMAND_WAIT | QUE_FORK_INVALID | QUE_FORK_BEING_FREED

text \<open>The error codes the lock system returns or tests; \<open>DB_OTHER\<close> stands for every other code.\<close>

datatype db_err = DB_SUCCESS | DB_LOCK_WAIT | DB_DEADLOCK | DB_QUE_THR_SUSPENDED | DB_OTHER nat

record que_fork_t =
  fork_state :: fork_state
  is_rollback_fork :: bool
  fork_trx :: ltrx_ptr
  fork_n_active_thrs :: nat

record que_thr_t =
  thr_graph :: fork_ptr
  thr_state :: thr_state
  thr_is_active :: bool

record ltrx_t =
  trx_locks :: "lock_ptr list"
  wait_lock :: "lock_ptr option"
  trx_que_state :: que_state
  isolation_level :: Trx_isolation
  deadlock_mark :: nat
  was_chosen_as_deadlock_victim :: bool
  n_undo :: nat
  error_state :: db_err
  signals :: "nat list"
  wait_thrs :: "thr_ptr list"
  trx_n_active_thrs :: nat

record lock_sys =
  lock_heap :: "lock_ptr \<Rightarrow> lock_t"
  next_lock :: lock_ptr
  rec_locks :: "page_id \<Rightarrow> lock_ptr list option"
  table_locks :: "table_ptr \<Rightarrow> lock_ptr list"
  ltrx_heap :: "ltrx_ptr \<Rightarrow> ltrx_t"
  ltrx_list :: "ltrx_ptr list"
  thr_heap :: "thr_ptr \<Rightarrow> que_thr_t"
  fork_heap :: "fork_ptr \<Rightarrow> que_fork_t"
  deadlock_found :: bool

text \<open>
  What the lock system reads of an index page: its id, the number of heap records
  (\<^verbatim>\<open>page_dir_get_n_heap\<close>), and the heap numbers along the record list from infimum to supremum.
\<close>

record lock_block =
  b_page_id :: page_id
  b_n_heap :: nat
  b_heap_nos :: "nat list"

definition upd_lock :: "lock_ptr \<Rightarrow> (lock_t \<Rightarrow> lock_t) \<Rightarrow> lock_sys \<Rightarrow> lock_sys" where
  "upd_lock p f s = s\<lparr>lock_heap := (lock_heap s)(p := f (lock_heap s p))\<rparr>"

definition upd_trx :: "ltrx_ptr \<Rightarrow> (ltrx_t \<Rightarrow> ltrx_t) \<Rightarrow> lock_sys \<Rightarrow> lock_sys" where
  "upd_trx t f s = s\<lparr>ltrx_heap := (ltrx_heap s)(t := f (ltrx_heap s t))\<rparr>"

definition upd_thr :: "thr_ptr \<Rightarrow> (que_thr_t \<Rightarrow> que_thr_t) \<Rightarrow> lock_sys \<Rightarrow> lock_sys" where
  "upd_thr p f s = s\<lparr>thr_heap := (thr_heap s)(p := f (thr_heap s p))\<rparr>"

definition upd_fork :: "fork_ptr \<Rightarrow> (que_fork_t \<Rightarrow> que_fork_t) \<Rightarrow> lock_sys \<Rightarrow> lock_sys" where
  "upd_fork p f s = s\<lparr>fork_heap := (fork_heap s)(p := f (fork_heap s p))\<rparr>"

text \<open>A failed \<^verbatim>\<open>ut_a\<close> ends the process.\<close>

definition ut_a :: "bool \<Rightarrow> unit option" where
  "ut_a b = (if b then Some () else None)"

section \<open>Query threads\<close>

definition thr_get_trx :: "lock_sys \<Rightarrow> thr_ptr \<Rightarrow> ltrx_ptr" where
  "thr_get_trx s thr = fork_trx (fork_heap s (thr_graph (thr_heap s thr)))"

definition que_thr_stop :: "thr_ptr \<Rightarrow> lock_sys \<Rightarrow> lock_sys \<times> bool" where
  "que_thr_stop thr s =
    (let graph = fork_heap s (thr_graph (thr_heap s thr));
         trx = fork_trx graph;
         t = ltrx_heap s trx
     in if fork_state graph = QUE_FORK_COMMAND_WAIT then
          (upd_thr thr (thr_state_update (\<lambda>_. QUE_THR_SUSPENDED)) s, True)
        else if trx_que_state t = TRX_QUE_LOCK_WAIT then
          (upd_thr thr (thr_state_update (\<lambda>_. QUE_THR_LOCK_WAIT))
             (upd_trx trx (wait_thrs_update (\<lambda>ts. thr # ts)) s), True)
        else if error_state t \<noteq> DB_SUCCESS \<and> error_state t \<noteq> DB_LOCK_WAIT then
          (upd_thr thr (thr_state_update (\<lambda>_. QUE_THR_COMPLETED)) s, True)
        else if signals t \<noteq> [] \<and> \<not> is_rollback_fork graph then
          (upd_thr thr (thr_state_update (\<lambda>_. QUE_THR_SUSPENDED)) s, True)
        else (s, False))"

definition que_thr_move_to_run_state :: "thr_ptr \<Rightarrow> lock_sys \<Rightarrow> lock_sys" where
  "que_thr_move_to_run_state thr s =
    (let s1 = (if \<not> thr_is_active (thr_heap s thr)
               then upd_thr thr (thr_is_active_update (\<lambda>_. True))
                      (upd_trx (thr_get_trx s thr) (trx_n_active_thrs_update Suc)
                        (upd_fork (thr_graph (thr_heap s thr)) (fork_n_active_thrs_update Suc) s))
               else s)
     in upd_thr thr (thr_state_update (\<lambda>_. QUE_THR_RUNNING)) s1)"

text \<open>Waking the operating-system thread (\<^verbatim>\<open>release_user_thread_if_suspended\<close>) has no effect on this state.\<close>

definition que_thr_end_wait_no_next_thr :: "thr_ptr \<Rightarrow> lock_sys \<Rightarrow> lock_sys option" where
  "que_thr_end_wait_no_next_thr thr s = do {
     ut_a (thr_state (thr_heap s thr) = QUE_THR_LOCK_WAIT);
     Some (que_thr_move_to_run_state thr s) }"

text \<open>\<^verbatim>\<open>Trx::end_lock_wait\<close>: the loop takes the front thread until the list is empty.\<close>

fun end_wait_thrs :: "ltrx_ptr \<Rightarrow> thr_ptr list \<Rightarrow> lock_sys \<Rightarrow> lock_sys option" where
  "end_wait_thrs trx [] s = Some s"
| "end_wait_thrs trx (thr # thrs) s = do {
     s1 \<leftarrow> que_thr_end_wait_no_next_thr thr s;
     end_wait_thrs trx thrs (upd_trx trx (wait_thrs_update (remove1 thr)) s1) }"

definition end_lock_wait :: "ltrx_ptr \<Rightarrow> lock_sys \<Rightarrow> lock_sys option" where
  "end_lock_wait trx s = do {
     s1 \<leftarrow> end_wait_thrs trx (wait_thrs (ltrx_heap s trx)) s;
     Some (upd_trx trx (trx_que_state_update (\<lambda>_. TRX_QUE_RUNNING)) s1) }"

section \<open>Lock structs\<close>

definition set_trx_wait :: "lock_ptr \<Rightarrow> ltrx_ptr \<Rightarrow> lock_sys \<Rightarrow> lock_sys" where
  "set_trx_wait p trx s =
     upd_lock p (m_type_mode_update (\<lambda>w. w OR LOCK_WAIT))
       (upd_trx trx (wait_lock_update (\<lambda>_. Some p)) s)"

definition lock_reset :: "lock_ptr \<Rightarrow> lock_sys \<Rightarrow> lock_sys" where
  "lock_reset p s =
     upd_trx (m_trx (lock_heap s p)) (wait_lock_update (\<lambda>_. None))
       (upd_lock p (m_type_mode_update (\<lambda>w. w AND NOT LOCK_WAIT)) s)"

section \<open>Searching the queues\<close>

text \<open>Elements before \<open>p\<close> in a queue.\<close>

definition ahead :: "lock_ptr \<Rightarrow> lock_ptr list \<Rightarrow> lock_ptr list" where
  "ahead p q = takeWhile (\<lambda>x. x \<noteq> p) q"

definition page_queue :: "lock_sys \<Rightarrow> page_id \<Rightarrow> lock_ptr list" where
  "page_queue s pg = (case rec_locks s pg of None \<Rightarrow> [] | Some q \<Rightarrow> q)"

fun rec_get_prev_loop :: "lock_sys \<Rightarrow> lock_ptr \<Rightarrow> nat \<Rightarrow> lock_ptr option \<Rightarrow> lock_ptr list \<Rightarrow> lock_ptr option" where
  "rec_get_prev_loop s in_lock heap_no prev [] = None"
| "rec_get_prev_loop s in_lock heap_no prev (p # q) =
     (if p = in_lock then prev
      else rec_get_prev_loop s in_lock heap_no
             (if rec_is_nth_bit_set (lock_heap s p) heap_no then Some p else prev) q)"

definition rec_get_prev :: "lock_sys \<Rightarrow> lock_ptr \<Rightarrow> nat \<Rightarrow> lock_ptr option" where
  "rec_get_prev s in_lock heap_no =
     rec_get_prev_loop s in_lock heap_no None (page_queue s (m_page_id (lock_heap s in_lock)))"

definition table_has :: "lock_sys \<Rightarrow> ltrx_ptr \<Rightarrow> table_ptr \<Rightarrow> lock_type_t \<Rightarrow> lock_ptr option" where
  "table_has s trx table mode =
     find (\<lambda>p. m_trx (lock_heap s p) = trx \<and> mode_stronger_or_eq (lock_mode (lock_heap s p)) mode)
       (rev (table_locks s table))"

definition rec_has_expl :: "lock_sys \<Rightarrow> page_id \<Rightarrow> lock_type_t \<Rightarrow> nat \<Rightarrow> ltrx_ptr \<Rightarrow> lock_ptr option" where
  "rec_has_expl s page_id precise heap_no trx =
     find (\<lambda>p. let l = lock_heap s p in
         m_trx l = trx \<and> rec_is_nth_bit_set l heap_no
         \<and> mode_stronger_or_eq (lock_mode l) (precise AND LOCK_MODE_MASK) \<and> \<not> is_waiting l
         \<and> (\<not> rec_is_not_gap l \<or> precise AND LOCK_REC_NOT_GAP \<noteq> 0 \<or> heap_no = PAGE_HEAP_NO_SUPREMUM)
         \<and> (\<not> rec_is_gap l \<or> precise AND LOCK_GAP \<noteq> 0 \<or> heap_no = PAGE_HEAP_NO_SUPREMUM)
         \<and> \<not> rec_is_insert_intention l)
       (page_queue s page_id)"

definition rec_other_has_conflicting :: "lock_sys \<Rightarrow> page_id \<Rightarrow> lock_type_t \<Rightarrow> nat \<Rightarrow> ltrx_ptr \<Rightarrow> lock_ptr option" where
  "rec_other_has_conflicting s page_id mode heap_no trx =
     find (\<lambda>p. rec_is_nth_bit_set (lock_heap s p) heap_no
         \<and> rec_blocks (lock_heap s p) trx mode (heap_no = PAGE_HEAP_NO_SUPREMUM))
       (page_queue s page_id)"

definition rec_find_similar_on_page :: "lock_sys \<Rightarrow> lock_type_t \<Rightarrow> nat \<Rightarrow> lock_ptr list \<Rightarrow> ltrx_ptr \<Rightarrow> lock_ptr option" where
  "rec_find_similar_on_page s type_mode heap_no locks trx =
     find (\<lambda>p. m_trx (lock_heap s p) = trx \<and> m_type_mode (lock_heap s p) = type_mode
         \<and> rec_get_n_bits (lock_heap s p) > heap_no) locks"

section \<open>Creating record locks\<close>

definition LOCK_PAGE_BITMAP_MARGIN :: nat where "LOCK_PAGE_BITMAP_MARGIN = 64"

definition rec_create_low ::
  "page_id \<Rightarrow> lock_type_t \<Rightarrow> nat \<Rightarrow> nat \<Rightarrow> nat \<Rightarrow> ltrx_ptr \<Rightarrow> lock_sys \<Rightarrow> lock_sys \<times> lock_ptr" where
  "rec_create_low page_id type_mode0 heap_no n_bits index trx s =
    (let type_mode = (if heap_no = PAGE_HEAP_NO_SUPREMUM
                      then type_mode0 AND NOT (LOCK_GAP OR LOCK_REC_NOT_GAP) else type_mode0);
         n_bytes = 1 + (n_bits + LOCK_PAGE_BITMAP_MARGIN) div 8;
         p = next_lock s;
         l = rec_set_nth_bit heap_no
               (rec_bitmap_reset \<lparr>m_trx = trx, m_type_mode = (type_mode AND NOT LOCK_TYPE_MASK) OR LOCK_REC,
                  m_object = index, m_page_id = page_id, m_n_bits = n_bytes * 8,
                  m_bitmap = replicate n_bytes 0\<rparr>);
         s1 = upd_trx trx (trx_locks_update (\<lambda>ls. ls @ [p])) (s\<lparr>next_lock := p + 1\<rparr>);
         s2 = upd_lock p (\<lambda>_. l) s1;
         s3 = s2\<lparr>rec_locks := (rec_locks s2)(page_id \<mapsto>
                (case rec_locks s2 page_id of None \<Rightarrow> [p] | Some q \<Rightarrow> q @ [p]))\<rparr>
     in (if type_mode AND LOCK_WAIT \<noteq> 0 then set_trx_wait p trx s3 else s3, p))"

definition rec_create ::
  "lock_type_t \<Rightarrow> lock_block \<Rightarrow> nat \<Rightarrow> nat \<Rightarrow> ltrx_ptr \<Rightarrow> lock_sys \<Rightarrow> lock_sys \<times> lock_ptr" where
  "rec_create type_mode block heap_no index trx s =
     rec_create_low (b_page_id block) type_mode heap_no (b_n_heap block) index trx s"

definition rec_add_to_queue ::
  "lock_type_t \<Rightarrow> lock_block \<Rightarrow> nat \<Rightarrow> nat \<Rightarrow> ltrx_ptr \<Rightarrow> lock_sys \<Rightarrow> lock_sys \<times> lock_ptr" where
  "rec_add_to_queue type_mode0 block heap_no index trx s =
    (let type_mode1 = type_mode0 OR LOCK_REC;
         type_mode = (if heap_no = PAGE_HEAP_NO_SUPREMUM
                      then type_mode1 AND NOT (LOCK_GAP OR LOCK_REC_NOT_GAP) else type_mode1);
         q = page_queue s (b_page_id block)
     in if list_ex (\<lambda>p. is_waiting (lock_heap s p) \<and> rec_is_nth_bit_set (lock_heap s p) heap_no) q then
          rec_create type_mode block heap_no index trx s
        else if type_mode AND LOCK_WAIT = 0 then
          (case rec_find_similar_on_page s type_mode heap_no q trx of
             Some p \<Rightarrow> (upd_lock p (rec_set_nth_bit heap_no) s, p)
           | None \<Rightarrow> rec_create type_mode block heap_no index trx s)
        else rec_create type_mode block heap_no index trx s)"

text \<open>\<open>lock->next()\<close> of the front element is null exactly when the queue has one element.\<close>

definition rec_lock_fast ::
  "bool \<Rightarrow> lock_type_t \<Rightarrow> lock_block \<Rightarrow> nat \<Rightarrow> nat \<Rightarrow> thr_ptr \<Rightarrow> lock_sys \<Rightarrow> lock_sys \<times> bool" where
  "rec_lock_fast impl mode block heap_no index thr s =
    (let trx = thr_get_trx s thr in
     case rec_locks s (b_page_id block) of
       None \<Rightarrow> (if \<not> impl then fst (rec_create mode block heap_no index trx s) else s, True)
     | Some q \<Rightarrow>
         let p = hd q; l = lock_heap s p in
         if tl q \<noteq> [] then (s, False)
         else if m_trx l \<noteq> trx \<or> m_type_mode l \<noteq> mode OR LOCK_REC \<or> rec_get_n_bits l \<le> heap_no
         then (s, False)
         else (if \<not> impl \<and> \<not> rec_is_nth_bit_set l heap_no
               then upd_lock p (rec_set_nth_bit heap_no) s else s, True))"


section \<open>Granting and removing requests\<close>

text \<open>
  \<^verbatim>\<open>for (auto lock : queue)\<close> over the locks of a page.  The iterator follows the live list, so
  elements appended by the body are visited too.
\<close>

partial_function (option) queue_for ::
  "(lock_ptr \<Rightarrow> lock_sys \<Rightarrow> lock_sys option) \<Rightarrow> page_id \<Rightarrow> nat \<Rightarrow> lock_sys \<Rightarrow> lock_sys option" where
  "queue_for body pg i s =
     (case rec_locks s pg of
        None \<Rightarrow> Some s
      | Some q \<Rightarrow> if i < length q then
                    (case body (q ! i) s of None \<Rightarrow> None | Some s' \<Rightarrow> queue_for body pg (i + 1) s')
                  else Some s)"

declare queue_for.simps [code]

text \<open>The search stops at the waiting lock, which its callers take from the queue itself.\<close>

fun rec_has_to_wait_in_queue :: "lock_sys \<Rightarrow> lock_ptr list \<Rightarrow> lock_ptr \<Rightarrow> nat \<Rightarrow> bool" where
  "rec_has_to_wait_in_queue s [] waiting_lock heap_no = False"
| "rec_has_to_wait_in_queue s (p # q) waiting_lock heap_no =
     (if p = waiting_lock then False
      else if heap_no < rec_get_n_bits (lock_heap s p) \<and> rec_is_nth_bit_set (lock_heap s p) heap_no
              \<and> has_to_wait_for (lock_heap s waiting_lock) (lock_heap s p) heap_no then True
      else rec_has_to_wait_in_queue s q waiting_lock heap_no)"

definition grant :: "lock_ptr \<Rightarrow> lock_sys \<Rightarrow> lock_sys option" where
  "grant p s =
    (let s1 = lock_reset p s; trx = m_trx (lock_heap s1 p) in
     if trx_que_state (ltrx_heap s1 trx) = TRX_QUE_LOCK_WAIT then end_lock_wait trx s1 else Some s1)"

definition rec_cancel :: "lock_ptr \<Rightarrow> lock_sys \<Rightarrow> lock_sys option" where
  "rec_cancel p s =
    (let s1 = upd_lock p (rec_reset_nth_bit (rec_find_set_bit (lock_heap s p))) s;
         s2 = lock_reset p s1
     in end_lock_wait (m_trx (lock_heap s2 p)) s2)"

definition rec_grant_if_free :: "page_id \<Rightarrow> lock_ptr \<Rightarrow> lock_sys \<Rightarrow> lock_sys option" where
  "rec_grant_if_free pg p s =
    (if is_waiting (lock_heap s p)
        \<and> \<not> rec_has_to_wait_in_queue s (page_queue s pg) p (rec_find_set_bit (lock_heap s p))
     then grant p s else Some s)"

definition rec_dequeue_from_page :: "lock_ptr \<Rightarrow> lock_sys \<Rightarrow> lock_sys option" where
  "rec_dequeue_from_page p s =
    (let pg = m_page_id (lock_heap s p) in do {
       ut_a (rec_locks s pg \<noteq> None);
       ut_a (page_queue s pg \<noteq> []);
       (let q = remove1 p (page_queue s pg);
            s1 = s\<lparr>rec_locks := (rec_locks s)(pg := (if q = [] then None else Some q))\<rparr>;
            s2 = upd_trx (m_trx (lock_heap s p)) (trx_locks_update (remove1 p)) s1
        in if q \<noteq> [] then queue_for (rec_grant_if_free pg) pg 0 s2 else Some s2) })"

definition rec_discard :: "lock_ptr \<Rightarrow> lock_sys \<Rightarrow> lock_sys option" where
  "rec_discard in_lock s =
    (let pg = m_page_id (lock_heap s in_lock) in do {
       ut_a (rec_locks s pg \<noteq> None);
       Some (upd_trx (m_trx (lock_heap s in_lock)) (trx_locks_update (remove1 in_lock))
               (s\<lparr>rec_locks := (rec_locks s)(pg := None)\<rparr>)) })"

text \<open>The loop follows the next pointers in the lock structs, which erasing the queue leaves in place.\<close>

fun rec_discard_all :: "lock_ptr list \<Rightarrow> lock_sys \<Rightarrow> lock_sys option" where
  "rec_discard_all [] s = Some s"
| "rec_discard_all (p # q) s = Option.bind (rec_discard p s) (rec_discard_all q)"

definition rec_free_all_from_discard_page :: "page_id \<Rightarrow> lock_sys \<Rightarrow> lock_sys option" where
  "rec_free_all_from_discard_page pg s = rec_discard_all (page_queue s pg) s"

definition rec_reset_and_release_wait :: "page_id \<Rightarrow> nat \<Rightarrow> lock_sys \<Rightarrow> lock_sys option" where
  "rec_reset_and_release_wait pg heap_no s =
     queue_for (\<lambda>p s. if rec_is_nth_bit_set (lock_heap s p) heap_no then
         if is_waiting (lock_heap s p) then rec_cancel p s
         else Some (upd_lock p (rec_reset_nth_bit heap_no) s)
       else Some s) pg 0 s"

section \<open>Moving and inheriting record locks\<close>

definition rec_inherit_to_gap :: "lock_block \<Rightarrow> lock_block \<Rightarrow> nat \<Rightarrow> nat \<Rightarrow> lock_sys \<Rightarrow> lock_sys option" where
  "rec_inherit_to_gap heir_block block heir_heap_no heap_no s =
     queue_for (\<lambda>p s. let l = lock_heap s p in
       if rec_is_nth_bit_set l heap_no \<and> \<not> rec_is_insert_intention l
          \<and> isolation_level (ltrx_heap s (m_trx l)) \<noteq> TRX_ISO_READ_COMMITTED \<and> lock_mode l = LOCK_X
       then Some (fst (rec_add_to_queue (LOCK_REC OR LOCK_GAP OR lock_mode l) heir_block heir_heap_no
              (m_object l) (m_trx l) s))
       else Some s) (b_page_id block) 0 s"

definition rec_inherit_to_gap_if_gap_lock :: "lock_block \<Rightarrow> nat \<Rightarrow> nat \<Rightarrow> lock_sys \<Rightarrow> lock_sys option" where
  "rec_inherit_to_gap_if_gap_lock block heir_heap_no heap_no s =
     queue_for (\<lambda>p s. let l = lock_heap s p in
       if rec_is_nth_bit_set l heap_no \<and> \<not> rec_is_insert_intention l
          \<and> (heap_no = PAGE_HEAP_NO_SUPREMUM \<or> \<not> rec_is_not_gap l)
       then Some (fst (rec_add_to_queue (LOCK_REC OR LOCK_GAP OR lock_mode l) block heir_heap_no
              (m_object l) (m_trx l) s))
       else Some s) (b_page_id block) 0 s"

definition rec_move :: "lock_block \<Rightarrow> lock_block \<Rightarrow> nat \<Rightarrow> nat \<Rightarrow> lock_sys \<Rightarrow> lock_sys option" where
  "rec_move receiver donator receiver_heap_no donator_heap_no s =
     queue_for (\<lambda>p s.
       if rec_is_nth_bit_set (lock_heap s p) donator_heap_no then
         let type_mode = lock_mode (lock_heap s p);
             s1 = upd_lock p (rec_reset_nth_bit donator_heap_no) s;
             s2 = (if type_mode AND LOCK_WAIT \<noteq> 0 then lock_reset p s1 else s1);
             l = lock_heap s2 p
         in Some (fst (rec_add_to_queue type_mode receiver receiver_heap_no (m_object l) (m_trx l) s2))
       else Some s) (b_page_id donator) 0 s"

definition get_min_heap_no :: "lock_block \<Rightarrow> nat" where
  "get_min_heap_no block = b_heap_nos block ! 1"

definition update_split_right :: "lock_block \<Rightarrow> lock_block \<Rightarrow> lock_sys \<Rightarrow> lock_sys option" where
  "update_split_right right_block left_block s = do {
     s1 \<leftarrow> rec_move right_block left_block PAGE_HEAP_NO_SUPREMUM PAGE_HEAP_NO_SUPREMUM s;
     rec_inherit_to_gap left_block right_block PAGE_HEAP_NO_SUPREMUM (get_min_heap_no right_block) s1 }"

definition update_merge_right :: "lock_block \<Rightarrow> nat \<Rightarrow> lock_block \<Rightarrow> lock_sys \<Rightarrow> lock_sys option" where
  "update_merge_right right_block orig_succ left_block s = do {
     s1 \<leftarrow> rec_inherit_to_gap right_block left_block orig_succ PAGE_HEAP_NO_SUPREMUM s;
     s2 \<leftarrow> rec_reset_and_release_wait (b_page_id left_block) PAGE_HEAP_NO_SUPREMUM s1;
     rec_free_all_from_discard_page (b_page_id left_block) s2 }"

definition update_root_raise :: "lock_block \<Rightarrow> lock_block \<Rightarrow> lock_sys \<Rightarrow> lock_sys option" where
  "update_root_raise block root s = rec_move block root PAGE_HEAP_NO_SUPREMUM PAGE_HEAP_NO_SUPREMUM s"

definition update_copy_and_discard :: "lock_block \<Rightarrow> lock_block \<Rightarrow> lock_sys \<Rightarrow> lock_sys option" where
  "update_copy_and_discard new_block block s = do {
     s1 \<leftarrow> rec_move new_block block PAGE_HEAP_NO_SUPREMUM PAGE_HEAP_NO_SUPREMUM s;
     rec_free_all_from_discard_page (b_page_id block) s1 }"

definition update_split_left :: "lock_block \<Rightarrow> lock_block \<Rightarrow> lock_sys \<Rightarrow> lock_sys option" where
  "update_split_left right_block left_block s =
     rec_inherit_to_gap left_block right_block PAGE_HEAP_NO_SUPREMUM (get_min_heap_no right_block) s"

text \<open>The record after a heap number in the record list of its page.\<close>

definition next_heap_no :: "lock_block \<Rightarrow> nat \<Rightarrow> nat" where
  "next_heap_no block h = hd (tl (dropWhile (\<lambda>x. x \<noteq> h) (b_heap_nos block)))"

definition update_merge_left :: "lock_block \<Rightarrow> nat \<Rightarrow> lock_block \<Rightarrow> lock_sys \<Rightarrow> lock_sys option" where
  "update_merge_left left_block orig_pred right_block s =
    (let left_next = next_heap_no left_block orig_pred in do {
       s2 \<leftarrow> (if left_next \<noteq> PAGE_HEAP_NO_SUPREMUM then do {
                 s1 \<leftarrow> rec_inherit_to_gap left_block left_block left_next PAGE_HEAP_NO_SUPREMUM s;
                 rec_reset_and_release_wait (b_page_id left_block) PAGE_HEAP_NO_SUPREMUM s1 }
              else Some s);
       s3 \<leftarrow> rec_move left_block right_block PAGE_HEAP_NO_SUPREMUM PAGE_HEAP_NO_SUPREMUM s2;
       rec_free_all_from_discard_page (b_page_id right_block) s3 })"

definition rec_reset_and_inherit_gap_locks :: "lock_block \<Rightarrow> lock_block \<Rightarrow> nat \<Rightarrow> nat \<Rightarrow> lock_sys \<Rightarrow> lock_sys option" where
  "rec_reset_and_inherit_gap_locks heir_block block heir_heap_no heap_no s = do {
     s1 \<leftarrow> rec_reset_and_release_wait (b_page_id heir_block) heir_heap_no s;
     rec_inherit_to_gap heir_block block heir_heap_no heap_no s1 }"

fun update_discard_loop :: "lock_block \<Rightarrow> nat \<Rightarrow> lock_block \<Rightarrow> nat list \<Rightarrow> lock_sys \<Rightarrow> lock_sys option" where
  "update_discard_loop heir_block heir_heap_no block [] s = None"
| "update_discard_loop heir_block heir_heap_no block (heap_no # hs) s = do {
     s1 \<leftarrow> rec_inherit_to_gap heir_block block heir_heap_no heap_no s;
     s2 \<leftarrow> rec_reset_and_release_wait (b_page_id block) heap_no s1;
     (if heap_no \<noteq> PAGE_HEAP_NO_SUPREMUM
      then update_discard_loop heir_block heir_heap_no block hs s2 else Some s2) }"

definition update_discard :: "lock_block \<Rightarrow> nat \<Rightarrow> lock_block \<Rightarrow> lock_sys \<Rightarrow> lock_sys option" where
  "update_discard heir_block heir_heap_no block s =
    (if rec_locks s (b_page_id block) = None then Some s
     else do {
       s1 \<leftarrow> update_discard_loop heir_block heir_heap_no block (b_heap_nos block) s;
       rec_free_all_from_discard_page (b_page_id block) s1 })"

definition update_insert :: "lock_block \<Rightarrow> nat \<Rightarrow> lock_sys \<Rightarrow> lock_sys option" where
  "update_insert block heap_no s =
     rec_inherit_to_gap_if_gap_lock block heap_no (next_heap_no block heap_no) s"

definition update_delete :: "lock_block \<Rightarrow> nat \<Rightarrow> lock_sys \<Rightarrow> lock_sys option" where
  "update_delete block heap_no s = do {
     s1 \<leftarrow> rec_inherit_to_gap block block (next_heap_no block heap_no) heap_no s;
     rec_reset_and_release_wait (b_page_id block) heap_no s1 }"

definition rec_store_on_page_infimum :: "lock_block \<Rightarrow> nat \<Rightarrow> lock_sys \<Rightarrow> lock_sys option" where
  "rec_store_on_page_infimum block heap_no s = rec_move block block PAGE_HEAP_NO_INFIMUM heap_no s"

definition rec_restore_from_page_infimum :: "lock_block \<Rightarrow> nat \<Rightarrow> lock_block \<Rightarrow> lock_sys \<Rightarrow> lock_sys option" where
  "rec_restore_from_page_infimum block heap_no donator s =
     rec_move block donator heap_no PAGE_HEAP_NO_INFIMUM s"


text \<open>
  Page reorganisation and record-list moves.  The two cursors walk the record lists of both
  pages in step; the walk is the list of pairs of heap numbers they pass.
\<close>

fun reorganize_lock :: "lock_block \<Rightarrow> lock_t \<Rightarrow> (nat \<times> nat) list \<Rightarrow> lock_sys \<Rightarrow> lock_sys" where
  "reorganize_lock block old [] s = s"
| "reorganize_lock block old ((old_heap_no, new_heap_no) # hs) s =
    (let s1 = (if rec_is_nth_bit_set old old_heap_no
               then fst (rec_add_to_queue (m_type_mode old) block new_heap_no (m_object old) (m_trx old) s)
               else s)
     in if new_heap_no = PAGE_HEAP_NO_SUPREMUM then s1 else reorganize_lock block old hs s1)"

definition move_reorganize_page :: "lock_block \<Rightarrow> lock_block \<Rightarrow> lock_sys \<Rightarrow> lock_sys" where
  "move_reorganize_page block oblock s =
    (case rec_locks s (b_page_id block) of
       None \<Rightarrow> s
     | Some q \<Rightarrow>
         let old_locks = map (lock_heap s) q;
             s1 = fold (\<lambda>p s. let s' = upd_lock p rec_bitmap_reset s in
                         if is_waiting (lock_heap s' p) then lock_reset p s' else s') q s
         in fold (\<lambda>old. reorganize_lock block old (zip (b_heap_nos oblock) (b_heap_nos block))) old_locks s1)"

fun move_lock_bits :: "lock_block \<Rightarrow> lock_type_t \<Rightarrow> lock_ptr \<Rightarrow> (nat \<times> nat) list \<Rightarrow> lock_sys \<Rightarrow> lock_sys" where
  "move_lock_bits new_block type_mode p [] s = s"
| "move_lock_bits new_block type_mode p ((heap_no, new_heap_no) # hs) s =
     move_lock_bits new_block type_mode p hs
      (if rec_is_nth_bit_set (lock_heap s p) heap_no then
         let s1 = upd_lock p (rec_reset_nth_bit heap_no) s;
             s2 = (if type_mode AND LOCK_WAIT \<noteq> 0 then lock_reset p s1 else s1);
             l = lock_heap s2 p
         in fst (rec_add_to_queue type_mode new_block new_heap_no (m_object l) (m_trx l) s2)
       else s)"

definition move_rec_list_end :: "lock_block \<Rightarrow> lock_block \<Rightarrow> nat \<Rightarrow> lock_sys \<Rightarrow> lock_sys option" where
  "move_rec_list_end new_block block heap_no s =
    (let from = dropWhile (\<lambda>h. h \<noteq> heap_no) (b_heap_nos block);
         cur1 = takeWhile (\<lambda>h. h \<noteq> PAGE_HEAP_NO_SUPREMUM)
                  (if heap_no = PAGE_HEAP_NO_INFIMUM then tl from else from);
         cur2 = tl (b_heap_nos new_block)
     in queue_for (\<lambda>p s. Some (move_lock_bits new_block (m_type_mode (lock_heap s p)) p (zip cur1 cur2) s))
          (b_page_id block) 0 s)"

definition move_rec_list_start :: "lock_block \<Rightarrow> lock_block \<Rightarrow> nat \<Rightarrow> nat \<Rightarrow> lock_sys \<Rightarrow> lock_sys option" where
  "move_rec_list_start new_block block heap_no old_end s =
    (let cur1 = takeWhile (\<lambda>h. h \<noteq> heap_no) (tl (b_heap_nos block));
         cur2 = tl (dropWhile (\<lambda>h. h \<noteq> old_end) (b_heap_nos new_block))
     in queue_for (\<lambda>p s. Some (move_lock_bits new_block (m_type_mode (lock_heap s p)) p (zip cur1 cur2) s))
          (b_page_id block) 0 s)"

section \<open>Table locks\<close>

definition table_create :: "table_ptr \<Rightarrow> lock_type_t \<Rightarrow> ltrx_ptr \<Rightarrow> lock_sys \<Rightarrow> lock_sys \<times> lock_ptr" where
  "table_create table type_mode trx s =
    (let p = next_lock s;
         l = \<lparr>m_trx = trx, m_type_mode = type_mode OR LOCK_TABLE, m_object = table,
              m_page_id = Page_id 0 0, m_n_bits = 0, m_bitmap = []\<rparr>;
         s1 = upd_trx trx (trx_locks_update (\<lambda>ls. ls @ [p])) (s\<lparr>next_lock := p + 1\<rparr>);
         s2 = upd_lock p (\<lambda>_. l) s1;
         s3 = s2\<lparr>table_locks := (table_locks s2)(table := table_locks s2 table @ [p])\<rparr>
     in (if type_mode AND LOCK_WAIT \<noteq> 0 then set_trx_wait p trx s3 else s3, p))"

definition table_remove_low :: "lock_ptr \<Rightarrow> lock_sys \<Rightarrow> lock_sys" where
  "table_remove_low p s =
    (let trx = m_trx (lock_heap s p); table = m_object (lock_heap s p);
         s1 = upd_trx trx (trx_locks_update (remove1 p)) s
     in s1\<lparr>table_locks := (table_locks s1)(table := remove1 p (table_locks s1 table))\<rparr>)"

definition table_other_has_incompatible ::
  "lock_sys \<Rightarrow> ltrx_ptr \<Rightarrow> lock_type_t \<Rightarrow> table_ptr \<Rightarrow> lock_type_t \<Rightarrow> lock_ptr option" where
  "table_other_has_incompatible s trx wait table mode =
     find (\<lambda>p. m_trx (lock_heap s p) \<noteq> trx \<and> \<not> mode_compatible (lock_mode (lock_heap s p)) mode
         \<and> (wait \<noteq> 0 \<or> \<not> is_waiting (lock_heap s p)))
       (rev (table_locks s table))"

text \<open>\<^verbatim>\<open>LOCK_NONE\<close> in the mode means no intention lock seen so far; \<open>None\<close> for the table is a null pointer.\<close>

fun get_src_table_loop ::
  "lock_sys \<Rightarrow> table_ptr \<Rightarrow> lock_ptr list \<Rightarrow> table_ptr option \<Rightarrow> lock_type_t \<Rightarrow> table_ptr option \<times> lock_type_t" where
  "get_src_table_loop s dest [] src mode = (case src of None \<Rightarrow> (Some dest, mode) | Some t \<Rightarrow> (Some t, mode))"
| "get_src_table_loop s dest (p # ls) src mode =
    (let l = lock_heap s p; t = m_object l; lm = lock_mode l in
     if lock_type l AND LOCK_TABLE = 0 then get_src_table_loop s dest ls src mode
     else if dest = t then get_src_table_loop s dest ls src mode
     else if src = None \<and> (length (table_locks s t) \<noteq> 1 \<or> hd (table_locks s t) \<noteq> p) then (None, mode)
     else if src \<noteq> None \<and> src \<noteq> Some t then (None, mode)
     else if lm = LOCK_IX \<or> lm = LOCK_IS then
       if mode \<noteq> LOCK_NONE \<and> mode \<noteq> lm then (None, mode) else get_src_table_loop s dest ls (Some t) lm
     else get_src_table_loop s dest ls (Some t) mode)"

definition get_src_table :: "lock_sys \<Rightarrow> ltrx_ptr \<Rightarrow> table_ptr \<Rightarrow> table_ptr option \<times> lock_type_t" where
  "get_src_table s trx dest = get_src_table_loop s dest (trx_locks (ltrx_heap s trx)) None LOCK_NONE"

fun is_table_exclusive_loop :: "lock_sys \<Rightarrow> ltrx_ptr \<Rightarrow> lock_ptr list \<Rightarrow> bool" where
  "is_table_exclusive_loop s trx [] = False"
| "is_table_exclusive_loop s trx (p # ls) =
    (let l = lock_heap s p in
     if m_trx l \<noteq> trx then False
     else if lock_type l \<noteq> LOCK_TABLE then is_table_exclusive_loop s trx ls
     else lock_mode l = LOCK_IX)"

definition is_table_exclusive :: "lock_sys \<Rightarrow> table_ptr \<Rightarrow> ltrx_ptr \<Rightarrow> bool" where
  "is_table_exclusive s table trx = is_table_exclusive_loop s trx (table_locks s table)"

fun table_has_to_wait_loop :: "lock_sys \<Rightarrow> lock_ptr list \<Rightarrow> lock_ptr \<Rightarrow> bool" where
  "table_has_to_wait_loop s [] w = False"
| "table_has_to_wait_loop s (p # q) w =
     (if p = w then False
      else if has_to_wait_for (lock_heap s w) (lock_heap s p) ULINT_UNDEFINED then True
      else table_has_to_wait_loop s q w)"

definition table_has_to_wait_in_queue :: "lock_sys \<Rightarrow> lock_ptr \<Rightarrow> bool" where
  "table_has_to_wait_in_queue s w = table_has_to_wait_loop s (table_locks s (m_object (lock_heap s w))) w"

text \<open>Granting does not change the table's list, so the loop walks the locks behind the removed one.\<close>

fun table_grant_loop :: "lock_ptr list \<Rightarrow> lock_sys \<Rightarrow> lock_sys option" where
  "table_grant_loop [] s = Some s"
| "table_grant_loop (p # q) s =
     Option.bind (if is_waiting (lock_heap s p) \<and> \<not> table_has_to_wait_in_queue s p then grant p s else Some s)
       (table_grant_loop q)"

definition table_dequeue :: "lock_ptr \<Rightarrow> lock_sys \<Rightarrow> lock_sys option" where
  "table_dequeue in_lock s = do {
     ut_a (lock_type (lock_heap s in_lock) = LOCK_TABLE);
     table_grant_loop (tl (dropWhile (\<lambda>p. p \<noteq> in_lock) (table_locks s (m_object (lock_heap s in_lock)))))
       (table_remove_low in_lock s) }"

section \<open>Releasing locks\<close>

definition lock_dequeue :: "lock_ptr \<Rightarrow> lock_sys \<Rightarrow> lock_sys option" where
  "lock_dequeue p s =
    (if lock_type (lock_heap s p) = LOCK_REC then rec_dequeue_from_page p s else table_dequeue p s)"

definition cancel_waiting_and_release :: "lock_ptr \<Rightarrow> lock_sys \<Rightarrow> lock_sys option" where
  "cancel_waiting_and_release p s = do {
     s1 \<leftarrow> lock_dequeue p s;
     (let s2 = lock_reset p s1 in end_lock_wait (m_trx (lock_heap s2 p)) s2) }"

text \<open>
  Every \<^verbatim>\<open>LOCK_RELEASE_KERNEL_INTERVAL\<close> iterations the code lets go of the kernel mutex for a
  moment; the step relation of theory \<open>Lock_Reach\<close> interleaves at every iteration.
\<close>

partial_function (option) release_off_kernel :: "ltrx_ptr \<Rightarrow> lock_sys \<Rightarrow> lock_sys option" where
  "release_off_kernel trx s =
    (if trx_locks (ltrx_heap s trx) = [] then Some s
     else case lock_dequeue (last (trx_locks (ltrx_heap s trx))) s of
            None \<Rightarrow> None | Some s' \<Rightarrow> release_off_kernel trx s')"

declare release_off_kernel.simps [code]

fun rec_unlock_find :: "lock_sys \<Rightarrow> ltrx_ptr \<Rightarrow> nat \<Rightarrow> lock_type_t \<Rightarrow> lock_ptr option \<Rightarrow> lock_ptr list
    \<Rightarrow> lock_ptr option option" where
  "rec_unlock_find s trx heap_no mode found [] = Some found"
| "rec_unlock_find s trx heap_no mode found (p # q) =
    (let l = lock_heap s p in
     if rec_is_nth_bit_set l heap_no \<and> m_trx l = trx \<and> lock_mode l = mode then do {
       ut_a (\<not> is_waiting l);
       rec_unlock_find s trx heap_no mode (Some p) q }
     else rec_unlock_find s trx heap_no mode found q)"

definition rec_unlock :: "ltrx_ptr \<Rightarrow> lock_block \<Rightarrow> nat \<Rightarrow> lock_type_t \<Rightarrow> lock_sys \<Rightarrow> lock_sys option" where
  "rec_unlock trx block heap_no mode s = do {
     ut_a (rec_locks s (b_page_id block) \<noteq> None);
     release_lock \<leftarrow> rec_unlock_find s trx heap_no mode None (page_queue s (b_page_id block));
     (case release_lock of
        None \<Rightarrow> Some s
      | Some p \<Rightarrow>
          queue_for (\<lambda>p s. if rec_is_nth_bit_set (lock_heap s p) heap_no \<and> is_waiting (lock_heap s p)
                \<and> \<not> rec_has_to_wait_in_queue s (page_queue s (b_page_id block)) p heap_no
              then grant p s else Some s)
            (b_page_id block) 0 (upd_lock p (rec_reset_nth_bit heap_no) s)) }"

definition is_lock_s_or_x :: "lock_t \<Rightarrow> bool" where
  "is_lock_s_or_x l = (lock_mode l = LOCK_S \<or> lock_mode l = LOCK_X)"

text \<open>The test \<open>m_table.m_table == table\<close> reads the first word of the union for record locks too.\<close>

fun remove_all_on_table_loop :: "table_ptr \<Rightarrow> bool \<Rightarrow> lock_ptr list \<Rightarrow> lock_sys \<Rightarrow> lock_sys option" where
  "remove_all_on_table_loop table remove_sx_locks [] s = Some s"
| "remove_all_on_table_loop table remove_sx_locks (p # q) s =
    (let l = lock_heap s p in do {
       s1 \<leftarrow> (if lock_type l = LOCK_REC \<and> m_object l = table then do {
                 ut_a (\<not> is_waiting l);
                 rec_discard p s }
              else if lock_type l = LOCK_TABLE \<and> m_object l = table \<and> (remove_sx_locks \<or> \<not> is_lock_s_or_x l)
              then do {
                 ut_a (\<not> is_waiting l);
                 Some (table_remove_low p s) }
              else Some s);
       remove_all_on_table_loop table remove_sx_locks q s1 })"

definition remove_all_on_table_for_trx :: "table_ptr \<Rightarrow> ltrx_ptr \<Rightarrow> bool \<Rightarrow> lock_sys \<Rightarrow> lock_sys option" where
  "remove_all_on_table_for_trx table trx remove_sx_locks s =
     remove_all_on_table_loop table remove_sx_locks (rev (trx_locks (ltrx_heap s trx))) s"

definition trx_has_no_waiters :: "lock_sys \<Rightarrow> ltrx_ptr \<Rightarrow> bool" where
  "trx_has_no_waiters s trx =
     list_ex (\<lambda>p. let l = lock_heap s p in
         if lock_type l = LOCK_REC
         then list_ex (\<lambda>k. is_waiting (lock_heap s k)) (page_queue s (m_page_id l))
         else list_ex (\<lambda>k. is_waiting (lock_heap s k))
                (tl (dropWhile (\<lambda>k. k \<noteq> p) (table_locks s (m_object l)))))
       (rev (trx_locks (ltrx_heap s trx)))"

section \<open>Deadlock detection\<close>

definition LOCK_MAX_N_STEPS_IN_DEADLOCK_CHECK :: nat where "LOCK_MAX_N_STEPS_IN_DEADLOCK_CHECK = 1000000"
definition LOCK_MAX_DEPTH_IN_DEADLOCK_CHECK :: nat where "LOCK_MAX_DEPTH_IN_DEADLOCK_CHECK = 200"

datatype deadlock_ret = NO_DEADLOCK | LOCK_VICTIM_IS_START | LOCK_VICTIM_IS_OTHER | LOCK_EXCEED_MAX_DEPTH

definition trx_weight :: "ltrx_t \<Rightarrow> nat" where
  "trx_weight t = n_undo t + length (trx_locks t)"

text \<open>\<^verbatim>\<open>weight_cmp\<close> returns the difference of two 64-bit weights as an \<^verbatim>\<open>int\<close>.\<close>

definition weight_cmp :: "ltrx_t \<Rightarrow> ltrx_t \<Rightarrow> int" where
  "weight_cmp lhs rhs = sint (word_of_int (int (trx_weight lhs) - int (trx_weight rhs)) :: 32 word)"

text \<open>The locks the search looks at: those ahead of the waiting lock in its queue, for a record
  lock the ones on the same record in queue order, for a table lock backwards.\<close>

definition locks_ahead :: "lock_sys \<Rightarrow> lock_ptr \<Rightarrow> nat \<Rightarrow> lock_ptr list" where
  "locks_ahead s w heap_no =
    (if lock_type (lock_heap s w) = LOCK_REC
     then filter (\<lambda>p. rec_is_nth_bit_set (lock_heap s p) heap_no)
            (ahead w (page_queue s (m_page_id (lock_heap s w))))
     else rev (ahead w (table_locks s (m_object (lock_heap s w)))))"

definition wait_heap_no :: "lock_t \<Rightarrow> nat" where
  "wait_heap_no l = (if lock_type l = LOCK_REC then rec_find_set_bit l else ULINT_UNDEFINED)"

function deadlock_recursive ::
    "ltrx_ptr \<Rightarrow> ltrx_ptr \<Rightarrow> lock_ptr \<Rightarrow> nat \<Rightarrow> nat \<Rightarrow> lock_sys \<Rightarrow> (lock_sys \<times> nat \<times> deadlock_ret) option"
  and deadlock_scan ::
    "ltrx_ptr \<Rightarrow> ltrx_ptr \<Rightarrow> lock_ptr \<Rightarrow> nat \<Rightarrow> lock_ptr list \<Rightarrow> nat \<Rightarrow> nat \<Rightarrow> lock_sys
       \<Rightarrow> (lock_sys \<times> nat \<times> deadlock_ret) option" where
  "deadlock_recursive start trx w cost depth s =
    (if deadlock_mark (ltrx_heap s trx) = 1 then Some (s, cost, NO_DEADLOCK)
     else if lock_type (lock_heap s w) = LOCK_REC \<and> rec_find_set_bit (lock_heap s w) = ULINT_UNDEFINED
     then None
     else let heap_no = wait_heap_no (lock_heap s w)
          in deadlock_scan start trx w heap_no (locks_ahead s w heap_no) (cost + 1) depth s)"
| "deadlock_scan start trx w heap_no [] cost depth s =
     Some (upd_trx trx (deadlock_mark_update (\<lambda>_. 1)) s, cost, NO_DEADLOCK)"
| "deadlock_scan start trx w heap_no (f # fs) cost depth s =
    (if has_to_wait_for (lock_heap s w) (lock_heap s f) heap_no then
       let too_far = (depth > LOCK_MAX_DEPTH_IN_DEADLOCK_CHECK \<or> cost > LOCK_MAX_N_STEPS_IN_DEADLOCK_CHECK);
           lock_trx = m_trx (lock_heap s f);
           wait_trx = m_trx (lock_heap s w)
       in if lock_trx = start then
            if weight_cmp (ltrx_heap s wait_trx) (ltrx_heap s start) \<ge> 0
            then Some (s, cost, LOCK_VICTIM_IS_START)
            else do {
              s1 \<leftarrow> cancel_waiting_and_release w
                     (upd_trx wait_trx (was_chosen_as_deadlock_victim_update (\<lambda>_. True))
                       (s\<lparr>deadlock_found := True\<rparr>));
              Some (s1, cost, LOCK_VICTIM_IS_OTHER) }
          else if too_far then Some (s, cost, LOCK_EXCEED_MAX_DEPTH)
          else if trx_que_state (ltrx_heap s lock_trx) = TRX_QUE_LOCK_WAIT then
            (case wait_lock (ltrx_heap s lock_trx) of
               None \<Rightarrow> None
             | Some w' \<Rightarrow>
                 case deadlock_recursive start lock_trx w' cost (depth + 1) s of
                   None \<Rightarrow> None
                 | Some (s1, cost1, ret) \<Rightarrow>
                     if ret \<noteq> NO_DEADLOCK then Some (s1, cost1, ret)
                     else deadlock_scan start trx w heap_no fs cost1 depth s1)
          else deadlock_scan start trx w heap_no fs cost depth s
     else deadlock_scan start trx w heap_no fs cost depth s)"
  by pat_completeness auto

termination
  by (relation "measures
       [\<lambda>x. case x of Inl (start, trx, w, cost, depth, s) \<Rightarrow> Suc LOCK_MAX_DEPTH_IN_DEADLOCK_CHECK - depth + 1
                    | Inr (start, trx, w, heap_no, fs, cost, depth, s) \<Rightarrow> Suc LOCK_MAX_DEPTH_IN_DEADLOCK_CHECK - depth + 1,
        \<lambda>x. case x of Inl _ \<Rightarrow> 1 | Inr _ \<Rightarrow> 0,
        \<lambda>x. case x of Inl _ \<Rightarrow> 0 | Inr (start, trx, w, heap_no, fs, cost, depth, s) \<Rightarrow> length fs]")
     auto

declare deadlock_recursive.simps [simp del] deadlock_scan.simps(2) [simp del]

definition clear_deadlock_marks :: "lock_sys \<Rightarrow> lock_sys" where
  "clear_deadlock_marks s = fold (\<lambda>t. upd_trx t (deadlock_mark_update (\<lambda>_. 0))) (ltrx_list s) s"

partial_function (option) deadlock_occurs_loop ::
  "lock_ptr \<Rightarrow> ltrx_ptr \<Rightarrow> nat \<Rightarrow> lock_sys \<Rightarrow> (lock_sys \<times> bool) option" where
  "deadlock_occurs_loop p trx cost s =
     (case deadlock_recursive trx trx p cost 0 (clear_deadlock_marks s) of
        None \<Rightarrow> None
      | Some (s1, cost1, ret) \<Rightarrow>
          (case ret of
             LOCK_VICTIM_IS_OTHER \<Rightarrow> deadlock_occurs_loop p trx cost1 s1
           | NO_DEADLOCK \<Rightarrow> Some (s1, False)
           | _ \<Rightarrow> Some (s1\<lparr>deadlock_found := True\<rparr>, True)))"

declare deadlock_occurs_loop.simps [code]

definition deadlock_occurs :: "lock_ptr \<Rightarrow> ltrx_ptr \<Rightarrow> lock_sys \<Rightarrow> (lock_sys \<times> bool) option" where
  "deadlock_occurs p trx s = deadlock_occurs_loop p trx 0 s"

section \<open>Lock requests\<close>

definition rec_enqueue_waiting ::
  "lock_type_t \<Rightarrow> lock_block \<Rightarrow> nat \<Rightarrow> nat \<Rightarrow> thr_ptr \<Rightarrow> lock_sys \<Rightarrow> (lock_sys \<times> db_err) option" where
  "rec_enqueue_waiting type_mode block heap_no index thr s =
    (if snd (que_thr_stop thr s) then None
     else let trx = thr_get_trx s thr;
              (s1, p) = rec_create (type_mode OR LOCK_WAIT) block heap_no index trx s
          in do {
            (s2, deadlock) \<leftarrow> deadlock_occurs p trx s1;
            (if deadlock then
               Some (upd_lock p (rec_reset_nth_bit heap_no) (lock_reset p s2), DB_DEADLOCK)
             else if wait_lock (ltrx_heap s2 trx) = None then Some (s2, DB_SUCCESS)
             else let (s3, success) = que_thr_stop thr
                        (upd_trx trx (was_chosen_as_deadlock_victim_update (\<lambda>_. False))
                          (upd_trx trx (trx_que_state_update (\<lambda>_. TRX_QUE_LOCK_WAIT)) s2))
                  in do {
                    ut_a success;
                    Some (s3, DB_LOCK_WAIT) }) })"

definition rec_lock_slow ::
  "bool \<Rightarrow> lock_type_t \<Rightarrow> lock_block \<Rightarrow> nat \<Rightarrow> nat \<Rightarrow> thr_ptr \<Rightarrow> lock_sys \<Rightarrow> (lock_sys \<times> db_err) option" where
  "rec_lock_slow impl mode block heap_no index thr s =
    (let trx = thr_get_trx s thr in
     if rec_has_expl s (b_page_id block) mode heap_no trx \<noteq> None then Some (s, DB_SUCCESS)
     else if rec_other_has_conflicting s (b_page_id block) mode heap_no trx \<noteq> None
     then rec_enqueue_waiting mode block heap_no index thr s
     else Some (if \<not> impl then fst (rec_add_to_queue (LOCK_REC OR mode) block heap_no index trx s) else s,
                DB_SUCCESS))"

definition rec_lock ::
  "bool \<Rightarrow> lock_type_t \<Rightarrow> lock_block \<Rightarrow> nat \<Rightarrow> nat \<Rightarrow> thr_ptr \<Rightarrow> lock_sys \<Rightarrow> (lock_sys \<times> db_err) option" where
  "rec_lock impl mode block heap_no index thr s =
    (let (s1, done) = rec_lock_fast impl mode block heap_no index thr s in
     if done then Some (s1, DB_SUCCESS)
     else rec_lock_slow impl mode block heap_no index thr s1)"

definition table_enqueue_waiting ::
  "lock_type_t \<Rightarrow> table_ptr \<Rightarrow> thr_ptr \<Rightarrow> lock_sys \<Rightarrow> (lock_sys \<times> db_err) option" where
  "table_enqueue_waiting mode table thr s =
    (if snd (que_thr_stop thr s) then None
     else let trx = thr_get_trx s thr;
              (s1, p) = table_create table (mode OR LOCK_WAIT) trx s
          in do {
            (s2, deadlock) \<leftarrow> deadlock_occurs p trx s1;
            (if deadlock then Some (lock_reset p (table_remove_low p s2), DB_DEADLOCK)
             else if wait_lock (ltrx_heap s2 trx) = None then Some (s2, DB_SUCCESS)
             else let (s3, success) = que_thr_stop thr
                        (upd_trx trx (was_chosen_as_deadlock_victim_update (\<lambda>_. False))
                          (upd_trx trx (trx_que_state_update (\<lambda>_. TRX_QUE_LOCK_WAIT)) s2))
                  in do {
                    ut_a success;
                    Some (s3, DB_LOCK_WAIT) }) })"

definition BTR_NO_LOCKING_FLAG :: ulint where "BTR_NO_LOCKING_FLAG = 2"

definition lock_table ::
  "ulint \<Rightarrow> table_ptr \<Rightarrow> lock_type_t \<Rightarrow> thr_ptr \<Rightarrow> lock_sys \<Rightarrow> (lock_sys \<times> db_err) option" where
  "lock_table flags table mode thr s =
    (if flags AND BTR_NO_LOCKING_FLAG \<noteq> 0 then Some (s, DB_SUCCESS)
     else do {
       ut_a (flags = 0);
       (let trx = thr_get_trx s thr in
        if table_has s trx table mode \<noteq> None then Some (s, DB_SUCCESS)
        else if table_other_has_incompatible s trx LOCK_WAIT table mode \<noteq> None
        then table_enqueue_waiting (mode OR ucast flags) table thr s
        else Some (fst (table_create table (mode OR ucast flags) trx s), DB_SUCCESS)) })"

end
