(* ===== verification/Grant_Queue.thy ===== *)
theory Grant_Queue
  imports Prelude
begin

text \<open>
  What a lock queue promises, for record and table locks alike: requests wait in arrival order,
  a request is granted only when no request ahead of it blocks it, and a granted request never
  conflicts with a request ahead of it.  The contract is the locale \<open>grant_queue\<close>; theory
  \<open>Lock_Queue\<close> interprets it on the record-lock and table-lock queues of the lock system.
\<close>

section \<open>Queues of requests\<close>

text \<open>A queue is safe when a granted request conflicts with none ahead of it.\<close>

definition queue_safe :: "('l \<Rightarrow> 'l \<Rightarrow> bool) \<Rightarrow> ('l \<Rightarrow> bool) \<Rightarrow> 'l list \<Rightarrow> bool" where
  "queue_safe conflict granted ls = sorted_wrt (\<lambda>a b. granted b \<longrightarrow> \<not> conflict a b) ls"

text \<open>A queue is live when every waiting request waits for one ahead of it.\<close>

fun queue_live_from :: "('l \<Rightarrow> 'l \<Rightarrow> bool) \<Rightarrow> ('l \<Rightarrow> bool) \<Rightarrow> 'l list \<Rightarrow> 'l list \<Rightarrow> bool" where
  "queue_live_from waits granted before [] = True"
| "queue_live_from waits granted before (l # ls) =
     ((granted l \<or> (\<exists>a\<in>set before. waits l a)) \<and> queue_live_from waits granted (before @ [l]) ls)"

abbreviation queue_live :: "('l \<Rightarrow> 'l \<Rightarrow> bool) \<Rightarrow> ('l \<Rightarrow> bool) \<Rightarrow> 'l list \<Rightarrow> bool" where
  "queue_live waits granted \<equiv> queue_live_from waits granted []"

text \<open>One pass over the queue that grants what nobody ahead blocks.\<close>

fun grant_pass :: "('l \<Rightarrow> 'l \<Rightarrow> bool) \<Rightarrow> ('l \<Rightarrow> bool) \<Rightarrow> ('l \<Rightarrow> 'l) \<Rightarrow> 'l list \<Rightarrow> 'l list \<Rightarrow> 'l list" where
  "grant_pass waits granted g before [] = []"
| "grant_pass waits granted g before (l # ls) =
    (let l' = (if \<not> granted l \<and> \<not> (\<exists>a\<in>set before. waits l a) then g l else l)
     in l' # grant_pass waits granted g (before @ [l']) ls)"

lemma queue_live_from_append:
  "queue_live_from waits granted before (xs @ ys) \<longleftrightarrow>
     queue_live_from waits granted before xs \<and> queue_live_from waits granted (before @ xs) ys"
  by (induction xs arbitrary: before) auto

lemma queue_live_from_mono:
  "set before \<subseteq> set before' \<Longrightarrow> queue_live_from waits granted before ls \<Longrightarrow>
     queue_live_from waits granted before' ls"
proof (induction ls arbitrary: before before')
  case (Cons l ls)
  then show ?case using Cons.IH [of "before @ [l]" "before' @ [l]"] by auto
qed simp

lemma queue_live_nth:
  "queue_live_from waits granted before ls \<Longrightarrow> i < length ls \<Longrightarrow> \<not> granted (ls ! i) \<Longrightarrow>
     \<exists>a\<in>set before \<union> set (take i ls). waits (ls ! i) a"
proof (induction ls arbitrary: before i)
  case (Cons l ls)
  then show ?case
  proof (cases i)
    case (Suc j)
    then show ?thesis using Cons.IH [of "before @ [l]" j] Cons.prems by auto
  qed auto
qed simp

lemma queue_live_from_iff_nth:
  "queue_live_from waits granted before ls \<longleftrightarrow>
     (\<forall>i<length ls. granted (ls ! i) \<or> (\<exists>a\<in>set before \<union> set (take i ls). waits (ls ! i) a))"
proof (induction ls arbitrary: before)
  case (Cons l ls)
  show ?case
    by (auto simp: Cons.IH nth_Cons' All_less_Suc2)
qed simp

lemma queue_live_mono:
  assumes "queue_live waits granted ls" "length ls' = length ls"
    and "\<And>i. i < length ls \<Longrightarrow> granted (ls ! i) \<Longrightarrow> granted (ls' ! i)"
    and "\<And>i j. j < i \<Longrightarrow> i < length ls \<Longrightarrow> \<not> granted (ls' ! i) \<Longrightarrow> waits (ls ! i) (ls ! j) \<Longrightarrow> waits (ls' ! i) (ls' ! j)"
  shows "queue_live waits granted ls'"
  unfolding queue_live_from_iff_nth
proof (intro allI impI)
  fix i assume i: "i < length ls'"
  show "granted (ls' ! i) \<or> (\<exists>a\<in>set [] \<union> set (take i ls'). waits (ls' ! i) a)"
  proof (cases "granted (ls' ! i)")
    case False
    then have "\<not> granted (ls ! i)" using assms(2,3) i by auto
    then obtain a where "a \<in> set (take i ls)" "waits (ls ! i) a"
      using assms(1,2) i unfolding queue_live_from_iff_nth by auto
    then obtain j where j: "j < i" "waits (ls ! i) (ls ! j)" by (auto simp: in_set_conv_nth)
    then have "waits (ls' ! i) (ls' ! j)" using assms(2,4) False i by auto
    moreover have "ls' ! j \<in> set (take i ls')" using j(1) i by (auto simp: in_set_conv_nth)
    ultimately show ?thesis by auto
  qed simp
qed

lemma queue_safe_snoc:
  "queue_safe conflict granted (ls @ [l]) \<longleftrightarrow>
     queue_safe conflict granted ls \<and> (granted l \<longrightarrow> (\<forall>a\<in>set ls. \<not> conflict a l))"
  by (auto simp: queue_safe_def sorted_wrt_append)

lemma queue_safe_remove:
  "queue_safe conflict granted (xs @ l # ys) \<Longrightarrow> queue_safe conflict granted (xs @ ys)"
  by (auto simp: queue_safe_def sorted_wrt_append)

text \<open>Changes that grant nothing and create no conflict keep a queue safe.\<close>

lemma queue_safe_mono:
  assumes "queue_safe conflict granted ls" "length ls' = length ls"
    and "\<And>i j. i < j \<Longrightarrow> j < length ls \<Longrightarrow> granted (ls' ! j) \<Longrightarrow> conflict (ls' ! i) (ls' ! j) \<Longrightarrow>
           granted (ls ! j) \<and> conflict (ls ! i) (ls ! j)"
  shows "queue_safe conflict granted ls'"
  using assms unfolding queue_safe_def sorted_wrt_iff_nth_less by (metis order.strict_trans)

lemma queue_live_all_granted: "(\<And>l. l \<in> set ls \<Longrightarrow> granted l) \<Longrightarrow> queue_live_from waits granted before ls"
  by (induction ls arbitrary: before) auto

section \<open>The contract\<close>

text \<open>
  \<open>ok\<close> are the well-formed requests, \<open>g\<close> grants a request.  A conflict is symmetric and makes
  the later request wait, and granting changes neither relation.
\<close>

locale grant_queue =
  fixes ok :: "'l \<Rightarrow> bool" and conflict :: "'l \<Rightarrow> 'l \<Rightarrow> bool" and waits :: "'l \<Rightarrow> 'l \<Rightarrow> bool"
    and granted :: "'l \<Rightarrow> bool" and g :: "'l \<Rightarrow> 'l"
  assumes conflict_sym: "ok a \<Longrightarrow> ok b \<Longrightarrow> conflict a b \<Longrightarrow> conflict b a"
    and conflict_waits: "ok a \<Longrightarrow> ok b \<Longrightarrow> conflict a b \<Longrightarrow> waits b a"
    and granted_g: "granted (g a)"
    and ok_g: "ok (g a) = ok a"
    and conflict_g: "conflict (g a) b = conflict a b" "conflict a (g b) = conflict a b"
    and waits_g: "waits (g a) b = waits a b" "waits a (g b) = waits a b"
begin

lemma safe_pair:
  assumes "queue_safe conflict granted ls" "\<And>l. l \<in> set ls \<Longrightarrow> ok l"
    and "i < length ls" "j < length ls" "i \<noteq> j" "granted (ls ! i)" "granted (ls ! j)"
  shows "\<not> conflict (ls ! i) (ls ! j)"
proof (cases "i < j")
  case True
  then show ?thesis using assms by (auto simp: queue_safe_def sorted_wrt_iff_nth_less)
next
  case False
  then have "\<not> conflict (ls ! j) (ls ! i)"
    using assms by (auto simp: queue_safe_def sorted_wrt_iff_nth_less)
  then show ?thesis using conflict_sym assms by (meson nth_mem)
qed

lemma ok_grant_pass:
  "(\<And>l. l \<in> set ls \<Longrightarrow> ok l) \<Longrightarrow> l \<in> set (grant_pass waits granted g before ls) \<Longrightarrow> ok l"
  by (induction ls arbitrary: before) (auto simp: Let_def ok_g split: if_splits)

lemma grant_pass_safe:
  "queue_safe conflict granted (before @ ls) \<Longrightarrow> (\<And>l. l \<in> set before \<union> set ls \<Longrightarrow> ok l) \<Longrightarrow>
     queue_safe conflict granted (before @ grant_pass waits granted g before ls)"
proof (induction ls arbitrary: before)
  case (Cons l ls)
  define l' where "l' = (if \<not> granted l \<and> \<not> (\<exists>a\<in>set before. waits l a) then g l else l)"
  have "ok l" "\<And>a. a \<in> set before \<Longrightarrow> ok a" using Cons.prems(2) by auto
  then have ahead: "granted l' \<longrightarrow> (\<forall>a\<in>set before. \<not> conflict a l')"
    using Cons.prems(1) conflict_waits by (auto simp: l'_def queue_safe_def sorted_wrt_append conflict_g)
  have behind: "\<forall>b\<in>set ls. granted b \<longrightarrow> \<not> conflict l' b"
    using Cons.prems(1) by (auto simp: l'_def queue_safe_def sorted_wrt_append conflict_g)
  have "queue_safe conflict granted ((before @ [l']) @ ls)"
    using Cons.prems(1) ahead behind by (auto simp: queue_safe_def sorted_wrt_append)
  moreover have "ok a" if "a \<in> set (before @ [l']) \<union> set ls" for a
    using that Cons.prems(2) by (auto simp: l'_def ok_g split: if_splits)
  ultimately have "queue_safe conflict granted ((before @ [l']) @ grant_pass waits granted g (before @ [l']) ls)"
    by (rule Cons.IH)
  moreover have "grant_pass waits granted g before (l # ls) = l' # grant_pass waits granted g (before @ [l']) ls"
    by (simp add: l'_def Let_def)
  ultimately show ?case by simp
qed simp

lemma grant_pass_live: "queue_live_from waits granted before (grant_pass waits granted g before ls)"
  by (induction ls arbitrary: before) (auto simp: Let_def granted_g)

lemma grant_pass_keeps:
  "list_all2 (\<lambda>l l'. l' = l \<or> \<not> granted l \<and> l' = g l) ls (grant_pass waits granted g before ls)"
  by (induction ls arbitrary: before) (auto simp: Let_def)

lemma live_snoc:
  "queue_live waits granted ls \<Longrightarrow> granted l \<or> (\<exists>a\<in>set ls. waits l a) \<Longrightarrow> queue_live waits granted (ls @ [l])"
  by (simp add: queue_live_from_append)

end

end
