(* ===== verification/Lock_Queue.thy ===== *)
theory Lock_Queue
  imports Lock_Sys Grant_Queue
begin

text \<open>
  The invariant of the lock system and its preservation by granting, cancelling and removing
  requests: the queues are well formed, the wait flags agree with the transactions' back
  pointers, a granted lock conflicts with no request ahead of it (safety), and every waiting
  request waits for one ahead of it (no lost wake-up).
\<close>

section \<open>Field updates\<close>

named_theorems upd_simps \<open>reading the lock-system state after an update\<close>

lemma upd_lock_fields [upd_simps, simp]:
  "lock_heap (upd_lock p f s) q = (if q = p then f (lock_heap s p) else lock_heap s q)"
  "next_lock (upd_lock p f s) = next_lock s" "rec_locks (upd_lock p f s) = rec_locks s"
  "table_locks (upd_lock p f s) = table_locks s" "ltrx_heap (upd_lock p f s) = ltrx_heap s"
  "ltrx_list (upd_lock p f s) = ltrx_list s" "thr_heap (upd_lock p f s) = thr_heap s"
  "fork_heap (upd_lock p f s) = fork_heap s"
  by (simp_all add: upd_lock_def)

lemma upd_trx_fields [upd_simps, simp]:
  "ltrx_heap (upd_trx t f s) u = (if u = t then f (ltrx_heap s t) else ltrx_heap s u)"
  "lock_heap (upd_trx t f s) = lock_heap s" "next_lock (upd_trx t f s) = next_lock s"
  "rec_locks (upd_trx t f s) = rec_locks s" "table_locks (upd_trx t f s) = table_locks s"
  "ltrx_list (upd_trx t f s) = ltrx_list s" "thr_heap (upd_trx t f s) = thr_heap s"
  "fork_heap (upd_trx t f s) = fork_heap s"
  by (simp_all add: upd_trx_def)

lemma upd_thr_fields [upd_simps, simp]:
  "thr_heap (upd_thr p f s) q = (if q = p then f (thr_heap s p) else thr_heap s q)"
  "lock_heap (upd_thr p f s) = lock_heap s" "next_lock (upd_thr p f s) = next_lock s"
  "rec_locks (upd_thr p f s) = rec_locks s" "table_locks (upd_thr p f s) = table_locks s"
  "ltrx_heap (upd_thr p f s) = ltrx_heap s" "ltrx_list (upd_thr p f s) = ltrx_list s"
  "fork_heap (upd_thr p f s) = fork_heap s"
  by (simp_all add: upd_thr_def)

lemma upd_fork_fields [upd_simps, simp]:
  "fork_heap (upd_fork p f s) q = (if q = p then f (fork_heap s p) else fork_heap s q)"
  "lock_heap (upd_fork p f s) = lock_heap s" "next_lock (upd_fork p f s) = next_lock s"
  "rec_locks (upd_fork p f s) = rec_locks s" "table_locks (upd_fork p f s) = table_locks s"
  "ltrx_heap (upd_fork p f s) = ltrx_heap s" "ltrx_list (upd_fork p f s) = ltrx_list s"
  "thr_heap (upd_fork p f s) = thr_heap s"
  by (simp_all add: upd_fork_def)

lemma page_queue_upd [simp]:
  "page_queue (upd_lock p f s) pg = page_queue s pg" "page_queue (upd_trx t g s) pg = page_queue s pg"
  "page_queue (upd_thr th h s) pg = page_queue s pg" "page_queue (upd_fork fk k s) pg = page_queue s pg"
  by (simp_all add: page_queue_def)

lemma ut_a_simps [simp]: "ut_a True = Some ()" "ut_a False = None"
  by (simp_all add: ut_a_def)

section \<open>Invariant\<close>

abbreviation granted :: "lock_t \<Rightarrow> bool" where
  "granted l \<equiv> \<not> is_waiting l"

definition clear_wait :: "lock_t \<Rightarrow> lock_t" where
  "clear_wait l = l\<lparr>m_type_mode := m_type_mode l AND NOT LOCK_WAIT\<rparr>"

definition rec_ok :: "lock_t \<Rightarrow> bool" where
  "rec_ok l \<longleftrightarrow> lock_type l = LOCK_REC \<and> unat (lock_mode l) < 4 \<and> wf_bitmap l"

definition rec_conflicts :: "lock_t \<Rightarrow> lock_t \<Rightarrow> bool" where
  "rec_conflicts a b \<longleftrightarrow> (\<exists>h. rec_conflict h a b)"

definition rec_waits :: "lock_t \<Rightarrow> lock_t \<Rightarrow> bool" where
  "rec_waits l k \<longleftrightarrow> (\<exists>h. rec_is_nth_bit_set l h \<and> rec_is_nth_bit_set k h \<and> has_to_wait_for l k h)"

definition table_ok :: "lock_t \<Rightarrow> bool" where
  "table_ok l \<longleftrightarrow> lock_type l = LOCK_TABLE \<and> unat (lock_mode l) < 4"

definition table_conflict :: "lock_t \<Rightarrow> lock_t \<Rightarrow> bool" where
  "table_conflict a b \<longleftrightarrow> m_trx a \<noteq> m_trx b \<and> \<not> mode_compatible (lock_mode a) (lock_mode b)"

definition table_waits :: "lock_t \<Rightarrow> lock_t \<Rightarrow> bool" where
  "table_waits l k \<longleftrightarrow> has_to_wait_for l k ULINT_UNDEFINED"

definition page_locks :: "lock_sys \<Rightarrow> page_id \<Rightarrow> lock_t list" where
  "page_locks s pg = map (lock_heap s) (page_queue s pg)"

definition tbl_locks :: "lock_sys \<Rightarrow> table_ptr \<Rightarrow> lock_t list" where
  "tbl_locks s tb = map (lock_heap s) (table_locks s tb)"

definition queued :: "lock_sys \<Rightarrow> lock_ptr \<Rightarrow> bool" where
  "queued s p \<longleftrightarrow> (\<exists>pg. p \<in> set (page_queue s pg)) \<or> (\<exists>tb. p \<in> set (table_locks s tb))"

definition wf_locks :: "lock_sys \<Rightarrow> bool" where
  "wf_locks s \<longleftrightarrow>
     (\<forall>pg. rec_locks s pg \<noteq> Some []) \<and> (\<forall>pg. distinct (page_queue s pg))
   \<and> (\<forall>pg. \<forall>p\<in>set (page_queue s pg).
        p < next_lock s \<and> m_page_id (lock_heap s p) = pg \<and> rec_ok (lock_heap s p))
   \<and> (\<forall>tb. distinct (table_locks s tb))
   \<and> (\<forall>tb. \<forall>p\<in>set (table_locks s tb).
        p < next_lock s \<and> m_object (lock_heap s p) = tb \<and> table_ok (lock_heap s p))
   \<and> (\<forall>t. distinct (trx_locks (ltrx_heap s t))
        \<and> set (trx_locks (ltrx_heap s t)) = {p. queued s p \<and> m_trx (lock_heap s p) = t})"

definition one_bit :: "lock_t \<Rightarrow> bool" where
  "one_bit l \<longleftrightarrow> (\<exists>h. \<forall>j. rec_is_nth_bit_set l j \<longleftrightarrow> j = h)"

text \<open>\<open>X\<close> holds a request that has left its queue but is still its transaction's wait lock.\<close>

definition wf_wait :: "lock_ptr set \<Rightarrow> lock_sys \<Rightarrow> bool" where
  "wf_wait X s \<longleftrightarrow>
     (\<forall>p. queued s p \<longrightarrow> is_waiting (lock_heap s p) \<longrightarrow>
        wait_lock (ltrx_heap s (m_trx (lock_heap s p))) = Some p)
   \<and> (\<forall>t p. wait_lock (ltrx_heap s t) = Some p \<longrightarrow>
        is_waiting (lock_heap s p) \<and> m_trx (lock_heap s p) = t \<and> (queued s p \<or> p \<in> X))
   \<and> (\<forall>pg. \<forall>p\<in>set (page_queue s pg). is_waiting (lock_heap s p) \<longrightarrow> one_bit (lock_heap s p))"

definition wf_que :: "lock_sys \<Rightarrow> bool" where
  "wf_que s \<longleftrightarrow> (\<forall>t. trx_que_state (ltrx_heap s t) = TRX_QUE_LOCK_WAIT \<longrightarrow> wait_lock (ltrx_heap s t) \<noteq> None)"

definition wf_thrs :: "lock_sys \<Rightarrow> bool" where
  "wf_thrs s \<longleftrightarrow>
     (\<forall>t. distinct (wait_thrs (ltrx_heap s t))
        \<and> (wait_thrs (ltrx_heap s t) \<noteq> [] \<longrightarrow> trx_que_state (ltrx_heap s t) = TRX_QUE_LOCK_WAIT)
        \<and> (\<forall>thr\<in>set (wait_thrs (ltrx_heap s t)).
             thr_state (thr_heap s thr) = QUE_THR_LOCK_WAIT \<and> thr_get_trx s thr = t))"

definition queues_safe :: "lock_sys \<Rightarrow> bool" where
  "queues_safe s \<longleftrightarrow>
     (\<forall>pg. queue_safe rec_conflicts granted (page_locks s pg))
   \<and> (\<forall>tb. queue_safe table_conflict granted (tbl_locks s tb))"

definition queues_live :: "lock_sys \<Rightarrow> bool" where
  "queues_live s \<longleftrightarrow>
     (\<forall>pg. queue_live rec_waits granted (page_locks s pg))
   \<and> (\<forall>tb. queue_live table_waits granted (tbl_locks s tb))"

definition lock_inv :: "lock_sys \<Rightarrow> bool" where
  "lock_inv s \<longleftrightarrow> wf_locks s \<and> wf_wait {} s \<and> wf_que s \<and> wf_thrs s \<and> queues_safe s \<and> queues_live s"

section \<open>Clearing the wait flag\<close>

lemma clear_wait_simps [simp]:
  "m_trx (clear_wait l) = m_trx l" "m_object (clear_wait l) = m_object l"
  "m_page_id (clear_wait l) = m_page_id l" "m_n_bits (clear_wait l) = m_n_bits l"
  "rec_is_nth_bit_set (clear_wait l) h = rec_is_nth_bit_set l h"
  "lock_mode (clear_wait l) = lock_mode l" "lock_type (clear_wait l) = lock_type l"
  "rec_is_gap (clear_wait l) = rec_is_gap l" "rec_is_not_gap (clear_wait l) = rec_is_not_gap l"
  "rec_is_insert_intention (clear_wait l) = rec_is_insert_intention l"
  "\<not> is_waiting (clear_wait l)" "wf_bitmap (clear_wait l) = wf_bitmap l"
  by (simp_all add: clear_wait_def lock_mode_def lock_type_def lock_flag_bits flag_simps bit_simps)

lemma has_to_wait_for_clear_wait [simp]:
  "has_to_wait_for (clear_wait l) k h = has_to_wait_for l k h"
  "has_to_wait_for l (clear_wait k) h = has_to_wait_for l k h"
proof -
  have "rec_blocks k t (m_type_mode (clear_wait l)) b = rec_blocks k t (m_type_mode l) b" for t b
    by (simp add: rec_blocks_def and.commute [of LOCK_MODE_MASK] clear_wait_def flag_simps flag_bit_iff bit_simps)
  then show "has_to_wait_for (clear_wait l) k h = has_to_wait_for l k h"
    by (simp add: has_to_wait_for_def precise_mode_def)
  show "has_to_wait_for l (clear_wait k) h = has_to_wait_for l k h"
    by (simp add: has_to_wait_for_def rec_blocks_def)
qed

lemma rec_ok_clear_wait [simp]: "rec_ok (clear_wait l) = rec_ok l"
  by (simp add: rec_ok_def)

lemma table_ok_clear_wait [simp]: "table_ok (clear_wait l) = table_ok l"
  by (simp add: table_ok_def)

section \<open>Both kinds of queue meet the contract\<close>

interpretation recq: grant_queue rec_ok rec_conflicts rec_waits granted clear_wait
proof
  show "rec_conflicts b a" if "rec_ok a" "rec_ok b" "rec_conflicts a b" for a b
    using that rec_conflict_sym by (auto simp: rec_ok_def rec_conflicts_def)
  show "rec_waits b a" if ok: "rec_ok a" "rec_ok b" and c: "rec_conflicts a b" for a b
  proof -
    from c obtain h where h: "rec_conflict h a b" by (auto simp: rec_conflicts_def)
    then have "rec_conflict h b a" using ok rec_conflict_sym by (auto simp: rec_ok_def)
    then show ?thesis using rec_conflict_waits ok h
      by (auto simp: rec_ok_def rec_waits_def rec_conflict_def)
  qed
qed (simp_all add: rec_conflicts_def rec_conflict_def rec_waits_def)

interpretation tblq: grant_queue table_ok table_conflict table_waits granted clear_wait
proof
  show "table_conflict b a" if "table_ok a" "table_ok b" "table_conflict a b" for a b
    using that mode_compatible_sym by (auto simp: table_ok_def table_conflict_def)
  show "table_waits b a" if "table_ok a" "table_ok b" "table_conflict a b" for a b
    using that mode_compatible_sym
    by (auto simp: table_ok_def table_conflict_def table_waits_def has_to_wait_for_def lock_flag_defs)
qed (simp_all add: table_conflict_def table_waits_def)


section \<open>Ending a lock wait\<close>

text \<open>What waking threads leaves alone.\<close>

definition lock_frame :: "lock_sys \<Rightarrow> lock_sys \<Rightarrow> bool" where
  "lock_frame s s' \<longleftrightarrow>
     lock_heap s' = lock_heap s \<and> next_lock s' = next_lock s \<and> rec_locks s' = rec_locks s
   \<and> table_locks s' = table_locks s
   \<and> (\<forall>t. trx_locks (ltrx_heap s' t) = trx_locks (ltrx_heap s t)
        \<and> wait_lock (ltrx_heap s' t) = wait_lock (ltrx_heap s t))"

definition env_frame :: "lock_sys \<Rightarrow> lock_sys \<Rightarrow> bool" where
  "env_frame s s' \<longleftrightarrow>
     ltrx_list s' = ltrx_list s
   \<and> (\<forall>thr. thr_graph (thr_heap s' thr) = thr_graph (thr_heap s thr))
   \<and> (\<forall>f. fork_trx (fork_heap s' f) = fork_trx (fork_heap s f)
        \<and> fork_state (fork_heap s' f) = fork_state (fork_heap s f)
        \<and> is_rollback_fork (fork_heap s' f) = is_rollback_fork (fork_heap s f))
   \<and> (\<forall>t. isolation_level (ltrx_heap s' t) = isolation_level (ltrx_heap s t)
        \<and> error_state (ltrx_heap s' t) = error_state (ltrx_heap s t)
        \<and> signals (ltrx_heap s' t) = signals (ltrx_heap s t)
        \<and> n_undo (ltrx_heap s' t) = n_undo (ltrx_heap s t))"

lemma lock_frame_refl [simp]: "lock_frame s s"
  by (simp add: lock_frame_def)

lemma lock_frame_trans [trans]: "lock_frame s s' \<Longrightarrow> lock_frame s' s'' \<Longrightarrow> lock_frame s s''"
  by (simp add: lock_frame_def)

lemma env_frame_refl [simp]: "env_frame s s"
  by (simp add: env_frame_def)

lemma env_frame_trans [trans]: "env_frame s s' \<Longrightarrow> env_frame s' s'' \<Longrightarrow> env_frame s s''"
  by (simp add: env_frame_def)

lemma thr_get_trx_frame: "env_frame s s' \<Longrightarrow> thr_get_trx s' thr = thr_get_trx s thr"
  by (simp add: env_frame_def thr_get_trx_def)

definition que_states :: "lock_sys \<Rightarrow> ltrx_ptr \<Rightarrow> que_state" where
  "que_states s t = trx_que_state (ltrx_heap s t)"

lemma move_to_run_frames:
  "lock_frame s (que_thr_move_to_run_state thr s)" "env_frame s (que_thr_move_to_run_state thr s)"
  "que_states (que_thr_move_to_run_state thr s) = que_states s"
  "wait_thrs (ltrx_heap (que_thr_move_to_run_state thr s) t) = wait_thrs (ltrx_heap s t)"
  "deadlock_mark (ltrx_heap (que_thr_move_to_run_state thr s) t) = deadlock_mark (ltrx_heap s t)"
  "thr_state (thr_heap (que_thr_move_to_run_state thr s) th) =
     (if th = thr then QUE_THR_RUNNING else thr_state (thr_heap s th))"
  by (auto simp: lock_frame_def env_frame_def que_states_def que_thr_move_to_run_state_def Let_def)

text \<open>
  With its threads waiting as they should, ending a lock wait succeeds, empties the list of
  waiting threads and sets the transaction running.
\<close>

definition wait_ended :: "ltrx_ptr \<Rightarrow> lock_sys \<Rightarrow> lock_sys \<Rightarrow> bool" where
  "wait_ended t s s' \<longleftrightarrow> lock_frame s s' \<and> env_frame s s'
     \<and> (\<forall>u. deadlock_mark (ltrx_heap s' u) = deadlock_mark (ltrx_heap s u))
     \<and> que_states s' = (que_states s)(t := TRX_QUE_RUNNING)"

lemma end_wait_thrs_total:
  assumes "wait_thrs (ltrx_heap s t) = thrs" "distinct thrs"
    "\<And>thr. thr \<in> set thrs \<Longrightarrow> thr_state (thr_heap s thr) = QUE_THR_LOCK_WAIT"
  shows "\<exists>s'. end_wait_thrs t thrs s = Some s' \<and> lock_frame s s' \<and> env_frame s s' \<and> que_states s' = que_states s
     \<and> (\<forall>u. deadlock_mark (ltrx_heap s' u) = deadlock_mark (ltrx_heap s u))
     \<and> (\<forall>u. wait_thrs (ltrx_heap s' u) = (if u = t then [] else wait_thrs (ltrx_heap s u)))
     \<and> (\<forall>th. th \<notin> set thrs \<longrightarrow> thr_state (thr_heap s' th) = thr_state (thr_heap s th))"
  using assms
proof (induction thrs arbitrary: s)
  case Nil
  then show ?case by auto
next
  case (Cons thr thrs)
  define s1 where "s1 = upd_trx t (wait_thrs_update (remove1 thr)) (que_thr_move_to_run_state thr s)"
  note run = move_to_run_frames [where s = s and thr = thr]
  have s1: "lock_frame s s1" "env_frame s s1" "que_states s1 = que_states s"
    "\<And>u. wait_thrs (ltrx_heap s1 u) = (if u = t then thrs else wait_thrs (ltrx_heap s u))"
    "\<And>u. deadlock_mark (ltrx_heap s1 u) = deadlock_mark (ltrx_heap s u)"
    "\<And>th. th \<noteq> thr \<Longrightarrow> thr_state (thr_heap s1 th) = thr_state (thr_heap s th)"
    using run Cons.prems(1) by (auto simp: s1_def lock_frame_def env_frame_def que_states_def fun_eq_iff)
  have "\<And>th. th \<in> set thrs \<Longrightarrow> thr_state (thr_heap s1 th) = QUE_THR_LOCK_WAIT"
    using s1(6) Cons.prems by (metis distinct.simps(2) list.set_intros(2))
  with Cons.IH [of s1] s1(4) [of t] Cons.prems(2) obtain s' where s':
    "end_wait_thrs t thrs s1 = Some s'" "lock_frame s1 s'" "env_frame s1 s'" "que_states s' = que_states s1"
    "\<forall>u. wait_thrs (ltrx_heap s' u) = (if u = t then [] else wait_thrs (ltrx_heap s1 u))"
    "\<forall>u. deadlock_mark (ltrx_heap s' u) = deadlock_mark (ltrx_heap s1 u)"
    "\<forall>th. th \<notin> set thrs \<longrightarrow> thr_state (thr_heap s' th) = thr_state (thr_heap s1 th)" by auto
  have "end_wait_thrs t (thr # thrs) s = Some s'"
    using s'(1) Cons.prems(3) [of thr] by (simp add: que_thr_end_wait_no_next_thr_def s1_def)
  moreover have "lock_frame s s'" "env_frame s s'"
    using s1(1,2) s'(2,3) lock_frame_trans env_frame_trans by blast+
  ultimately show ?case using s' s1 by auto
qed

lemma end_lock_wait_total:
  assumes wf: "wf_thrs s"
  obtains s' where "end_lock_wait t s = Some s'" "wait_ended t s s'" "wf_thrs s'"
proof -
  from wf have t: "distinct (wait_thrs (ltrx_heap s t))"
    "\<And>thr. thr \<in> set (wait_thrs (ltrx_heap s t)) \<Longrightarrow> thr_state (thr_heap s thr) = QUE_THR_LOCK_WAIT"
    by (auto simp: wf_thrs_def)
  from end_wait_thrs_total [OF refl this] obtain s1 where s1:
    "end_wait_thrs t (wait_thrs (ltrx_heap s t)) s = Some s1" "lock_frame s s1" "env_frame s s1"
    "que_states s1 = que_states s"
    "\<forall>u. wait_thrs (ltrx_heap s1 u) = (if u = t then [] else wait_thrs (ltrx_heap s u))"
    "\<forall>u. deadlock_mark (ltrx_heap s1 u) = deadlock_mark (ltrx_heap s u)"
    "\<forall>th. th \<notin> set (wait_thrs (ltrx_heap s t)) \<longrightarrow> thr_state (thr_heap s1 th) = thr_state (thr_heap s th)"
    by auto
  define s' where "s' = upd_trx t (trx_que_state_update (\<lambda>_. TRX_QUE_RUNNING)) s1"
  have env: "env_frame s s'" using s1(3) by (auto simp: s'_def env_frame_def)
  have "end_lock_wait t s = Some s'" using s1(1) by (simp add: end_lock_wait_def s'_def)
  moreover have "wait_ended t s s'"
    using s1 env by (auto simp: wait_ended_def s'_def lock_frame_def que_states_def fun_eq_iff)
  moreover have "wf_thrs s'"
    unfolding wf_thrs_def
  proof (intro allI conjI ballI impI)
    fix u thr
    assume "thr \<in> set (wait_thrs (ltrx_heap s' u))"
    then have u: "u \<noteq> t" "thr \<in> set (wait_thrs (ltrx_heap s u))"
      using s1(5) by (auto simp: s'_def split: if_splits)
    then have tu: "thr_get_trx s thr = u" using wf by (auto simp: wf_thrs_def)
    then show "thr_get_trx s' thr = u" using env thr_get_trx_frame by simp
    have "thr \<notin> set (wait_thrs (ltrx_heap s t))" using u(1) tu wf by (auto simp: wf_thrs_def)
    then show "thr_state (thr_heap s' thr) = QUE_THR_LOCK_WAIT"
      using s1(7) u(2) wf by (auto simp: s'_def wf_thrs_def)
  next
    fix u
    show "distinct (wait_thrs (ltrx_heap s' u))" using s1(5) wf by (auto simp: s'_def wf_thrs_def)
    assume "wait_thrs (ltrx_heap s' u) \<noteq> []"
    then have "u \<noteq> t" "wait_thrs (ltrx_heap s u) \<noteq> []" using s1(5) by (auto simp: s'_def split: if_splits)
    then show "trx_que_state (ltrx_heap s' u) = TRX_QUE_LOCK_WAIT"
      using s1(4) wf by (simp add: s'_def wf_thrs_def que_states_def fun_eq_iff)
  qed
  ultimately show thesis by (rule that)
qed


section \<open>Granting\<close>

text \<open>The effect of granting the requests in \<open>G\<close>.\<close>

definition grants :: "lock_ptr set \<Rightarrow> lock_sys \<Rightarrow> lock_sys \<Rightarrow> bool" where
  "grants G s s' \<longleftrightarrow>
     lock_heap s' = (\<lambda>p. if p \<in> G then clear_wait (lock_heap s p) else lock_heap s p)
   \<and> next_lock s' = next_lock s \<and> rec_locks s' = rec_locks s \<and> table_locks s' = table_locks s
   \<and> env_frame s s'
   \<and> (\<forall>t. trx_locks (ltrx_heap s' t) = trx_locks (ltrx_heap s t)
        \<and> wait_lock (ltrx_heap s' t) =
            (if \<exists>p\<in>G. m_trx (lock_heap s p) = t then None else wait_lock (ltrx_heap s t))
        \<and> deadlock_mark (ltrx_heap s' t) = deadlock_mark (ltrx_heap s t)
        \<and> que_states s' t =
            (if (\<exists>p\<in>G. m_trx (lock_heap s p) = t) \<and> que_states s t = TRX_QUE_LOCK_WAIT
             then TRX_QUE_RUNNING else que_states s t))"

lemma clear_wait_idem [simp]: "clear_wait (clear_wait l) = clear_wait l"
  by (simp add: clear_wait_def and.assoc)

lemma grants_empty [simp]: "grants {} s s"
  by (simp add: grants_def)

lemma grants_trans:
  assumes "grants G s s'" "grants H s' s''"
  shows "grants (G \<union> H) s s''"
  using assms env_frame_trans [of s s' s''] unfolding grants_def by (auto simp: fun_eq_iff)

lemma grants_page_queue: "grants G s s' \<Longrightarrow> page_queue s' pg = page_queue s pg"
  by (simp add: grants_def page_queue_def)

lemma grants_queued: "grants G s s' \<Longrightarrow> queued s' p = queued s p"
  by (simp add: queued_def grants_page_queue) (simp add: grants_def)

lemma grants_other:
  assumes "grants G s s'" "G \<inter> set q = {}"
  shows "map (lock_heap s') q = map (lock_heap s) q"
  using assms by (auto simp: grants_def)

lemma lock_reset_heap: "lock_heap (lock_reset p s) = (lock_heap s)(p := clear_wait (lock_heap s p))"
  by (auto simp: lock_reset_def clear_wait_def fun_eq_iff)

lemma lock_reset_fields [simp]:
  "next_lock (lock_reset p s) = next_lock s" "rec_locks (lock_reset p s) = rec_locks s"
  "table_locks (lock_reset p s) = table_locks s" "thr_heap (lock_reset p s) = thr_heap s"
  "fork_heap (lock_reset p s) = fork_heap s" "ltrx_list (lock_reset p s) = ltrx_list s"
  "ltrx_heap (lock_reset p s) t =
     (if t = m_trx (lock_heap s p) then ltrx_heap s t\<lparr>wait_lock := None\<rparr> else ltrx_heap s t)"
  by (simp_all add: lock_reset_def)

lemma env_frame_lock_reset [simp]: "env_frame s (lock_reset p s)"
  by (simp add: env_frame_def)

lemma wf_thrs_cong:
  assumes "\<And>t. wait_thrs (ltrx_heap s' t) = wait_thrs (ltrx_heap s t)"
    and "\<And>t. trx_que_state (ltrx_heap s' t) = trx_que_state (ltrx_heap s t)"
    and "thr_heap s' = thr_heap s" "fork_heap s' = fork_heap s"
  shows "wf_thrs s' = wf_thrs s"
  using assms by (simp add: wf_thrs_def thr_get_trx_def)

lemma wf_thrs_lock_reset [simp]: "wf_thrs (lock_reset p s) = wf_thrs s"
  by (rule wf_thrs_cong) simp_all

lemma grant_total:
  assumes "wf_thrs s"
  obtains s' where "grant p s = Some s'" "grants {p} s s'" "wf_thrs s'"
proof -
  let ?t = "m_trx (lock_heap s p)"
  let ?s1 = "lock_reset p s"
  have trx: "m_trx (lock_heap ?s1 p) = ?t" by (simp add: lock_reset_heap)
  show thesis
  proof (cases "trx_que_state (ltrx_heap ?s1 ?t) = TRX_QUE_LOCK_WAIT")
    case True
    obtain s' where s': "end_lock_wait ?t ?s1 = Some s'" "wait_ended ?t ?s1 s'" "wf_thrs s'"
      using end_lock_wait_total [of ?s1] assms by auto
    have "grants {p} s s'"
      using s'(2) True env_frame_trans [of s ?s1 s'] unfolding grants_def wait_ended_def lock_frame_def
      by (auto simp: lock_reset_heap que_states_def fun_eq_iff)
    moreover have "grant p s = Some s'" using True s'(1) trx by (simp add: grant_def Let_def)
    ultimately show thesis using s'(3) that by blast
  next
    case False
    have "grants {p} s ?s1"
      using False by (auto simp: grants_def lock_reset_heap que_states_def fun_eq_iff)
    moreover have "grant p s = Some ?s1" using False trx by (simp add: grant_def Let_def)
    ultimately show thesis using assms that by simp
  qed
qed

fun for_each :: "(lock_ptr \<Rightarrow> lock_sys \<Rightarrow> lock_sys option) \<Rightarrow> lock_ptr list \<Rightarrow> lock_sys \<Rightarrow> lock_sys option" where
  "for_each body [] s = Some s"
| "for_each body (p # q) s = Option.bind (body p s) (for_each body q)"

text \<open>A loop whose body keeps the queue visits the elements the queue has at the start.\<close>

lemma queue_for_fixed:
  assumes keep: "\<And>p s s'. body p s = Some s' \<Longrightarrow> rec_locks s' pg = rec_locks s pg"
  shows "rec_locks s pg = Some q \<Longrightarrow> queue_for body pg i s = for_each body (drop i q) s"
proof (induction "length q - i" arbitrary: i s)
  case 0
  then show ?case by (subst queue_for.simps) simp
next
  case (Suc n)
  then have i: "i < length q" by simp
  have "(case body (q ! i) s of None \<Rightarrow> None | Some s' \<Rightarrow> queue_for body pg (i + 1) s') =
      Option.bind (body (q ! i) s) (for_each body (drop (i + 1) q))"
  proof (cases "body (q ! i) s")
    case (Some s')
    then have "rec_locks s' pg = Some q" using keep Suc.prems by simp
    then show ?thesis using Suc.hyps(1) [of "i + 1" s'] Suc.hyps(2) Some by simp
  qed simp
  then show ?case using i Suc.prems
    by (subst queue_for.simps) (simp add: Cons_nth_drop_Suc [symmetric])
qed

text \<open>
  The grant loops of both kinds of queue: the body grants a waiting request when nothing ahead
  of it blocks it, so the loop performs the grant pass of the contract.
\<close>

lemma for_each_grants:
  assumes body: "\<And>p s. body p s = (if is_waiting (lock_heap s p) \<and> \<not> blocked s p then grant p s else Some s)"
    and blocked: "\<And>G s' xs' p ys'. grants G s s' \<Longrightarrow> xs @ ys = xs' @ p # ys' \<Longrightarrow> length xs \<le> length xs' \<Longrightarrow>
          is_waiting (lock_heap s' p) \<Longrightarrow>
          blocked s' p \<longleftrightarrow> (\<exists>a\<in>set xs'. waits (lock_heap s' p) (lock_heap s' a))"
    and "wf_thrs s" "distinct (xs @ ys)"
  shows "\<exists>s' G. for_each body ys s = Some s' \<and> grants G s s' \<and> wf_thrs s'
      \<and> G \<subseteq> {p \<in> set ys. is_waiting (lock_heap s p)}
      \<and> map (lock_heap s') ys = grant_pass waits granted clear_wait (map (lock_heap s) xs) (map (lock_heap s) ys)"
  using assms(2-)
proof (induction ys arbitrary: xs s)
  case Nil
  then show ?case by (auto intro: exI [of _ "{}"])
next
  case (Cons p ys)
  obtain s1 G1 where s1: "body p s = Some s1" "grants G1 s s1" "wf_thrs s1" "G1 \<subseteq> {p}"
    "G1 \<noteq> {} \<longleftrightarrow> is_waiting (lock_heap s p) \<and> \<not> blocked s p"
  proof (cases "is_waiting (lock_heap s p) \<and> \<not> blocked s p")
    case True
    then show thesis using grant_total [OF Cons.prems(2), of p] that [of _ "{p}"] body by auto
  next
    case False
    then show thesis using that [of s "{}"] Cons.prems(2) body by auto
  qed
  have p: "blocked s p \<longleftrightarrow> (\<exists>a\<in>set xs. waits (lock_heap s p) (lock_heap s a))" if "is_waiting (lock_heap s p)"
    using Cons.prems(1) [OF grants_empty, of xs p ys] that by simp
  have heap1: "lock_heap s1 p = (if is_waiting (lock_heap s p) \<and> \<not> (\<exists>a\<in>set xs. waits (lock_heap s p) (lock_heap s a))
      then clear_wait (lock_heap s p) else lock_heap s p)"
    using s1(2,4,5) p by (auto simp: grants_def)
  have same: "map (lock_heap s1) xs = map (lock_heap s) xs" "map (lock_heap s1) ys = map (lock_heap s) ys"
    using Cons.prems(3) s1(4) by (intro grants_other [OF s1(2)]; auto)+
  have "\<exists>s' G. for_each body ys s1 = Some s' \<and> grants G s1 s' \<and> wf_thrs s'
      \<and> G \<subseteq> {p \<in> set ys. is_waiting (lock_heap s1 p)}
      \<and> map (lock_heap s') ys
        = grant_pass waits granted clear_wait (map (lock_heap s1) (xs @ [p])) (map (lock_heap s1) ys)"
  proof (rule Cons.IH)
    fix G s' xs' p' ys'
    assume "grants G s1 s'" "(xs @ [p]) @ ys = xs' @ p' # ys'" "length (xs @ [p]) \<le> length xs'"
      "is_waiting (lock_heap s' p')"
    then show "blocked s' p' \<longleftrightarrow> (\<exists>a\<in>set xs'. waits (lock_heap s' p') (lock_heap s' a))"
      using Cons.prems(1) [OF grants_trans [OF s1(2)], of G s' xs' p' ys'] by simp
  qed (use s1(3) Cons.prems(3) in auto)
  then obtain s' G where s': "for_each body ys s1 = Some s'" "grants G s1 s'" "wf_thrs s'"
    "G \<subseteq> {p \<in> set ys. is_waiting (lock_heap s1 p)}"
    "map (lock_heap s') ys
      = grant_pass waits granted clear_wait (map (lock_heap s1) (xs @ [p])) (map (lock_heap s1) ys)"
    by blast
  have "lock_heap s' p = lock_heap s1 p" using s'(2,4) Cons.prems(3) by (auto simp: grants_def)
  then have "map (lock_heap s') (p # ys)
      = grant_pass waits granted clear_wait (map (lock_heap s) xs) (map (lock_heap s) (p # ys))"
    using s'(5) heap1 by (simp add: same Let_def)
  moreover have "G1 \<union> G \<subseteq> {p' \<in> set (p # ys). is_waiting (lock_heap s p')}"
    using s1(2,4,5) s'(4) by (auto simp: grants_def split: if_splits)
  ultimately show ?case
    using s1(1) s'(1,3) grants_trans [OF s1(2) s'(2)] by (intro exI [of _ s'] exI [of _ "G1 \<union> G"]) simp
qed


lemma grants_wf_locks: "grants G s s' \<Longrightarrow> wf_locks s \<Longrightarrow> wf_locks s'"
  by (simp add: wf_locks_def grants_queued grants_page_queue) (simp add: grants_def)

lemma grants_wf_wait:
  assumes "grants G s s'" "wf_wait X s" "\<And>p. p \<in> G \<Longrightarrow> queued s p \<and> is_waiting (lock_heap s p)"
  shows "wf_wait X s'"
proof -
  have trx: "m_trx (lock_heap s' p) = m_trx (lock_heap s p)" for p using assms(1) by (simp add: grants_def)
  have waiting: "is_waiting (lock_heap s' p) \<longleftrightarrow> p \<notin> G \<and> is_waiting (lock_heap s p)" for p
    using assms(1) by (simp add: grants_def)
  have wait_lock: "wait_lock (ltrx_heap s' t) =
      (if \<exists>p\<in>G. m_trx (lock_heap s p) = t then None else wait_lock (ltrx_heap s t))" for t
    using assms(1) by (simp add: grants_def)
  have bits: "one_bit (lock_heap s' p) = one_bit (lock_heap s p)" for p
    using assms(1) by (simp add: grants_def one_bit_def)
  have unique: "r = p" if "p \<in> G" "wait_lock (ltrx_heap s (m_trx (lock_heap s p))) = Some r" for p r
    using assms(2,3) that by (auto simp: wf_wait_def)
  note simps = grants_queued [OF assms(1)] grants_page_queue [OF assms(1)] trx waiting wait_lock bits
  have backptr: "wait_lock (ltrx_heap s' (m_trx (lock_heap s' p))) = Some p"
    if "queued s' p" "is_waiting (lock_heap s' p)" for p
  proof -
    have "wait_lock (ltrx_heap s (m_trx (lock_heap s p))) = Some p"
      using that assms(2) by (simp add: simps wf_wait_def)
    moreover from this have "\<not> (\<exists>g\<in>G. m_trx (lock_heap s g) = m_trx (lock_heap s p))"
      using that unique by (metis waiting)
    ultimately show ?thesis by (simp add: simps)
  qed
  have forth: "is_waiting (lock_heap s' p) \<and> m_trx (lock_heap s' p) = t \<and> (queued s' p \<or> p \<in> X)"
    if "wait_lock (ltrx_heap s' t) = Some p" for t p
  proof -
    have w: "wait_lock (ltrx_heap s t) = Some p" "\<not> (\<exists>p\<in>G. m_trx (lock_heap s p) = t)"
      using that by (auto simp: wait_lock split: if_splits)
    then have "is_waiting (lock_heap s p) \<and> m_trx (lock_heap s p) = t \<and> (queued s p \<or> p \<in> X)"
      using assms(2) by (simp add: wf_wait_def)
    then show ?thesis using w(2) by (auto simp: simps)
  qed
  have "one_bit (lock_heap s' p)" if "p \<in> set (page_queue s' pg)" "is_waiting (lock_heap s' p)" for p pg
    using that assms(2) by (auto simp: simps wf_wait_def)
  with backptr forth show ?thesis unfolding wf_wait_def by blast
qed

lemma grants_wf_que: "grants G s s' \<Longrightarrow> wf_que s \<Longrightarrow> wf_que s'"
  by (fastforce simp: wf_que_def grants_def que_states_def split: if_splits)

section \<open>Removing a request\<close>

text \<open>Well-formedness of the queues depends on the structs only through what does not change.\<close>

lemma wf_locks_cong:
  assumes wf: "wf_locks s"
    and eq: "next_lock s' = next_lock s" "rec_locks s' = rec_locks s" "table_locks s' = table_locks s"
      "\<And>t. trx_locks (ltrx_heap s' t) = trx_locks (ltrx_heap s t)"
    and locks: "\<And>p. queued s p \<Longrightarrow> m_trx (lock_heap s' p) = m_trx (lock_heap s p)"
      "\<And>p. queued s p \<Longrightarrow> m_page_id (lock_heap s' p) = m_page_id (lock_heap s p)"
      "\<And>p. queued s p \<Longrightarrow> m_object (lock_heap s' p) = m_object (lock_heap s p)"
      "\<And>p. queued s p \<Longrightarrow> rec_ok (lock_heap s' p) = rec_ok (lock_heap s p)"
      "\<And>p. queued s p \<Longrightarrow> table_ok (lock_heap s' p) = table_ok (lock_heap s p)"
  shows "wf_locks s'"
proof -
  have pq: "page_queue s' = page_queue s" using eq(2) by (simp add: page_queue_def fun_eq_iff)
  then have queued: "queued s' p = queued s p" for p using eq(3) by (simp add: queued_def)
  have "p \<in> set (page_queue s pg) \<Longrightarrow> queued s p" "p \<in> set (table_locks s tb) \<Longrightarrow> queued s p" for p pg tb
    by (auto simp: queued_def)
  moreover have "{p. queued s p \<and> m_trx (lock_heap s' p) = t} = {p. queued s p \<and> m_trx (lock_heap s p) = t}" for t
    using locks(1) by auto
  ultimately show ?thesis
    using wf locks(2-) unfolding wf_locks_def pq queued eq by simp
qed

lemma trx_locks_iff:
  "wf_locks s \<Longrightarrow> p \<in> set (trx_locks (ltrx_heap s t)) \<longleftrightarrow> queued s p \<and> m_trx (lock_heap s p) = t"
  by (simp add: wf_locks_def)

lemma wf_page_member:
  assumes "wf_locks s" "p \<in> set (page_queue s pg)"
  shows "p < next_lock s" "m_page_id (lock_heap s p) = pg" "rec_ok (lock_heap s p)" "queued s p"
    "p \<in> set (trx_locks (ltrx_heap s (m_trx (lock_heap s p))))" "rec_locks s pg = Some (page_queue s pg)"
    "page_queue s pg \<noteq> []" "p \<notin> set (table_locks s tb)"
proof -
  show ok: "p < next_lock s" "m_page_id (lock_heap s p) = pg" "rec_ok (lock_heap s p)"
    using assms by (auto simp: wf_locks_def)
  show q: "queued s p" using assms by (auto simp: queued_def)
  then show "p \<in> set (trx_locks (ltrx_heap s (m_trx (lock_heap s p))))"
    using assms(1) by (auto simp: wf_locks_def)
  show "rec_locks s pg = Some (page_queue s pg)" "page_queue s pg \<noteq> []"
    using assms(2) by (cases "rec_locks s pg"; auto simp: page_queue_def)+
  show "p \<notin> set (table_locks s tb)"
    using assms(1) ok(3) by (auto simp: wf_locks_def rec_ok_def table_ok_def lock_flag_defs)
qed

lemma wf_table_member:
  assumes "wf_locks s" "p \<in> set (table_locks s tb)"
  shows "p < next_lock s" "m_object (lock_heap s p) = tb" "table_ok (lock_heap s p)" "queued s p"
    "p \<in> set (trx_locks (ltrx_heap s (m_trx (lock_heap s p))))" "p \<notin> set (page_queue s pg)"
proof -
  show ok: "p < next_lock s" "m_object (lock_heap s p) = tb" "table_ok (lock_heap s p)"
    using assms by (auto simp: wf_locks_def)
  show q: "queued s p" using assms by (auto simp: queued_def)
  then show "p \<in> set (trx_locks (ltrx_heap s (m_trx (lock_heap s p))))"
    using assms(1) by (auto simp: wf_locks_def)
  show "p \<notin> set (page_queue s pg)"
    using assms ok(3) wf_page_member(8) by blast
qed

text \<open>The state in which \<open>p\<close> is out of its queue and its transaction's list.\<close>

definition removed :: "lock_ptr \<Rightarrow> lock_sys \<Rightarrow> lock_sys \<Rightarrow> bool" where
  "removed p s s' \<longleftrightarrow>
     lock_heap s' = lock_heap s \<and> next_lock s' = next_lock s
   \<and> (\<forall>pg. page_queue s' pg = remove1 p (page_queue s pg) \<and> rec_locks s' pg \<noteq> Some [])
   \<and> (\<forall>tb. table_locks s' tb = remove1 p (table_locks s tb))
   \<and> env_frame s s'
   \<and> (\<forall>t. trx_locks (ltrx_heap s' t) = remove1 p (trx_locks (ltrx_heap s t))
        \<and> wait_lock (ltrx_heap s' t) = wait_lock (ltrx_heap s t)
        \<and> deadlock_mark (ltrx_heap s' t) = deadlock_mark (ltrx_heap s t)
        \<and> que_states s' t = que_states s t)"

lemma removed_queued:
  assumes "wf_locks s" "removed p s s'"
  shows "queued s' r \<longleftrightarrow> queued s r \<and> r \<noteq> p"
proof -
  have "distinct (page_queue s pg)" "distinct (table_locks s tb)" for pg tb
    using assms(1) by (auto simp: wf_locks_def)
  then show ?thesis using assms(2) by (auto simp: removed_def queued_def)
qed

lemma removed_wf_locks:
  assumes "wf_locks s" "removed p s s'"
  shows "wf_locks s'"
proof -
  have "distinct (page_queue s pg)" "distinct (table_locks s tb)" "distinct (trx_locks (ltrx_heap s t))" for pg tb t
    using assms(1) by (auto simp: wf_locks_def)
  then show ?thesis
    using assms removed_queued [OF assms]
    by (auto simp: wf_locks_def removed_def dest: notin_set_remove1)
qed

lemma removed_wf_wait:
  assumes "wf_locks s" "removed p s s'" "wf_wait {} s"
  shows "wf_wait {p} s'"
proof -
  have "set (page_queue s' pg) \<subseteq> set (page_queue s pg)" for pg
    using assms(2) by (simp add: removed_def set_remove1_subset)
  then have "one_bit (lock_heap s' r)" if "r \<in> set (page_queue s' pg)" "is_waiting (lock_heap s' r)" for r pg
    using subsetD that assms(2,3) unfolding removed_def wf_wait_def by metis
  moreover have "lock_heap s' = lock_heap s" "\<And>t. wait_lock (ltrx_heap s' t) = wait_lock (ltrx_heap s t)"
    using assms(2) by (auto simp: removed_def)
  ultimately show ?thesis
    using assms(3) removed_queued [OF assms(1,2)] unfolding wf_wait_def by auto
qed

lemma queue_safe_remove1:
  "queue_safe c gr (map f q) \<Longrightarrow> queue_safe c gr (map f (remove1 p q))"
proof (cases "p \<in> set q")
  case True
  then obtain xs ys where "q = xs @ p # ys" "p \<notin> set xs" by (meson split_list_first)
  then show "queue_safe c gr (map f q) \<Longrightarrow> queue_safe c gr (map f (remove1 p q))"
    using queue_safe_remove [of c gr "map f xs" "f p" "map f ys"] by (simp add: remove1_append)
qed (simp add: remove1_idem)

lemma removed_safe: "removed p s s' \<Longrightarrow> queues_safe s \<Longrightarrow> queues_safe s'"
  by (simp add: queues_safe_def removed_def page_locks_def tbl_locks_def queue_safe_remove1)

lemma removed_wf_que: "removed p s s' \<Longrightarrow> wf_que s \<Longrightarrow> wf_que s'"
  by (simp add: wf_que_def removed_def que_states_def)


lemma removed_wf_thrs_page:
  "wf_thrs (upd_trx t (trx_locks_update f) (s\<lparr>rec_locks := r\<rparr>)) = wf_thrs s"
  by (rule wf_thrs_cong) auto

lemma rec_wait_in_queue_iff:
  "p \<notin> set xs \<Longrightarrow> rec_has_to_wait_in_queue s (xs @ p # ys) p h \<longleftrightarrow>
     (\<exists>a\<in>set xs. rec_is_nth_bit_set (lock_heap s a) h \<and> has_to_wait_for (lock_heap s p) (lock_heap s a) h)"
  by (induction xs) (auto simp: rec_get_n_bits_def dest: rec_is_nth_bit_set_bound)

lemma rec_wait_in_queue_waits:
  assumes "p \<notin> set xs" "one_bit (lock_heap s p)"
  shows "rec_has_to_wait_in_queue s (xs @ p # ys) p (rec_find_set_bit (lock_heap s p)) \<longleftrightarrow>
     (\<exists>a\<in>set xs. rec_waits (lock_heap s p) (lock_heap s a))"
proof -
  from assms(2) obtain h where h: "\<And>j. rec_is_nth_bit_set (lock_heap s p) j \<longleftrightarrow> j = h"
    by (auto simp: one_bit_def)
  then have "rec_find_set_bit (lock_heap s p) = h" using rec_find_set_bit_unique by blast
  then show ?thesis using assms(1) h by (auto simp: rec_wait_in_queue_iff rec_waits_def)
qed

lemma table_wait_in_queue_iff:
  "p \<notin> set xs \<Longrightarrow> table_has_to_wait_loop s (xs @ p # ys) p \<longleftrightarrow>
     (\<exists>a\<in>set xs. table_waits (lock_heap s p) (lock_heap s a))"
  by (induction xs) (auto simp: table_waits_def)

lemma grant_keeps_queues:
  assumes "grant p s = Some s'"
  shows "rec_locks s' = rec_locks s"
proof -
  have waits: "end_wait_thrs t thrs s = Some s' \<Longrightarrow> rec_locks s' = rec_locks s" for t thrs s s'
  proof (induction thrs arbitrary: s)
    case (Cons thr thrs)
    then show ?case
      using move_to_run_frames(1) [of s thr]
      by (auto simp: que_thr_end_wait_no_next_thr_def ut_a_def lock_frame_def split: if_splits)
  qed simp
  have "end_lock_wait t s = Some s' \<Longrightarrow> rec_locks s' = rec_locks s" for t s s'
    by (auto simp: end_lock_wait_def bind_eq_Some_conv dest: waits)
  then show ?thesis using assms by (auto simp: grant_def Let_def split: if_splits)
qed

text \<open>After granting what the rest of queue \<open>pg\<close> allows, every queue is safe and live.\<close>

lemma grants_page_queues:
  assumes g: "grants G s s'" and G: "G \<subseteq> set (page_queue s pg)" and wf: "wf_locks s"
    and pass: "map (lock_heap s') (page_queue s pg)
        = grant_pass rec_waits granted clear_wait [] (map (lock_heap s) (page_queue s pg))"
    and safe: "queues_safe s"
    and live: "\<And>pg'. pg' \<noteq> pg \<Longrightarrow> queue_live rec_waits granted (page_locks s pg')"
      "\<And>tb. queue_live table_waits granted (tbl_locks s tb)"
  shows "queues_safe s'" "queues_live s'"
proof -
  have page: "page_locks s' pg' = (if pg' = pg then grant_pass rec_waits granted clear_wait [] (page_locks s pg)
      else page_locks s pg')" for pg'
  proof (cases "pg' = pg")
    case False
    then have "G \<inter> set (page_queue s pg') = {}" using G wf_page_member(2) [OF wf] by blast
    with False show ?thesis using grants_other [OF g] by (simp add: page_locks_def grants_page_queue [OF g])
  qed (use pass in \<open>simp add: page_locks_def grants_page_queue [OF g]\<close>)
  have tbl: "tbl_locks s' tb = tbl_locks s tb" for tb
  proof -
    have "G \<inter> set (table_locks s tb) = {}" using G wf_page_member(8) [OF wf] by blast
    then show ?thesis using grants_other [OF g, of "table_locks s tb"] g by (simp add: tbl_locks_def grants_def)
  qed
  have ok: "l \<in> set (page_locks s pg') \<Longrightarrow> rec_ok l" for l pg'
    using wf_page_member(3) [OF wf] by (auto simp: page_locks_def)
  show "queues_safe s'"
    using safe recq.grant_pass_safe [of "[]" "page_locks s pg"] ok by (auto simp: queues_safe_def page tbl)
  show "queues_live s'"
    using live recq.grant_pass_live [of "[]" "page_locks s pg"] by (auto simp: queues_live_def page tbl)
qed


text \<open>
  The outcome of removing \<open>p\<close>: it is out of its queue and list, some waiting requests behind it
  are granted, and the invariant holds but for the back pointer to \<open>p\<close>.
\<close>

definition dequeued :: "lock_ptr \<Rightarrow> lock_sys \<Rightarrow> lock_sys \<Rightarrow> bool" where
  "dequeued p s s' \<longleftrightarrow>
     wf_locks s' \<and> wf_wait {p} s' \<and> wf_que s' \<and> wf_thrs s' \<and> queues_safe s' \<and> queues_live s'
   \<and> (\<exists>s2 G. removed p s s2 \<and> grants G s2 s'
        \<and> (\<forall>r\<in>G. queued s r \<and> r \<noteq> p \<and> is_waiting (lock_heap s r)))"

lemma dequeuedI:
  assumes inv: "lock_inv s" and rem: "removed p s s2" and g: "grants G s2 s'" and thrs: "wf_thrs s'"
    and G: "\<And>r. r \<in> G \<Longrightarrow> queued s r \<and> r \<noteq> p \<and> is_waiting (lock_heap s r)"
    and "queues_safe s'" "queues_live s'"
  shows "dequeued p s s'"
proof -
  have wf: "wf_locks s" "wf_wait {} s" "wf_que s" using inv by (auto simp: lock_inv_def)
  have "queued s2 r \<and> is_waiting (lock_heap s2 r)" if "r \<in> G" for r
    using G [OF that] removed_queued [OF wf(1) rem] rem by (simp add: removed_def)
  then have "wf_wait {p} s'" using grants_wf_wait [OF g removed_wf_wait [OF wf(1) rem wf(2)]] by blast
  then show ?thesis
    using assms grants_wf_locks [OF g removed_wf_locks [OF wf(1) rem]]
      grants_wf_que [OF g removed_wf_que [OF rem wf(3)]]
    unfolding dequeued_def by blast
qed

text \<open>The state in which \<^verbatim>\<open>rec_dequeue_from_page\<close> starts to grant.\<close>

definition rec_unqueue :: "lock_ptr \<Rightarrow> lock_sys \<Rightarrow> lock_sys" where
  "rec_unqueue p s =
    (let pg = m_page_id (lock_heap s p); q = remove1 p (page_queue s pg)
     in upd_trx (m_trx (lock_heap s p)) (trx_locks_update (remove1 p))
          (s\<lparr>rec_locks := (rec_locks s)(pg := (if q = [] then None else Some q))\<rparr>))"

lemma rec_unqueue_removed:
  assumes wf: "wf_locks s" and p: "p \<in> set (page_queue s pg)"
  shows "removed p s (rec_unqueue p s)"
proof -
  note mem = wf_page_member [OF wf p]
  have pq: "page_queue (rec_unqueue p s) pg' = remove1 p (page_queue s pg')" for pg'
  proof (cases "pg' = pg")
    case False
    then have "p \<notin> set (page_queue s pg')" using wf_page_member(2) [OF wf] mem(2) by blast
    with False show ?thesis using mem(2) by (simp add: rec_unqueue_def page_queue_def remove1_idem Let_def)
  qed (use mem(2) in \<open>simp add: rec_unqueue_def page_queue_def Let_def\<close>)
  have "p \<notin> set (trx_locks (ltrx_heap s t))" if "t \<noteq> m_trx (lock_heap s p)" for t
    using that wf by (auto simp: wf_locks_def)
  then have "trx_locks (ltrx_heap (rec_unqueue p s) t) = remove1 p (trx_locks (ltrx_heap s t))" for t
    by (simp add: rec_unqueue_def remove1_idem Let_def)
  moreover have "rec_locks (rec_unqueue p s) pg' \<noteq> Some []" for pg'
    using wf by (simp add: rec_unqueue_def wf_locks_def Let_def)
  ultimately show ?thesis
    using pq mem(8) by (auto simp: removed_def rec_unqueue_def Let_def env_frame_def que_states_def remove1_idem)
qed

text \<open>The grant loop over a page's queue.\<close>

lemma rec_grant_loop:
  assumes wf: "wf_locks s" "wf_wait X s" "wf_thrs s" and q: "rec_locks s pg = Some q"
  obtains s' G where "queue_for (rec_grant_if_free pg) pg 0 s = Some s'" "grants G s s'" "wf_thrs s'"
    "G \<subseteq> {r \<in> set q. is_waiting (lock_heap s r)}"
    "map (lock_heap s') q = grant_pass rec_waits granted clear_wait [] (map (lock_heap s) q)"
proof -
  have pq: "page_queue s pg = q" using q by (simp add: page_queue_def)
  have dist: "distinct q" using wf(1) pq by (auto simp: wf_locks_def)
  have bits: "one_bit (lock_heap s r)" if "r \<in> set q" "is_waiting (lock_heap s r)" for r
    using that wf(2) pq unfolding wf_wait_def by blast
  let ?blocked = "\<lambda>s' r. rec_has_to_wait_in_queue s' (page_queue s' pg) r (rec_find_set_bit (lock_heap s' r))"
  have blocked: "?blocked s' r \<longleftrightarrow> (\<exists>a\<in>set xs'. rec_waits (lock_heap s' r) (lock_heap s' a))"
    if "grants G s s'" "[] @ q = xs' @ r # ys'" "length ([] :: lock_ptr list) \<le> length xs'" "is_waiting (lock_heap s' r)"
    for G s' xs' r ys'
  proof -
    have "is_waiting (lock_heap s r)" using that(1,4) by (auto simp: grants_def split: if_splits)
    then have "one_bit (lock_heap s' r)" using bits [of r] that(1,2) by (auto simp: grants_def one_bit_def)
    moreover have "page_queue s' pg = xs' @ r # ys'" using that(1,2) pq by (simp add: grants_page_queue)
    moreover have "r \<notin> set xs'" using dist that(2) by auto
    ultimately show ?thesis by (simp add: rec_wait_in_queue_waits)
  qed
  have body: "rec_grant_if_free pg r s = (if is_waiting (lock_heap s r) \<and> \<not> ?blocked s r then grant r s else Some s)" for r s
    by (simp add: rec_grant_if_free_def)
  have "\<exists>s' G. for_each (rec_grant_if_free pg) q s = Some s' \<and> grants G s s' \<and> wf_thrs s'
      \<and> G \<subseteq> {r \<in> set q. is_waiting (lock_heap s r)}
      \<and> map (lock_heap s') q = grant_pass rec_waits granted clear_wait (map (lock_heap s) []) (map (lock_heap s) q)"
    by (rule for_each_grants [where blocked = ?blocked and xs = "[]", OF body blocked])
       (use wf(3) dist in simp_all)
  moreover have "queue_for (rec_grant_if_free pg) pg 0 s = for_each (rec_grant_if_free pg) (drop 0 q) s"
    by (rule queue_for_fixed)
       (use q in \<open>auto simp: rec_grant_if_free_def dest: grant_keeps_queues split: if_splits\<close>)
  ultimately show thesis using that by auto
qed

lemma rec_dequeue_total:
  assumes inv: "lock_inv s" and p: "p \<in> set (page_queue s pg)"
  obtains s' where "rec_dequeue_from_page p s = Some s'" "dequeued p s s'"
proof -
  have wf: "wf_locks s" "wf_wait {} s" "wf_thrs s" "queues_safe s" "queues_live s"
    using inv by (auto simp: lock_inv_def)
  note mem = wf_page_member [OF wf(1) p]
  let ?s2 = "rec_unqueue p s"
  note rem = rec_unqueue_removed [OF wf(1) p]
  have wf2: "wf_locks ?s2" "wf_wait {p} ?s2" "queues_safe ?s2"
    using removed_wf_locks [OF wf(1) rem] removed_wf_wait [OF wf(1) rem wf(2)] removed_safe [OF rem wf(4)] .
  have thrs2: "wf_thrs ?s2" using wf(3) by (simp add: rec_unqueue_def removed_wf_thrs_page Let_def)
  have live2: "queue_live rec_waits granted (page_locks ?s2 pg')" if "pg' \<noteq> pg" for pg'
    using that wf(5) mem(2) by (simp add: queues_live_def page_locks_def rec_unqueue_def page_queue_def Let_def)
  have live3: "queue_live table_waits granted (tbl_locks ?s2 tb)" for tb
    using wf(5) by (simp add: queues_live_def tbl_locks_def rec_unqueue_def Let_def)
  define q where "q = page_queue ?s2 pg"
  have deq: "rec_dequeue_from_page p s =
      (if q \<noteq> [] then queue_for (rec_grant_if_free pg) pg 0 ?s2 else Some ?s2)"
    using rem by (simp add: rec_dequeue_from_page_def rec_unqueue_def Let_def q_def removed_def mem(2,6,7))
  obtain s' G where s': "rec_dequeue_from_page p s = Some s'" "grants G ?s2 s'" "wf_thrs s'"
    "G \<subseteq> {r \<in> set q. is_waiting (lock_heap ?s2 r)}"
    "map (lock_heap s') q = grant_pass rec_waits granted clear_wait [] (map (lock_heap ?s2) q)"
  proof (cases "q = []")
    case True
    then show thesis using that [of ?s2 "{}"] deq thrs2 by simp
  next
    case False
    then have "rec_locks ?s2 pg = Some q" by (auto simp: q_def page_queue_def split: option.splits)
    from rec_grant_loop [OF wf2(1,2) thrs2 this] show thesis using that deq False by metis
  qed
  have "queues_safe s'" "queues_live s'"
    using grants_page_queues [OF s'(2) _ wf2(1) _ wf2(3) live2 live3] s'(4,5) by (auto simp: q_def)
  moreover have "queued s r \<and> r \<noteq> p \<and> is_waiting (lock_heap s r)" if "r \<in> G" for r
    using that s'(4) removed_queued [OF wf(1) rem, of r] rem by (auto simp: q_def queued_def removed_def)
  ultimately have "dequeued p s s'" using dequeuedI [OF inv rem s'(2,3)] by blast
  with s'(1) show thesis using that by blast
qed


lemma table_grant_loop_for_each:
  "table_grant_loop q s =
     for_each (\<lambda>p s. if is_waiting (lock_heap s p) \<and> \<not> table_has_to_wait_in_queue s p then grant p s else Some s) q s"
proof (induction q arbitrary: s)
  case (Cons p q)
  have eq: "table_grant_loop q = for_each (\<lambda>p s. if is_waiting (lock_heap s p) \<and> \<not> table_has_to_wait_in_queue s p
      then grant p s else Some s) q"
    using Cons.IH by (rule ext)
  show ?case by (simp add: eq)
qed simp

lemma table_remove_removed:
  assumes wf: "wf_locks s" and p: "p \<in> set (table_locks s tb)"
  shows "removed p s (table_remove_low p s)"
proof -
  note mem = wf_table_member [OF wf p]
  have "p \<notin> set (trx_locks (ltrx_heap s t))" if "t \<noteq> m_trx (lock_heap s p)" for t
    using that wf by (auto simp: wf_locks_def)
  moreover have "p \<notin> set (table_locks s tb')" if "tb' \<noteq> tb" for tb'
    using that wf_table_member(2) [OF wf] mem(2) by blast
  moreover have "rec_locks (table_remove_low p s) = rec_locks s" by (simp add: table_remove_low_def Let_def)
  moreover have "rec_locks s pg \<noteq> Some []" for pg using wf by (simp add: wf_locks_def)
  ultimately show ?thesis
    using mem(2,6)
    by (auto simp: removed_def page_queue_def table_remove_low_def Let_def env_frame_def que_states_def remove1_idem)
qed

lemma grants_table_queues:
  assumes g: "grants G s s'" and q: "table_locks s tb = xs @ ys" and G: "G \<subseteq> set ys" and wf: "wf_locks s"
    and pass: "map (lock_heap s') ys
        = grant_pass table_waits granted clear_wait (map (lock_heap s) xs) (map (lock_heap s) ys)"
    and safe: "queues_safe s"
    and live: "\<And>pg. queue_live rec_waits granted (page_locks s pg)"
      "\<And>tb'. tb' \<noteq> tb \<Longrightarrow> queue_live table_waits granted (tbl_locks s tb')"
      "queue_live table_waits granted (map (lock_heap s) xs)"
  shows "queues_safe s'" "queues_live s'"
proof -
  have Gq: "G \<subseteq> set (table_locks s tb)" using G q by auto
  have page: "page_locks s' pg = page_locks s pg" for pg
  proof -
    have "G \<inter> set (page_queue s pg) = {}" using Gq wf_table_member(6) [OF wf] by blast
    then show ?thesis using grants_other [OF g] by (simp add: page_locks_def grants_page_queue [OF g])
  qed
  have "distinct (xs @ ys)" using wf q by (metis wf_locks_def)
  then have "map (lock_heap s') xs = map (lock_heap s) xs" using G by (intro grants_other [OF g]) auto
  then have here: "tbl_locks s' tb = map (lock_heap s) xs
      @ grant_pass table_waits granted clear_wait (map (lock_heap s) xs) (map (lock_heap s) ys)"
    using pass g q by (simp only: tbl_locks_def grants_def map_append)
  have other: "tbl_locks s' tb' = tbl_locks s tb'" if "tb' \<noteq> tb" for tb'
  proof -
    have "G \<inter> set (table_locks s tb') = {}" using Gq that wf_table_member(2) [OF wf] by blast
    then show ?thesis using grants_other [OF g, of "table_locks s tb'"] g by (simp add: tbl_locks_def grants_def)
  qed
  have ok: "table_ok l" if "l \<in> set (map (lock_heap s) xs) \<union> set (map (lock_heap s) ys)" for l
    using that wf_table_member(3) [OF wf, of _ tb] q by auto
  have "queue_safe table_conflict granted (map (lock_heap s) xs @ map (lock_heap s) ys)"
    using safe q by (metis queues_safe_def tbl_locks_def map_append)
  then have safe': "queue_safe table_conflict granted (tbl_locks s' tb)"
    unfolding here using ok by (rule tblq.grant_pass_safe)
  have live': "queue_live table_waits granted (tbl_locks s' tb)"
    unfolding here queue_live_from_append using live(3) tblq.grant_pass_live by simp
  show "queues_safe s'" using safe safe' other page unfolding queues_safe_def by metis
  show "queues_live s'" using live live' other page unfolding queues_live_def by metis
qed

lemma table_dequeue_total:
  assumes inv: "lock_inv s" and p: "p \<in> set (table_locks s tb)"
  obtains s' where "table_dequeue p s = Some s'" "dequeued p s s'"
proof -
  have wf: "wf_locks s" "wf_wait {} s" "wf_thrs s" "queues_safe s" "queues_live s"
    using inv by (auto simp: lock_inv_def)
  note mem = wf_table_member [OF wf(1) p]
  let ?s2 = "table_remove_low p s"
  note rem = table_remove_removed [OF wf(1) p]
  have thrs2: "wf_thrs ?s2" using wf(3) by (subst wf_thrs_cong [of _ s]) (auto simp: table_remove_low_def Let_def)
  obtain xs ys where q: "table_locks s tb = xs @ p # ys" "p \<notin> set xs" using p by (meson split_list_first)
  have heap2: "lock_heap ?s2 = lock_heap s" using rem by (simp add: removed_def)
  have q2: "table_locks ?s2 tb = xs @ ys" using rem q by (simp add: removed_def remove1_append)
  have dist: "distinct (xs @ p # ys)" using wf(1) q(1) by (metis wf_locks_def)
  have "table_has_to_wait_in_queue s' r \<longleftrightarrow> (\<exists>a\<in>set xs'. table_waits (lock_heap s' r) (lock_heap s' a))"
    if "grants G ?s2 s'" "xs @ ys = xs' @ r # ys'" for G s' xs' r ys'
  proof -
    have "r \<in> set (xs @ ys)" by (simp add: that(2))
    then have "r \<in> set (table_locks s tb)" using q(1) by auto
    then have "m_object (lock_heap s' r) = tb" using that(1) heap2 wf_table_member(2) [OF wf(1)] by (auto simp: grants_def)
    moreover have "table_locks s' tb = xs' @ r # ys'" using that q2 by (simp add: grants_def)
    moreover have "distinct (xs @ ys)" using dist by simp
    then have "distinct (xs' @ r # ys')" by (simp only: that(2))
    then have "r \<notin> set xs'" by simp
    ultimately show ?thesis by (simp add: table_has_to_wait_in_queue_def table_wait_in_queue_iff)
  qed
  then have "\<exists>s' G. table_grant_loop ys ?s2 = Some s' \<and> grants G ?s2 s' \<and> wf_thrs s'
      \<and> G \<subseteq> {r \<in> set ys. is_waiting (lock_heap ?s2 r)}
      \<and> map (lock_heap s') ys
        = grant_pass table_waits granted clear_wait (map (lock_heap ?s2) xs) (map (lock_heap ?s2) ys)"
    unfolding table_grant_loop_for_each
    by (intro for_each_grants [where blocked = table_has_to_wait_in_queue]) (use thrs2 dist in auto)
  then obtain s' G where s': "table_grant_loop ys ?s2 = Some s'" "grants G ?s2 s'" "wf_thrs s'"
    "G \<subseteq> {r \<in> set ys. is_waiting (lock_heap ?s2 r)}"
    "map (lock_heap s') ys
      = grant_pass table_waits granted clear_wait (map (lock_heap ?s2) xs) (map (lock_heap ?s2) ys)" by blast
  have "queue_live table_waits granted (map (lock_heap s) xs)"
    using wf(5) q(1) by (metis queues_live_def tbl_locks_def map_append queue_live_from_append)
  then have "queues_safe s'" "queues_live s'"
    using grants_table_queues [OF s'(2) q2 _ removed_wf_locks [OF wf(1) rem] s'(5) removed_safe [OF rem wf(4)]]
      s'(4) wf(5) mem(2) heap2
    by (auto simp: queues_live_def page_locks_def tbl_locks_def table_remove_low_def page_queue_def Let_def)
  moreover have "queued s r \<and> r \<noteq> p \<and> is_waiting (lock_heap s r)" if "r \<in> G" for r
  proof -
    have r: "r \<in> set ys" "is_waiting (lock_heap s r)" using that s'(4) heap2 by auto
    then have "r \<in> set (table_locks s tb)" by (simp add: q(1))
    then show ?thesis using wf_table_member(4) [OF wf(1)] r dist by auto
  qed
  ultimately have "dequeued p s s'" using dequeuedI [OF inv rem s'(2,3)] by blast
  moreover have "table_dequeue p s = Some s'"
  proof -
    have "dropWhile (\<lambda>r. r \<noteq> p) (xs @ p # ys) = p # ys" using q(2) by (subst dropWhile_append2) auto
    then show ?thesis using s'(1) mem(2,3) q(1) by (simp add: table_dequeue_def table_ok_def)
  qed
  ultimately show thesis using that by blast
qed


section \<open>Releasing and cancelling\<close>

lemma lock_dequeue_total:
  assumes inv: "lock_inv s" and p: "queued s p"
  obtains s' where "lock_dequeue p s = Some s'" "dequeued p s s'"
proof -
  have wf: "wf_locks s" using inv by (simp add: lock_inv_def)
  consider (page) pg where "p \<in> set (page_queue s pg)" | (table) tb where "p \<in> set (table_locks s tb)"
    using p by (auto simp: queued_def)
  then show thesis
  proof cases
    case page
    then show thesis
      using rec_dequeue_total [OF inv page] wf_page_member(3) [OF wf page] that
      by (auto simp: lock_dequeue_def rec_ok_def)
  next
    case table
    then show thesis
      using table_dequeue_total [OF inv table] wf_table_member(3) [OF wf table] that
      by (auto simp: lock_dequeue_def table_ok_def lock_flag_defs)
  qed
qed

text \<open>What every way of taking \<open>p\<close> out of its queue has in common.\<close>

definition shrunk :: "lock_ptr \<Rightarrow> lock_sys \<Rightarrow> lock_sys \<Rightarrow> bool" where
  "shrunk p s s' \<longleftrightarrow> env_frame s s' \<and> next_lock s' = next_lock s
     \<and> (\<forall>pg. page_queue s' pg = remove1 p (page_queue s pg))
     \<and> (\<forall>tb. table_locks s' tb = remove1 p (table_locks s tb))
     \<and> (\<forall>r. lock_heap s' r = lock_heap s r \<or> lock_heap s' r = clear_wait (lock_heap s r))
     \<and> (\<forall>t. trx_locks (ltrx_heap s' t) = remove1 p (trx_locks (ltrx_heap s t))
          \<and> (que_states s' t = que_states s t
             \<or> que_states s' t = TRX_QUE_RUNNING \<and> wait_lock (ltrx_heap s' t) = None)
          \<and> (wait_lock (ltrx_heap s' t) = None \<or> wait_lock (ltrx_heap s' t) = wait_lock (ltrx_heap s t)))"

lemma dequeued_shrunk:
  assumes "dequeued p s s'"
  shows "shrunk p s s'"
proof -
  from assms obtain s2 G where s2: "removed p s s2" "grants G s2 s'" by (auto simp: dequeued_def)
  have "page_queue s' pg = remove1 p (page_queue s pg)" for pg
    using s2 grants_page_queue by (simp add: removed_def)
  moreover have "lock_heap s' r = lock_heap s r \<or> lock_heap s' r = clear_wait (lock_heap s r)" for r
    using s2 by (simp add: removed_def grants_def)
  moreover have "env_frame s s'" using s2 env_frame_trans by (auto simp: removed_def grants_def)
  ultimately show ?thesis using s2 by (simp add: shrunk_def removed_def grants_def)
qed

lemma dequeued_facts:
  assumes "dequeued p s s'" "wf_locks s"
  shows "lock_heap s' p = lock_heap s p" "env_frame s s'"
    "trx_locks (ltrx_heap s' t) = remove1 p (trx_locks (ltrx_heap s t))"
    "queued s' r \<longleftrightarrow> queued s r \<and> r \<noteq> p"
    "m_trx (lock_heap s' r) = m_trx (lock_heap s r)"
    "is_waiting (lock_heap s' r) \<Longrightarrow> is_waiting (lock_heap s r)"
    "deadlock_mark (ltrx_heap s' t) = deadlock_mark (ltrx_heap s t)"
    "que_states s' t \<noteq> que_states s t \<Longrightarrow> que_states s t = TRX_QUE_LOCK_WAIT \<and> que_states s' t = TRX_QUE_RUNNING"
    "wait_lock (ltrx_heap s' t) = Some r \<Longrightarrow> wait_lock (ltrx_heap s t) = Some r"
proof -
  from assms(1) obtain s2 G where s2: "removed p s s2" "grants G s2 s'"
    and G: "\<forall>r\<in>G. queued s r \<and> r \<noteq> p \<and> is_waiting (lock_heap s r)"
    by (auto simp: dequeued_def)
  show "lock_heap s' p = lock_heap s p" using s2 G by (auto simp: removed_def grants_def)
  show "env_frame s s'" using s2 env_frame_trans by (auto simp: removed_def grants_def)
  show "trx_locks (ltrx_heap s' t) = remove1 p (trx_locks (ltrx_heap s t))"
    using s2 by (simp add: removed_def grants_def)
  show "queued s' r \<longleftrightarrow> queued s r \<and> r \<noteq> p"
    using removed_queued [OF assms(2) s2(1)] grants_queued [OF s2(2)] by simp
  show "m_trx (lock_heap s' r) = m_trx (lock_heap s r)"
    using s2 by (simp add: removed_def grants_def)
  show "is_waiting (lock_heap s' r) \<Longrightarrow> is_waiting (lock_heap s r)"
    using s2 by (auto simp: removed_def grants_def split: if_splits)
  show "deadlock_mark (ltrx_heap s' t) = deadlock_mark (ltrx_heap s t)"
    using s2 by (simp add: removed_def grants_def)
  show "que_states s' t \<noteq> que_states s t \<Longrightarrow> que_states s t = TRX_QUE_LOCK_WAIT \<and> que_states s' t = TRX_QUE_RUNNING"
    using s2 by (auto simp: removed_def grants_def split: if_splits)
  show "wait_lock (ltrx_heap s' t) = Some r \<Longrightarrow> wait_lock (ltrx_heap s t) = Some r"
    using s2 by (auto simp: removed_def grants_def split: if_splits)
qed

text \<open>A request that does not wait leaves no back pointer behind.\<close>

lemma wf_wait_drop: "wf_wait {p} s \<Longrightarrow> \<not> is_waiting (lock_heap s p) \<Longrightarrow> wf_wait {} s"
  unfolding wf_wait_def by (metis singletonD)

lemma dequeued_granted_inv:
  assumes "lock_inv s" "dequeued p s s'" "\<not> is_waiting (lock_heap s p)"
  shows "lock_inv s'"
proof -
  have "lock_heap s' p = lock_heap s p" using assms by (auto simp: lock_inv_def dequeued_facts)
  then have "wf_wait {} s'" using assms(2,3) wf_wait_drop [of p s'] by (simp add: dequeued_def)
  then show ?thesis using assms(2) by (simp add: lock_inv_def dequeued_def)
qed

lemma lock_reset_unqueued:
  assumes "wf_locks s" "wf_wait {p} s" "queues_safe s" "queues_live s" "\<not> queued s p"
  shows "wf_locks (lock_reset p s)" "queues_safe (lock_reset p s)" "queues_live (lock_reset p s)"
    and "wait_lock (ltrx_heap s (m_trx (lock_heap s p))) = Some p \<Longrightarrow> wf_wait {} (lock_reset p s)"
proof -
  let ?s = "lock_reset p s"
  have pq: "page_queue ?s pg = page_queue s pg" for pg by (simp add: page_queue_def)
  then have queued: "queued ?s r = queued s r" for r by (simp add: queued_def)
  have heap: "lock_heap ?s r = lock_heap s r" if "queued s r" for r
    using that assms(5) by (auto simp: lock_reset_heap)
  have pages: "page_locks ?s pg = page_locks s pg" for pg
    using heap by (auto simp: page_locks_def pq queued_def)
  have tbls: "tbl_locks ?s tb = tbl_locks s tb" for tb
    using heap by (auto simp: tbl_locks_def queued_def)
  show "queues_safe ?s" "queues_live ?s" using assms(3,4) by (simp_all add: queues_safe_def queues_live_def pages tbls)
  have trx: "m_trx (lock_heap ?s r) = m_trx (lock_heap s r)" for r by (simp add: lock_reset_heap)
  have tl: "trx_locks (ltrx_heap ?s t) = trx_locks (ltrx_heap s t)" for t by simp
  have member: "lock_heap ?s r = lock_heap s r" if "r \<in> set (page_queue s pg) \<or> r \<in> set (table_locks s tb)" for r pg tb
    using that heap queued_def by blast
  show "wf_locks ?s" by (rule wf_locks_cong [OF assms(1)]) (use heap in simp_all)
  assume w: "wait_lock (ltrx_heap s (m_trx (lock_heap s p))) = Some p"
  have "wait_lock (ltrx_heap ?s (m_trx (lock_heap ?s r))) = Some r"
    if "queued s r" "is_waiting (lock_heap ?s r)" for r
  proof -
    have "wait_lock (ltrx_heap s (m_trx (lock_heap s r))) = Some r"
      using that heap assms(2) by (simp add: wf_wait_def)
    moreover from this have "m_trx (lock_heap s r) \<noteq> m_trx (lock_heap s p)"
      using w that(1) assms(5) by (metis option.inject)
    ultimately show ?thesis by (simp add: trx)
  qed
  moreover have "is_waiting (lock_heap ?s r) \<and> m_trx (lock_heap ?s r) = t \<and> queued s r"
    if "wait_lock (ltrx_heap ?s t) = Some r" for t r
  proof -
    have t: "t \<noteq> m_trx (lock_heap s p)" "wait_lock (ltrx_heap s t) = Some r" using that by (auto split: if_splits)
    then have "is_waiting (lock_heap s r)" "m_trx (lock_heap s r) = t" "queued s r \<or> r = p"
      using assms(2) by (auto simp: wf_wait_def)
    then show ?thesis using t heap by auto
  qed
  moreover have "one_bit (lock_heap ?s r)" if "r \<in> set (page_queue s pg)" "is_waiting (lock_heap ?s r)" for r pg
    using that member assms(2) unfolding wf_wait_def by metis
  ultimately show "wf_wait {} ?s" unfolding wf_wait_def queued pq by blast
qed


lemma dequeued_wait_lock:
  assumes "lock_inv s" "dequeued p s s'" "wait_lock (ltrx_heap s t) = Some p"
  shows "wait_lock (ltrx_heap s' t) = Some p"
proof -
  from assms(2) obtain s2 G where s2: "removed p s s2" "grants G s2 s'"
    and G: "\<forall>r\<in>G. queued s r \<and> r \<noteq> p \<and> is_waiting (lock_heap s r)"
    by (auto simp: dequeued_def)
  have "m_trx (lock_heap s r) \<noteq> t" if "r \<in> G" for r
    using that G assms(1,3) by (auto simp: lock_inv_def wf_wait_def)
  then show ?thesis using s2 assms(3) by (auto simp: removed_def grants_def)
qed

lemma lock_frame_inv:
  assumes "lock_frame s s'"
  shows "wf_locks s' = wf_locks s" "wf_wait X s' = wf_wait X s" "queues_safe s' = queues_safe s"
    "queues_live s' = queues_live s" "queued s' p = queued s p" "page_queue s' pg = page_queue s pg"
proof -
  note f = assms [unfolded lock_frame_def]
  show pq: "page_queue s' pg = page_queue s pg" for pg using f by (simp add: page_queue_def)
  show qd: "queued s' p = queued s p" for p using f by (simp add: queued_def pq)
  show "wf_locks s' = wf_locks s" "wf_wait X s' = wf_wait X s"
    using f by (simp_all add: wf_locks_def wf_wait_def pq qd)
  show "queues_safe s' = queues_safe s" "queues_live s' = queues_live s"
    using f by (simp_all add: queues_safe_def queues_live_def page_locks_def tbl_locks_def pq)
qed

text \<open>What cancelling a waiting request achieves.\<close>

definition cancelled :: "lock_ptr \<Rightarrow> lock_sys \<Rightarrow> lock_sys \<Rightarrow> bool" where
  "cancelled p s s' \<longleftrightarrow> lock_inv s' \<and> shrunk p s s' \<and> (\<forall>r. queued s' r \<longleftrightarrow> queued s r \<and> r \<noteq> p)"

lemma cancel_waiting_total:
  assumes inv: "lock_inv s" and p: "queued s p" "is_waiting (lock_heap s p)"
  obtains s' where "cancel_waiting_and_release p s = Some s'" "cancelled p s s'"
proof -
  have wf: "wf_locks s" using inv by (simp add: lock_inv_def)
  obtain s1 where s1: "lock_dequeue p s = Some s1" "dequeued p s s1" using lock_dequeue_total [OF inv p(1)] .
  note facts = dequeued_facts [OF s1(2) wf]
  have inv1: "wf_locks s1" "wf_wait {p} s1" "wf_que s1" "wf_thrs s1" "queues_safe s1" "queues_live s1"
    using s1(2) by (auto simp: dequeued_def)
  let ?t = "m_trx (lock_heap s1 p)"
  let ?s2 = "lock_reset p s1"
  have unq: "\<not> queued s1 p" by (simp add: facts(4))
  have "wait_lock (ltrx_heap s ?t) = Some p" using inv p facts(5) by (auto simp: lock_inv_def wf_wait_def)
  then have w: "wait_lock (ltrx_heap s1 ?t) = Some p" by (rule dequeued_wait_lock [OF inv s1(2)])
  note reset = lock_reset_unqueued [OF inv1(1,2,5,6) unq]
  have trx2: "m_trx (lock_heap ?s2 p) = ?t" by (simp add: lock_reset_heap)
  obtain s' where s': "end_lock_wait ?t ?s2 = Some s'" "wait_ended ?t ?s2 s'" "wf_thrs s'"
    using end_lock_wait_total [of ?s2 ?t] inv1(4) by auto
  have fr: "lock_frame ?s2 s'" "env_frame ?s2 s'" "que_states s' = (que_states ?s2)(?t := TRX_QUE_RUNNING)"
    "\<And>u. deadlock_mark (ltrx_heap s' u) = deadlock_mark (ltrx_heap ?s2 u)"
    using s'(2) by (auto simp: wait_ended_def)
  have que2: "que_states ?s2 = que_states s1" by (simp add: que_states_def fun_eq_iff)
  have wl: "wait_lock (ltrx_heap s' t) = (if t = ?t then None else wait_lock (ltrx_heap s1 t))" for t
    using fr(1) by (simp add: lock_frame_def)
  have "wf_que s'"
    unfolding wf_que_def
  proof (intro allI impI)
    fix t assume "trx_que_state (ltrx_heap s' t) = TRX_QUE_LOCK_WAIT"
    then have "t \<noteq> ?t" "que_states s1 t = TRX_QUE_LOCK_WAIT"
      using fr(3) que2 by (auto simp: que_states_def fun_eq_iff split: if_splits)
    then show "wait_lock (ltrx_heap s' t) \<noteq> None" using inv1(3) by (simp add: wl wf_que_def que_states_def)
  qed
  then have "lock_inv s'"
    using reset(1-3) reset(4) [OF w] s'(3) lock_frame_inv [OF fr(1)] by (simp add: lock_inv_def)
  moreover have "queued s' r \<longleftrightarrow> queued s r \<and> r \<noteq> p" for r
    using lock_frame_inv(5) [OF fr(1)] facts(4) by (simp add: queued_def page_queue_def)
  moreover have "shrunk p s s'"
  proof -
    note sh = dequeued_shrunk [OF s1(2)]
    have env: "env_frame s s'" using facts(2) fr(2) env_frame_trans env_frame_lock_reset by blast
    have "que_states s' t = que_states s t \<or> que_states s' t = TRX_QUE_RUNNING \<and> wait_lock (ltrx_heap s' t) = None" for t
      using sh fr(3) que2 by (cases "t = ?t") (auto simp: shrunk_def wl)
    moreover have "wait_lock (ltrx_heap s' t) = None \<or> wait_lock (ltrx_heap s' t) = wait_lock (ltrx_heap s t)" for t
      using sh by (simp add: shrunk_def wl)
    moreover have "lock_heap s' r = lock_heap s r \<or> lock_heap s' r = clear_wait (lock_heap s r)" for r
      using sh fr(1) facts(1) by (cases "r = p") (simp_all add: shrunk_def lock_frame_def lock_reset_heap)
    moreover have "page_queue s' pg = remove1 p (page_queue s pg)" for pg
      using sh lock_frame_inv(6) [OF fr(1)] by (simp add: shrunk_def page_queue_def)
    ultimately show ?thesis using env sh fr(1) by (simp add: shrunk_def lock_frame_def)
  qed
  ultimately have "cancelled p s s'" by (simp add: cancelled_def)
  moreover have "cancel_waiting_and_release p s = Some s'"
    using s1(1) s'(1) trx2 by (simp add: cancel_waiting_and_release_def)
  ultimately show thesis using that by blast
qed

end
