(* ===== verification/Lock_Deadlock.thy ===== *)
theory Lock_Deadlock
  imports Lock_Queue
begin

text \<open>
  The deadlock search of \<^verbatim>\<open>lock0lock.cc\<close> on the waits-for graph: it always ends, it keeps the
  invariant of the lock system while it cancels victims, and when it reports no deadlock there is
  no cycle of waiting transactions through the requesting one.
\<close>

section \<open>Marks\<close>

definition set_marks :: "(ltrx_ptr \<Rightarrow> nat) \<Rightarrow> lock_sys \<Rightarrow> lock_sys" where
  "set_marks m s = s\<lparr>ltrx_heap := (\<lambda>t. (ltrx_heap s t)\<lparr>deadlock_mark := m t\<rparr>)\<rparr>"

definition marks :: "lock_sys \<Rightarrow> ltrx_ptr \<Rightarrow> nat" where
  "marks s t = deadlock_mark (ltrx_heap s t)"

lemma set_marks_fields [simp]:
  "lock_heap (set_marks m s) = lock_heap s" "next_lock (set_marks m s) = next_lock s"
  "rec_locks (set_marks m s) = rec_locks s" "table_locks (set_marks m s) = table_locks s"
  "thr_heap (set_marks m s) = thr_heap s" "fork_heap (set_marks m s) = fork_heap s"
  "ltrx_list (set_marks m s) = ltrx_list s" "marks (set_marks m s) = m"
  "ltrx_heap (set_marks m s) t = (ltrx_heap s t)\<lparr>deadlock_mark := m t\<rparr>"
  "page_queue (set_marks m s) = page_queue s" "queued (set_marks m s) = queued s"
  "que_states (set_marks m s) = que_states s"
  by (auto simp: set_marks_def marks_def page_queue_def queued_def que_states_def fun_eq_iff)

lemma set_marks_set_marks [simp]: "set_marks m (set_marks n s) = set_marks m s"
  by (simp add: set_marks_def)

lemma set_marks_id: "set_marks (marks s) s = s"
  by (simp add: set_marks_def marks_def)

lemma upd_mark: "upd_trx t (deadlock_mark_update (\<lambda>_. n)) s = set_marks ((marks s)(t := n)) s"
  by (auto simp: set_marks_def marks_def upd_trx_def fun_eq_iff)

lemma lock_frame_set_marks: "lock_frame s (set_marks m s)"
  by (simp add: lock_frame_def)

lemma lock_inv_set_marks [simp]: "lock_inv (set_marks m s) = lock_inv s"
proof -
  have "wf_thrs (set_marks m s) = wf_thrs s" by (rule wf_thrs_cong) simp_all
  then show ?thesis by (simp add: lock_inv_def lock_frame_inv [OF lock_frame_set_marks] wf_que_def)
qed

lemma clear_deadlock_marks_eq:
  "clear_deadlock_marks s = set_marks (\<lambda>t. if t \<in> set (ltrx_list s) then 0 else marks s t) s"
proof -
  have "fold (\<lambda>t. upd_trx t (deadlock_mark_update (\<lambda>_. 0))) ts s
      = set_marks (\<lambda>t. if t \<in> set ts then 0 else marks s t) s" for ts s
    by (induction ts arbitrary: s)
       (auto simp: upd_mark set_marks_id fun_eq_iff intro!: arg_cong [of _ _ "\<lambda>m. set_marks m _"])
  then show ?thesis by (simp add: clear_deadlock_marks_def)
qed

section \<open>The search ends and keeps the invariant\<close>

text \<open>A victim's request as the search cancels it: only requests of other transactions.\<close>

definition victim_cancelled :: "ltrx_ptr \<Rightarrow> lock_sys \<Rightarrow> lock_sys \<Rightarrow> bool" where
  "victim_cancelled start s s' \<longleftrightarrow>
     (\<exists>v. queued s v \<and> is_waiting (lock_heap s v) \<and> m_trx (lock_heap s v) \<noteq> start \<and> cancelled v s s')"

definition search_post :: "ltrx_ptr \<Rightarrow> lock_sys \<Rightarrow> lock_sys \<Rightarrow> deadlock_ret \<Rightarrow> bool" where
  "search_post start s s' r \<longleftrightarrow>
     (if r = LOCK_VICTIM_IS_OTHER then victim_cancelled start s s' else (\<exists>m. s' = set_marks m s))"

lemma shrunk_set_marks [simp]: "shrunk v (set_marks m s) s' = shrunk v s s'"
  by (simp add: shrunk_def env_frame_def)

lemma search_post_set_marks: "search_post start (set_marks m s) s' r \<Longrightarrow> search_post start s s' r"
  by (auto simp: search_post_def victim_cancelled_def cancelled_def split: if_splits)

definition searchable :: "lock_sys \<Rightarrow> lock_ptr \<Rightarrow> bool" where
  "searchable s w \<longleftrightarrow> queued s w \<and>
     (lock_type (lock_heap s w) = LOCK_REC \<longrightarrow> (\<exists>h. rec_is_nth_bit_set (lock_heap s w) h))"

lemma waiting_searchable:
  assumes "lock_inv s" "queued s w" "is_waiting (lock_heap s w)"
  shows "searchable s w"
proof -
  have wf: "wf_locks s" "wf_wait {} s" using assms(1) by (auto simp: lock_inv_def)
  have "\<exists>h. rec_is_nth_bit_set (lock_heap s w) h" if "lock_type (lock_heap s w) = LOCK_REC"
  proof -
    have "w \<notin> set (table_locks s tb)" for tb
      using that wf_table_member(3) [OF wf(1)] by (fastforce simp: table_ok_def lock_flag_defs)
    then obtain pg where "w \<in> set (page_queue s pg)" using assms(2) by (auto simp: queued_def)
    then have "one_bit (lock_heap s w)" using wf(2) assms(3) unfolding wf_wait_def by blast
    then show ?thesis by (auto simp: one_bit_def)
  qed
  then show ?thesis using assms(2) by (simp add: searchable_def)
qed

lemma searchable_bit_defined:
  assumes "lock_inv s" "searchable s w" "lock_type (lock_heap s w) = LOCK_REC"
  shows "rec_find_set_bit (lock_heap s w) \<noteq> ULINT_UNDEFINED"
proof -
  have wf: "wf_locks s" using assms(1) by (simp add: lock_inv_def)
  have "w \<notin> set (table_locks s tb)" for tb
    using assms(3) wf_table_member(3) [OF wf] by (fastforce simp: table_ok_def lock_flag_defs)
  then obtain pg where pg: "w \<in> set (page_queue s pg)" using assms(2) by (auto simp: searchable_def queued_def)
  then have "m_n_bits (lock_heap s w) < ULINT_UNDEFINED"
    using wf_page_member(3) [OF wf pg] by (simp add: rec_ok_def wf_bitmap_def)
  then show ?thesis using assms(2,3) rec_find_set_bit_undefined by (auto simp: searchable_def)
qed


lemma weight_cmp_self: "weight_cmp t t = 0"
  by (simp add: weight_cmp_def)

lemma lock_inv_victim_flags:
  "lock_inv (upd_trx t (was_chosen_as_deadlock_victim_update f) (s\<lparr>deadlock_found := b\<rparr>)) = lock_inv s"
proof -
  let ?s = "upd_trx t (was_chosen_as_deadlock_victim_update f) (s\<lparr>deadlock_found := b\<rparr>)"
  have "lock_frame s ?s" by (simp add: lock_frame_def)
  moreover have "wf_thrs ?s = wf_thrs s" by (rule wf_thrs_cong) simp_all
  moreover have "wf_que ?s = wf_que s"
  proof -
    have "trx_que_state (ltrx_heap ?s u) = trx_que_state (ltrx_heap s u)"
      "wait_lock (ltrx_heap ?s u) = wait_lock (ltrx_heap s u)" for u by simp_all
    then show ?thesis unfolding wf_que_def by presburger
  qed
  ultimately show ?thesis by (simp add: lock_inv_def lock_frame_inv)
qed

lemma cancel_victim:
  assumes inv: "lock_inv s" and w: "queued s w" "is_waiting (lock_heap s w)" "m_trx (lock_heap s w) \<noteq> start"
  shows "\<exists>s'. cancel_waiting_and_release w
      (upd_trx t (was_chosen_as_deadlock_victim_update f) (s\<lparr>deadlock_found := b\<rparr>)) = Some s'
     \<and> victim_cancelled start s s'"
proof -
  let ?s = "upd_trx t (was_chosen_as_deadlock_victim_update f) (s\<lparr>deadlock_found := b\<rparr>)"
  have queued: "queued ?s r = queued s r" for r by (simp add: queued_def page_queue_def)
  have "lock_inv ?s" using inv by (simp add: lock_inv_victim_flags)
  then obtain s' where s': "cancel_waiting_and_release w ?s = Some s'" "cancelled w ?s s'"
    using cancel_waiting_total [of ?s w] w queued by auto
  have "shrunk w ?s s' \<Longrightarrow> shrunk w s s'"
  proof -
    have "trx_locks (ltrx_heap ?s u) = trx_locks (ltrx_heap s u)" "wait_lock (ltrx_heap ?s u) = wait_lock (ltrx_heap s u)"
      "que_states ?s u = que_states s u" "page_queue ?s pg = page_queue s pg" for u pg
      by (simp_all add: que_states_def page_queue_def)
    moreover have "env_frame s ?s" by (simp add: env_frame_def)
    ultimately show "shrunk w ?s s' \<Longrightarrow> shrunk w s s'"
      using env_frame_trans [of s ?s s'] by (simp add: shrunk_def)
  qed
  then show ?thesis using s' w queued by (auto simp: victim_cancelled_def cancelled_def)
qed

lemma deadlock_search_total:
  "lock_inv s \<Longrightarrow> searchable s w \<Longrightarrow> m_trx (lock_heap s w) = trx \<Longrightarrow>
     trx = start \<or> is_waiting (lock_heap s w) \<Longrightarrow>
     \<exists>s' c r. deadlock_recursive start trx w cost depth s = Some (s', c, r) \<and> search_post start s s' r"
  "lock_inv s \<Longrightarrow> searchable s w \<Longrightarrow> m_trx (lock_heap s w) = trx \<Longrightarrow>
     trx = start \<or> is_waiting (lock_heap s w) \<Longrightarrow>
     \<exists>s' c r. deadlock_scan start trx w heap_no fs cost depth s = Some (s', c, r) \<and> search_post start s s' r"
proof (induction start trx w cost depth s and start trx w heap_no fs cost depth s
    rule: deadlock_recursive_deadlock_scan.induct)
  case (1 start trx w cost depth s)
  show ?case
  proof (cases "deadlock_mark (ltrx_heap s trx) = 1")
    case True
    then show ?thesis using set_marks_id [of s]
      by (simp add: deadlock_recursive.simps search_post_def) metis
  next
    case False
    have "\<not> (lock_type (lock_heap s w) = LOCK_REC \<and> rec_find_set_bit (lock_heap s w) = ULINT_UNDEFINED)"
      using searchable_bit_defined [OF 1(2,3)] by blast
    then show ?thesis using 1 False by (simp add: deadlock_recursive.simps [of start trx w] Let_def)
  qed
next
  case (2 start trx w heap_no cost depth s)
  then show ?case by (auto simp: upd_mark search_post_def)
next
  case (3 start trx w heap_no f fs cost depth s)
  note prems = "3.prems"
  let ?blocks = "has_to_wait_for (lock_heap s w) (lock_heap s f) heap_no"
  let ?too_far = "depth > LOCK_MAX_DEPTH_IN_DEADLOCK_CHECK \<or> cost > LOCK_MAX_N_STEPS_IN_DEADLOCK_CHECK"
  let ?t = "m_trx (lock_heap s f)"
  note unfold = deadlock_scan.simps(2) [of start trx w heap_no f fs cost depth s] Let_def
  consider (victim) "?blocks" "?t = start" | (far) "?blocks" "?t \<noteq> start" "?too_far"
    | (wait) "?blocks" "?t \<noteq> start" "\<not> ?too_far" "trx_que_state (ltrx_heap s ?t) = TRX_QUE_LOCK_WAIT"
    | (next1) "?blocks" "?t \<noteq> start" "\<not> ?too_far" "trx_que_state (ltrx_heap s ?t) \<noteq> TRX_QUE_LOCK_WAIT"
    | (next2) "\<not> ?blocks" by blast
  then show ?case
  proof cases
    case victim
    show ?thesis
    proof (cases "weight_cmp (ltrx_heap s (m_trx (lock_heap s w))) (ltrx_heap s start) \<ge> 0")
      case True
      then show ?thesis using victim set_marks_id [of s] by (simp add: unfold search_post_def) metis
    next
      case False
      then have "trx \<noteq> start" using prems(3) weight_cmp_self [of "ltrx_heap s start"] by auto
      then have "queued s w" "is_waiting (lock_heap s w)" "m_trx (lock_heap s w) \<noteq> start"
        using prems by (auto simp: searchable_def)
      then obtain s1 where "cancel_waiting_and_release w
          (upd_trx (m_trx (lock_heap s w)) (was_chosen_as_deadlock_victim_update (\<lambda>_. True))
            (s\<lparr>deadlock_found := True\<rparr>)) = Some s1" "victim_cancelled start s s1"
        using cancel_victim [OF prems(1)] by blast
      then show ?thesis using victim False by (simp add: unfold search_post_def)
    qed
  next
    case far
    then show ?thesis using set_marks_id [of s] by (simp add: unfold search_post_def) metis
  next
    case wait
    have "wait_lock (ltrx_heap s ?t) \<noteq> None" using prems(1) wait(4) by (simp add: lock_inv_def wf_que_def)
    then obtain w' where w': "wait_lock (ltrx_heap s ?t) = Some w'" by blast
    then have w'_ok: "queued s w'" "is_waiting (lock_heap s w')" "m_trx (lock_heap s w') = ?t"
      using prems(1) by (auto simp: lock_inv_def wf_wait_def)
    obtain s1 c1 r1 where rec: "deadlock_recursive start ?t w' cost (depth + 1) s = Some (s1, c1, r1)"
      "search_post start s s1 r1"
      using "3.IH"(1) [OF wait(1) refl refl refl wait(2,3,4) w' prems(1) waiting_searchable [OF prems(1) w'_ok(1,2)]] w'_ok
      by blast
    show ?thesis
    proof (cases "r1 = NO_DEADLOCK")
      case True
      then obtain m where m: "s1 = set_marks m s" using rec(2) by (auto simp: search_post_def)
      have "\<exists>s' c r. deadlock_scan start trx w heap_no fs c1 depth s1 = Some (s', c, r) \<and> search_post start s1 s' r"
        by (rule "3.IH"(2) [OF wait(1) refl refl refl wait(2,3,4) w' rec(1) refl refl])
           (use True m prems in \<open>simp_all add: searchable_def\<close>)
      then show ?thesis using wait w' rec(1) True m search_post_set_marks by (fastforce simp: unfold)
    next
      case False
      then show ?thesis using wait w' rec by (auto simp: unfold)
    qed
  next
    case next1
    then show ?thesis using "3.IH"(3) prems by (simp add: unfold)
  next
    case next2
    then show ?thesis using "3.IH"(4) prems by (simp add: unfold)
  qed
qed


section \<open>No deadlock means no cycle\<close>

text \<open>The waits-for graph: \<open>t\<close> waits for the owners of the locks that block its wait lock.\<close>

definition waits_for :: "lock_sys \<Rightarrow> ltrx_ptr \<Rightarrow> ltrx_ptr \<Rightarrow> bool" where
  "waits_for s t u \<longleftrightarrow>
     (\<exists>w f. wait_lock (ltrx_heap s t) = Some w
        \<and> f \<in> set (locks_ahead s w (wait_heap_no (lock_heap s w)))
        \<and> has_to_wait_for (lock_heap s w) (lock_heap s f) (wait_heap_no (lock_heap s w))
        \<and> m_trx (lock_heap s f) = u)"

text \<open>A set of explored transactions: none waits for \<open>start\<close>, and those they wait for are explored.\<close>

definition explored :: "ltrx_ptr \<Rightarrow> lock_sys \<Rightarrow> ltrx_ptr set \<Rightarrow> bool" where
  "explored start s M \<longleftrightarrow>
     (\<forall>t\<in>M. \<forall>u. waits_for s t u \<longrightarrow> u \<noteq> start \<and> (que_states s u = TRX_QUE_LOCK_WAIT \<longrightarrow> u \<in> M))"

definition marked :: "lock_sys \<Rightarrow> ltrx_ptr set" where
  "marked s = {t. marks s t = 1}"

lemma locks_ahead_set_marks [simp]: "locks_ahead (set_marks m s) = locks_ahead s"
  by (simp add: locks_ahead_def fun_eq_iff)

lemma waits_for_set_marks [simp]: "waits_for (set_marks m s) = waits_for s"
  by (simp add: waits_for_def fun_eq_iff)

lemma explored_set_marks [simp]: "explored start (set_marks m s) M = explored start s M"
  by (simp add: explored_def)

lemma scan_explores_step:
  assumes "explored start s M" "wait_lock (ltrx_heap s trx) = None \<or> wait_lock (ltrx_heap s trx) = Some w"
    and "\<And>f. f \<in> set (locks_ahead s w (wait_heap_no (lock_heap s w))) \<Longrightarrow>
      has_to_wait_for (lock_heap s w) (lock_heap s f) (wait_heap_no (lock_heap s w)) \<Longrightarrow>
      m_trx (lock_heap s f) \<noteq> start
      \<and> (que_states s (m_trx (lock_heap s f)) = TRX_QUE_LOCK_WAIT \<longrightarrow> m_trx (lock_heap s f) \<in> M)"
  shows "explored start s (insert trx M)"
  unfolding explored_def
proof (intro ballI allI impI)
  fix t u assume t: "t \<in> insert trx M" and u: "waits_for s t u"
  show "u \<noteq> start \<and> (que_states s u = TRX_QUE_LOCK_WAIT \<longrightarrow> u \<in> insert trx M)"
  proof (cases "t = trx")
    case True
    then obtain f where f: "f \<in> set (locks_ahead s w (wait_heap_no (lock_heap s w)))" "m_trx (lock_heap s f) = u"
      "has_to_wait_for (lock_heap s w) (lock_heap s f) (wait_heap_no (lock_heap s w))"
      using u assms(2) by (auto simp: waits_for_def)
    then show ?thesis using assms(3) [OF f(1,3)] by simp
  next
    case False
    then show ?thesis using t u assms(1) by (auto simp: explored_def)
  qed
qed

lemma deadlock_search_explores:
  "deadlock_recursive start trx w cost depth s = Some (s', c, NO_DEADLOCK) \<Longrightarrow>
     wait_lock (ltrx_heap s trx) = None \<or> wait_lock (ltrx_heap s trx) = Some w \<Longrightarrow>
     explored start s (marked s) \<Longrightarrow>
     (\<exists>m. s' = set_marks m s) \<and> explored start s (marked s') \<and> marked s \<subseteq> marked s' \<and> trx \<in> marked s'"
  "deadlock_scan start trx w heap_no fs cost depth s = Some (s', c, NO_DEADLOCK) \<Longrightarrow>
     wait_lock (ltrx_heap s trx) = None \<or> wait_lock (ltrx_heap s trx) = Some w \<Longrightarrow>
     heap_no = wait_heap_no (lock_heap s w) \<Longrightarrow> locks_ahead s w heap_no = ps @ fs \<Longrightarrow>
     (\<forall>f\<in>set ps. has_to_wait_for (lock_heap s w) (lock_heap s f) heap_no \<longrightarrow>
        m_trx (lock_heap s f) \<noteq> start
        \<and> (que_states s (m_trx (lock_heap s f)) = TRX_QUE_LOCK_WAIT \<longrightarrow> m_trx (lock_heap s f) \<in> marked s)) \<Longrightarrow>
     explored start s (marked s) \<Longrightarrow>
     (\<exists>m. s' = set_marks m s) \<and> explored start s (marked s') \<and> marked s \<subseteq> marked s' \<and> trx \<in> marked s'"
proof (induction start trx w cost depth s and start trx w heap_no fs cost depth s arbitrary: s' c and s' c ps
    rule: deadlock_recursive_deadlock_scan.induct)
  case (1 start trx w cost depth s)
  show ?case
  proof (cases "deadlock_mark (ltrx_heap s trx) = 1")
    case True
    then show ?thesis using 1(2,4) set_marks_id [of s]
      by (auto simp: deadlock_recursive.simps marked_def marks_def intro: exI [of _ "marks s"])
  next
    case False
    have notnone: "\<not> (lock_type (lock_heap s w) = LOCK_REC \<and> rec_find_set_bit (lock_heap s w) = ULINT_UNDEFINED)"
      using 1(2) False by (auto simp: deadlock_recursive.simps)
    show ?thesis
      by (rule 1(1) [OF False notnone refl, where ps = "[]"])
         (use 1(2-4) False notnone in \<open>simp_all add: deadlock_recursive.simps [of start trx w] Let_def\<close>)
  qed
next
  case (2 start trx w heap_no cost depth s)
  have s': "s' = set_marks ((marks s)(trx := 1)) s" using 2(1) by (simp add: upd_mark)
  then have "marked s' = insert trx (marked s)" by (auto simp: marked_def)
  moreover have "explored start s (insert trx (marked s))"
    by (rule scan_explores_step [OF 2(6,2)]) (use 2(3-5) in simp)
  ultimately show ?case using s' by auto
next
  case (3 start trx w heap_no f fs cost depth s)
  note prems = "3.prems"
  let ?blocks = "has_to_wait_for (lock_heap s w) (lock_heap s f) heap_no"
  let ?too_far = "depth > LOCK_MAX_DEPTH_IN_DEADLOCK_CHECK \<or> cost > LOCK_MAX_N_STEPS_IN_DEADLOCK_CHECK"
  let ?t = "m_trx (lock_heap s f)"
  note unfold = deadlock_scan.simps(2) [of start trx w heap_no f fs cost depth s] Let_def
  have ahead: "locks_ahead s w heap_no = (ps @ [f]) @ fs" using prems(4) by simp
  show ?case
  proof (cases ?blocks)
    case False
    then have scan: "deadlock_scan start trx w heap_no fs cost depth s = Some (s', c, NO_DEADLOCK)"
      using prems(1) by (simp add: unfold)
    show ?thesis
      by (rule "3.IH"(4) [where ps = "ps @ [f]", OF False scan])
         (use prems(2-) False ahead in auto)
  next
    case True
    have far: "?t \<noteq> start" "\<not> ?too_far"
      using prems(1) True by (auto simp: unfold split: if_splits option.splits bind_splits)
    show ?thesis
    proof (cases "trx_que_state (ltrx_heap s ?t) = TRX_QUE_LOCK_WAIT")
      case que: False
      then have scan: "deadlock_scan start trx w heap_no fs cost depth s = Some (s', c, NO_DEADLOCK)"
        using prems(1) True far by (simp add: unfold)
      show ?thesis
        by (rule "3.IH"(3) [where ps = "ps @ [f]", OF True refl refl refl far que scan])
           (use prems(2-) far que ahead in \<open>auto simp: que_states_def\<close>)
    next
      case que: True
      then obtain w' s1 c1 where w': "wait_lock (ltrx_heap s ?t) = Some w'"
        and rec: "deadlock_recursive start ?t w' cost (depth + 1) s = Some (s1, c1, NO_DEADLOCK)"
        and scan: "deadlock_scan start trx w heap_no fs c1 depth s1 = Some (s', c, NO_DEADLOCK)"
        using prems(1) True far by (auto simp: unfold split: option.splits if_splits)
      have step: "(\<exists>m. s1 = set_marks m s) \<and> explored start s (marked s1) \<and> marked s \<subseteq> marked s1 \<and> ?t \<in> marked s1"
        by (rule "3.IH"(1) [OF True refl refl refl far que w' rec]) (use w' prems(6) in simp_all)
      then obtain m where m: "s1 = set_marks m s" by blast
      have "(\<exists>m. s' = set_marks m s1) \<and> explored start s1 (marked s') \<and> marked s1 \<subseteq> marked s' \<and> trx \<in> marked s'"
      proof (rule "3.IH"(2) [OF True refl refl refl far que w' rec refl refl, where ps = "ps @ [f]"])
        show "\<forall>g\<in>set (ps @ [f]). has_to_wait_for (lock_heap s1 w) (lock_heap s1 g) heap_no \<longrightarrow>
            m_trx (lock_heap s1 g) \<noteq> start
            \<and> (que_states s1 (m_trx (lock_heap s1 g)) = TRX_QUE_LOCK_WAIT \<longrightarrow> m_trx (lock_heap s1 g) \<in> marked s1)"
          using prems(5) far(1) step m by auto
      qed (use scan prems(2,3) ahead m step in simp_all)
      then show ?thesis using m step by auto
    qed
  qed
qed


section \<open>How the system evolves during the search\<close>

text \<open>The requests in \<open>V\<close> have been cancelled and some waiting ones granted.\<close>

definition evolved :: "lock_ptr set \<Rightarrow> lock_sys \<Rightarrow> lock_sys \<Rightarrow> bool" where
  "evolved V s s' \<longleftrightarrow> env_frame s s' \<and> next_lock s' = next_lock s
     \<and> (\<forall>pg. page_queue s' pg = filter (\<lambda>r. r \<notin> V) (page_queue s pg))
     \<and> (\<forall>tb. table_locks s' tb = filter (\<lambda>r. r \<notin> V) (table_locks s tb))
     \<and> (\<forall>r. lock_heap s' r = lock_heap s r \<or> lock_heap s' r = clear_wait (lock_heap s r))
     \<and> (\<forall>t. trx_locks (ltrx_heap s' t) = filter (\<lambda>r. r \<notin> V) (trx_locks (ltrx_heap s t))
          \<and> (que_states s' t = que_states s t
             \<or> que_states s' t = TRX_QUE_RUNNING \<and> wait_lock (ltrx_heap s' t) = None)
          \<and> (wait_lock (ltrx_heap s' t) = None \<or> wait_lock (ltrx_heap s' t) = wait_lock (ltrx_heap s t)))"

lemma evolved_set_marks: "evolved {} s (set_marks m s)"
  by (simp add: evolved_def env_frame_def)

lemma evolved_refl: "evolved {} s s"
  by (simp add: evolved_def)

lemma evolved_trans:
  assumes "evolved V s s'" "evolved W s' s''"
  shows "evolved (V \<union> W) s s''"
proof -
  have "filter (\<lambda>r. r \<notin> W) (filter (\<lambda>r. r \<notin> V) q) = filter (\<lambda>r. r \<notin> V \<union> W) q" for q
    by (simp add: conj_commute)
  moreover have "lock_heap s'' r = lock_heap s r \<or> lock_heap s'' r = clear_wait (lock_heap s r)" for r
    using assms unfolding evolved_def by (metis clear_wait_idem)
  moreover have "env_frame s s''" using assms env_frame_trans unfolding evolved_def by blast
  moreover have "que_states s'' t = que_states s t \<or> que_states s'' t = TRX_QUE_RUNNING \<and> wait_lock (ltrx_heap s'' t) = None"
    "wait_lock (ltrx_heap s'' t) = None \<or> wait_lock (ltrx_heap s'' t) = wait_lock (ltrx_heap s t)" for t
    using assms unfolding evolved_def by metis+
  ultimately show ?thesis using assms unfolding evolved_def by simp
qed

lemma shrunk_evolved:
  assumes "wf_locks s" "shrunk v s s'"
  shows "evolved {v} s s'"
proof -
  have "distinct (page_queue s pg)" "distinct (table_locks s tb)" "distinct (trx_locks (ltrx_heap s t))" for pg tb t
    using assms(1) by (auto simp: wf_locks_def)
  then show ?thesis using assms(2) by (simp add: evolved_def shrunk_def distinct_remove1_removeAll removeAll_filter_not_eq eq_commute)
qed

lemma evolved_lock_fields:
  assumes "evolved V s s'"
  shows "m_trx (lock_heap s' r) = m_trx (lock_heap s r)" "lock_type (lock_heap s' r) = lock_type (lock_heap s r)"
    "m_page_id (lock_heap s' r) = m_page_id (lock_heap s r)" "m_object (lock_heap s' r) = m_object (lock_heap s r)"
    "rec_is_nth_bit_set (lock_heap s' r) h = rec_is_nth_bit_set (lock_heap s r) h"
    "has_to_wait_for (lock_heap s' r) (lock_heap s' k) h = has_to_wait_for (lock_heap s r) (lock_heap s k) h"
  using assms clear_wait_simps has_to_wait_for_clear_wait unfolding evolved_def by metis+

lemma rec_find_set_bit_clear_wait [simp]: "rec_find_set_bit (clear_wait l) = rec_find_set_bit l"
proof -
  have "rec_find_set_bit_loop (clear_wait l) i n = rec_find_set_bit_loop l i n" for i n
    by (induction n arbitrary: i) auto
  then show ?thesis by (simp add: rec_find_set_bit_def rec_get_n_bits_def)
qed

lemma evolved_wait_heap_no: "evolved V s s' \<Longrightarrow> wait_heap_no (lock_heap s' r) = wait_heap_no (lock_heap s r)"
  using clear_wait_simps(7) rec_find_set_bit_clear_wait unfolding evolved_def wait_heap_no_def by metis

lemma set_ahead_filter: "P w \<Longrightarrow> set (ahead w (filter P q)) \<subseteq> set (ahead w q)"
  by (induction q) (auto simp: ahead_def)

lemma evolved_queued: "evolved V s s' \<Longrightarrow> queued s' r \<longleftrightarrow> queued s r \<and> r \<notin> V"
  by (auto simp: queued_def evolved_def)

lemma evolved_locks_ahead:
  assumes "evolved V s s'" "w \<notin> V"
  shows "set (locks_ahead s' w h) \<subseteq> set (locks_ahead s w h)"
proof -
  have sub: "set (ahead w (page_queue s' pg)) \<subseteq> set (ahead w (page_queue s pg))"
    "set (ahead w (table_locks s' tb)) \<subseteq> set (ahead w (table_locks s tb))" for pg tb
    using assms set_ahead_filter [of "\<lambda>r. r \<notin> V"] by (simp_all add: evolved_def)
  show ?thesis
    using sub by (auto simp: locks_ahead_def evolved_lock_fields [OF assms(1)])
qed

lemma waits_for_evolved:
  assumes "lock_inv s'" "evolved V s s'" "waits_for s' t u"
  shows "waits_for s t u"
proof -
  from assms(3) obtain w f where w: "wait_lock (ltrx_heap s' t) = Some w"
    and f: "f \<in> set (locks_ahead s' w (wait_heap_no (lock_heap s' w)))"
      "has_to_wait_for (lock_heap s' w) (lock_heap s' f) (wait_heap_no (lock_heap s' w))"
      "m_trx (lock_heap s' f) = u" by (auto simp: waits_for_def)
  have "queued s' w" using w assms(1) by (auto simp: lock_inv_def wf_wait_def)
  then have "w \<notin> V" using evolved_queued [OF assms(2)] by blast
  then have "f \<in> set (locks_ahead s w (wait_heap_no (lock_heap s w)))"
    using f(1) evolved_locks_ahead [OF assms(2)] evolved_wait_heap_no [OF assms(2)] by auto
  moreover have "wait_lock (ltrx_heap s t) = Some w" using w assms(2) unfolding evolved_def by (metis option.distinct(1))
  ultimately show ?thesis
    using f(2,3) evolved_lock_fields(1,6) [OF assms(2)] evolved_wait_heap_no [OF assms(2)]
    by (auto simp: waits_for_def)
qed

section \<open>The whole check\<close>

text \<open>Transactions that wait are in state \<open>TRX_QUE_LOCK_WAIT\<close> and in the transaction list.\<close>

definition waiting_listed :: "ltrx_ptr set \<Rightarrow> lock_sys \<Rightarrow> bool" where
  "waiting_listed X s \<longleftrightarrow>
     (\<forall>t. wait_lock (ltrx_heap s t) \<noteq> None \<longrightarrow>
        t \<in> set (ltrx_list s) \<and> (t \<notin> X \<longrightarrow> que_states s t = TRX_QUE_LOCK_WAIT))"

lemma waiting_listed_evolved:
  assumes "evolved V s s'" "waiting_listed X s"
  shows "waiting_listed X s'"
proof -
  have "ltrx_list s' = ltrx_list s" using assms(1) by (simp add: evolved_def env_frame_def)
  then show ?thesis using assms unfolding waiting_listed_def evolved_def by metis
qed

definition waits_for_rel :: "lock_sys \<Rightarrow> (ltrx_ptr \<times> ltrx_ptr) set" where
  "waits_for_rel s = {(t, u). waits_for s t u}"

lemma explored_no_cycle:
  assumes "explored start s M" "start \<in> M" "waiting_listed {start} s"
  shows "(start, start) \<notin> (waits_for_rel s)\<^sup>+"
proof -
  have "u \<noteq> start \<and> (u \<in> M \<or> wait_lock (ltrx_heap s u) = None)" if "(start, u) \<in> (waits_for_rel s)\<^sup>+" for u
    using that
  proof (induction rule: trancl_induct)
    case (base u)
    then show ?case using assms by (auto simp: waits_for_rel_def explored_def waiting_listed_def)
  next
    case (step t u)
    then have "waits_for s t u" "t \<in> M" by (auto simp: waits_for_rel_def waits_for_def)
    then show ?case using assms by (auto simp: explored_def waiting_listed_def)
  qed
  then show ?thesis by blast
qed

lemma search_no_cycle:
  assumes rec: "deadlock_recursive trx trx p cost 0 (clear_deadlock_marks s) = Some (s', c, NO_DEADLOCK)"
    and p: "wait_lock (ltrx_heap s trx) = None \<or> wait_lock (ltrx_heap s trx) = Some p"
    and listed: "waiting_listed {trx} s"
  shows "(trx, trx) \<notin> (waits_for_rel s')\<^sup>+"
proof -
  let ?s = "clear_deadlock_marks s"
  have "waits_for s t u \<Longrightarrow> t \<in> set (ltrx_list s)" for t u
    using listed by (auto simp: waits_for_def waiting_listed_def)
  then have "explored trx ?s (marked ?s)"
    by (auto simp: clear_deadlock_marks_eq explored_def marked_def split: if_splits)
  then have post: "(\<exists>m. s' = set_marks m ?s) \<and> explored trx ?s (marked s') \<and> trx \<in> marked s'"
    using deadlock_search_explores(1) [OF rec] p by (simp add: clear_deadlock_marks_eq)
  then obtain m where m: "s' = set_marks m s" by (auto simp: clear_deadlock_marks_eq)
  have "explored trx s' (marked s')" using post m by (simp add: clear_deadlock_marks_eq)
  moreover have "waiting_listed {trx} s'" using listed m evolved_set_marks waiting_listed_evolved by blast
  ultimately show ?thesis using explored_no_cycle post by blast
qed

lemma finite_queued: "wf_locks s \<Longrightarrow> finite {r. queued s r}"
  by (rule finite_subset [of _ "{..< next_lock s}"]) (auto simp: queued_def dest: wf_page_member wf_table_member)

text \<open>
  The check ends, keeps the invariant, leaves the requester's own request in the queue, and
  answers \<open>False\<close> only when the requester is on no waits-for cycle.
\<close>

lemma deadlock_occurs_loop_total:
  assumes "lock_inv s" "searchable s p" "m_trx (lock_heap s p) = trx"
    "wait_lock (ltrx_heap s trx) = None \<or> wait_lock (ltrx_heap s trx) = Some p" "waiting_listed {trx} s"
  shows "\<exists>s' b V. deadlock_occurs_loop p trx cost s = Some (s', b) \<and> lock_inv s' \<and> evolved V s s'
     \<and> p \<notin> V \<and> (\<not> b \<longrightarrow> (trx, trx) \<notin> (waits_for_rel s')\<^sup>+)"
  using assms
proof (induction "card {r. queued s r}" arbitrary: s cost rule: less_induct)
  case less
  let ?s0 = "clear_deadlock_marks s"
  have s0: "\<exists>m. ?s0 = set_marks m s" by (auto simp: clear_deadlock_marks_eq)
  have "searchable ?s0 p" "lock_inv ?s0" "m_trx (lock_heap ?s0 p) = trx"
    using less.prems s0 by (auto simp: searchable_def)
  then obtain s1 c r where rec0: "deadlock_recursive trx trx p cost 0 ?s0 = Some (s1, c, r)"
    "search_post trx ?s0 s1 r"
    using deadlock_search_total(1) [of ?s0 p trx trx cost 0] by blast
  then have rec: "deadlock_recursive trx trx p cost 0 ?s0 = Some (s1, c, r)" "search_post trx s s1 r"
    using search_post_set_marks [of trx _ s s1 r] s0 by auto
  note unfold = deadlock_occurs_loop.simps [of p trx cost s]
  show ?case
  proof (cases "r = LOCK_VICTIM_IS_OTHER")
    case True
    then obtain v where v: "queued s v" "m_trx (lock_heap s v) \<noteq> trx" "cancelled v s s1"
      using rec(2) by (auto simp: search_post_def victim_cancelled_def)
    have wf: "wf_locks s" using less.prems(1) by (simp add: lock_inv_def)
    have ev: "evolved {v} s s1" using shrunk_evolved [OF wf] v(3) by (simp add: cancelled_def)
    have "{r. queued s1 r} = {r. queued s r} - {v}" using v(3) by (auto simp: cancelled_def)
    then have smaller: "card {r. queued s1 r} < card {r. queued s r}"
      using v(1) finite_queued [OF wf] card_Diff1_less [of "{r. queued s r}" v] by (simp only: mem_Collect_eq)
    have "p \<noteq> v" using v(2) less.prems(3) by auto
    then have "searchable s1 p"
      using less.prems(2) evolved_queued [OF ev] evolved_lock_fields [OF ev] by (auto simp: searchable_def)
    moreover have "wait_lock (ltrx_heap s1 trx) = None \<or> wait_lock (ltrx_heap s1 trx) = Some p"
      using ev less.prems(4) unfolding evolved_def by metis
    moreover have "lock_inv s1" using v(3) by (simp add: cancelled_def)
    moreover have "m_trx (lock_heap s1 p) = trx" using less.prems(3) evolved_lock_fields(1) [OF ev] by simp
    ultimately obtain s' b V where s': "deadlock_occurs_loop p trx c s1 = Some (s', b)" "lock_inv s'"
      "evolved V s1 s'" "p \<notin> V" "\<not> b \<longrightarrow> (trx, trx) \<notin> (waits_for_rel s')\<^sup>+"
      using less.hyps [OF smaller, of c] waiting_listed_evolved [OF ev less.prems(5)] by blast
    then show ?thesis
      using rec(1) True evolved_trans [OF ev s'(3)] \<open>p \<noteq> v\<close> by (auto simp: unfold)
  next
    case False
    then obtain m where m: "s1 = set_marks m s" using rec(2) by (auto simp: search_post_def)
    show ?thesis
    proof (cases "r = NO_DEADLOCK")
      case True
      then show ?thesis
        using rec(1) m less.prems search_no_cycle [of trx p cost s s1 c] evolved_set_marks
        by (auto simp: unfold intro!: exI [of _ "{}"])
    next
      case other: False
      let ?s' = "s1\<lparr>deadlock_found := True\<rparr>"
      have "lock_inv ?s'"
      proof -
        have "lock_frame s1 ?s'" by (simp add: lock_frame_def)
        moreover have "wf_thrs ?s' = wf_thrs s1" by (rule wf_thrs_cong) simp_all
        ultimately show ?thesis using m less.prems(1) lock_inv_set_marks [of m s]
          by (simp add: lock_inv_def lock_frame_inv wf_que_def)
      qed
      moreover have "evolved {} s ?s'" using m by (simp add: evolved_def env_frame_def page_queue_def que_states_def)
      ultimately show ?thesis using rec(1) False other
        by (cases r) (auto simp: unfold intro!: exI [of _ "{}"])
    qed
  qed
qed

end
