(* ===== verification/Lock_Request.thy ===== *)
theory Lock_Request
  imports Lock_Deadlock
begin

text \<open>
  Lock requests: a new request goes to the end of its queue, or sets a bit in a lock the
  transaction already has.  The lemmas show what each keeps of the invariant, and that the
  waits-for graph stays free of cycles.
\<close>

section \<open>The full invariant\<close>

definition full_inv :: "lock_sys \<Rightarrow> bool" where
  "full_inv s \<longleftrightarrow> lock_inv s \<and> waiting_listed {} s \<and> acyclic (waits_for_rel s)"

lemma acyclic_subset_waits:
  "acyclic (waits_for_rel s) \<Longrightarrow> (\<And>t u. waits_for s' t u \<Longrightarrow> waits_for s t u) \<Longrightarrow> acyclic (waits_for_rel s')"
  by (erule acyclic_subset) (auto simp: waits_for_rel_def)

text \<open>New edges out of one node make a cycle only through that node.\<close>

lemma acyclic_new_source:
  assumes "acyclic R" "\<And>a b. (a, b) \<in> R' \<Longrightarrow> a \<noteq> t \<Longrightarrow> (a, b) \<in> R" "(t, t) \<notin> R'\<^sup>+"
  shows "acyclic R'"
proof -
  have step: "(a, b) \<in> R\<^sup>+ \<or> (a, t) \<in> R'\<^sup>* \<and> (t, b) \<in> R'\<^sup>+" if "(a, b) \<in> R'\<^sup>+" for a b
    using that
  proof (induction rule: trancl_induct)
    case (base b)
    then show ?case using assms(2) by (cases "a = t") auto
  next
    case (step b c)
    show ?case
    proof (cases "b = t")
      case True
      then show ?thesis using step.hyps by (meson trancl_into_rtrancl r_into_trancl)
    next
      case False
      then have "(b, c) \<in> R" using step.hyps(2) assms(2) by blast
      then show ?thesis using step.IH step.hyps(2) by (meson trancl.trancl_into_trancl)
    qed
  qed
  have False if x: "(x, x) \<in> R'\<^sup>+" for x
  proof -
    have "(x, x) \<notin> R\<^sup>+" using assms(1) by (simp add: acyclic_def)
    then have "(x, t) \<in> R'\<^sup>*" "(t, x) \<in> R'\<^sup>+" using step [OF x] by auto
    then have "(t, t) \<in> R'\<^sup>+" by (meson trancl_rtrancl_trancl)
    then show False using assms(3) by blast
  qed
  then show ?thesis by (auto simp: acyclic_def)
qed

section \<open>Appending a request\<close>

text \<open>\<open>tgt\<close> is the queue the new request \<open>l\<close>, at the fresh address, goes to.\<close>

definition appended :: "page_id + table_ptr \<Rightarrow> lock_t \<Rightarrow> lock_sys \<Rightarrow> lock_sys \<Rightarrow> bool" where
  "appended tgt l s s' \<longleftrightarrow>
     lock_heap s' = (lock_heap s)(next_lock s := l) \<and> next_lock s' = next_lock s + 1
   \<and> (\<forall>pg. page_queue s' pg = page_queue s pg @ (if tgt = Inl pg then [next_lock s] else []))
   \<and> (\<forall>pg. rec_locks s' pg = Some [] \<longrightarrow> rec_locks s pg = Some [])
   \<and> (\<forall>tb. table_locks s' tb = table_locks s tb @ (if tgt = Inr tb then [next_lock s] else []))
   \<and> env_frame s s' \<and> thr_heap s' = thr_heap s \<and> fork_heap s' = fork_heap s
   \<and> (\<forall>t. trx_locks (ltrx_heap s' t) = trx_locks (ltrx_heap s t) @ (if t = m_trx l then [next_lock s] else [])
        \<and> wait_lock (ltrx_heap s' t) =
            (if t = m_trx l \<and> is_waiting l then Some (next_lock s) else wait_lock (ltrx_heap s t))
        \<and> wait_thrs (ltrx_heap s' t) = wait_thrs (ltrx_heap s t)
        \<and> que_states s' t = que_states s t)"

definition request_fits :: "page_id + table_ptr \<Rightarrow> lock_t \<Rightarrow> bool" where
  "request_fits tgt l \<longleftrightarrow>
     (case tgt of Inl pg \<Rightarrow> rec_ok l \<and> m_page_id l = pg \<and> one_bit l | Inr tb \<Rightarrow> table_ok l \<and> m_object l = tb)"

lemma queued_fresh:
  assumes "wf_locks s"
  shows "queued s p \<Longrightarrow> p < next_lock s" "\<not> queued s (next_lock s)"
  using wf_page_member(1) [OF assms] wf_table_member(1) [OF assms] by (auto simp: queued_def)

lemma appended_queued:
  "appended tgt l s s' \<Longrightarrow> queued s' p \<longleftrightarrow> queued s p \<or> p = next_lock s"
  by (cases tgt) (auto simp: appended_def queued_def)

lemma appended_old:
  assumes "appended tgt l s s'" "wf_locks s" "queued s p"
  shows "lock_heap s' p = lock_heap s p"
  using assms queued_fresh(1) [OF assms(2,3)] by (simp add: appended_def)

lemma appended_wf_locks:
  assumes app: "appended tgt l s s'" and wf: "wf_locks s" and l: "request_fits tgt l"
  shows "wf_locks s'"
proof -
  let ?p = "next_lock s"
  have fresh: "?p \<notin> set (page_queue s pg)" "?p \<notin> set (table_locks s tb)" "?p \<notin> set (trx_locks (ltrx_heap s t))" for pg tb t
    using queued_fresh(2) [OF wf] trx_locks_iff [OF wf] by (auto simp: queued_def)
  have here: "lock_heap s' ?p = l" using app by (simp add: appended_def)
  have page: "r < next_lock s' \<and> m_page_id (lock_heap s' r) = pg \<and> rec_ok (lock_heap s' r)"
    if "r \<in> set (page_queue s' pg)" for r pg
  proof (cases "r \<in> set (page_queue s pg)")
    case True
    then have "lock_heap s' r = lock_heap s r" using appended_old [OF app wf] by (auto simp: queued_def)
    then show ?thesis using wf_page_member(1-3) [OF wf True] app by (simp add: appended_def)
  next
    case False
    then have "r = ?p" "tgt = Inl pg" using that app by (auto simp: appended_def split: if_splits)
    then show ?thesis using here l app by (simp add: request_fits_def appended_def)
  qed
  have tbl: "r < next_lock s' \<and> m_object (lock_heap s' r) = tb \<and> table_ok (lock_heap s' r)"
    if "r \<in> set (table_locks s' tb)" for r tb
  proof (cases "r \<in> set (table_locks s tb)")
    case True
    then have "lock_heap s' r = lock_heap s r" using appended_old [OF app wf] by (auto simp: queued_def)
    then show ?thesis using wf_table_member(1-3) [OF wf True] app by (simp add: appended_def)
  next
    case False
    then have "r = ?p" "tgt = Inr tb" using that app by (auto simp: appended_def split: if_splits)
    then show ?thesis using here l app by (simp add: request_fits_def appended_def)
  qed
  have trx: "set (trx_locks (ltrx_heap s' t)) = {r. queued s' r \<and> m_trx (lock_heap s' r) = t}" for t
  proof -
    have "{r. queued s' r \<and> m_trx (lock_heap s' r) = t}
        = {r. queued s r \<and> m_trx (lock_heap s r) = t} \<union> (if t = m_trx l then {?p} else {})"
      using appended_queued [OF app] appended_old [OF app wf] here queued_fresh(2) [OF wf] by auto
    then show ?thesis using app wf by (simp add: appended_def wf_locks_def)
  qed
  have "distinct (page_queue s' pg)" "distinct (table_locks s' tb)" "distinct (trx_locks (ltrx_heap s' t))" for pg tb t
    using app wf fresh by (auto simp: appended_def wf_locks_def)
  moreover have "rec_locks s' pg \<noteq> Some []" for pg using app wf by (auto simp: appended_def wf_locks_def)
  ultimately show ?thesis using page tbl trx by (simp add: wf_locks_def)
qed

lemma appended_wf_wait:
  assumes app: "appended tgt l s s'" and wf: "wf_locks s" "wf_wait {} s" and l: "request_fits tgt l"
    and free: "is_waiting l \<Longrightarrow> wait_lock (ltrx_heap s (m_trx l)) = None"
  shows "wf_wait {} s'"
proof -
  let ?p = "next_lock s"
  have here: "lock_heap s' ?p = l" using app by (simp add: appended_def)
  have wl: "wait_lock (ltrx_heap s' t) =
      (if t = m_trx l \<and> is_waiting l then Some ?p else wait_lock (ltrx_heap s t))" for t
    using app by (simp add: appended_def)
  have "wait_lock (ltrx_heap s' (m_trx (lock_heap s' r))) = Some r"
    if "queued s' r" "is_waiting (lock_heap s' r)" for r
  proof (cases "queued s r")
    case True
    then have "wait_lock (ltrx_heap s (m_trx (lock_heap s r))) = Some r"
      using that appended_old [OF app wf(1)] wf(2) by (simp add: wf_wait_def)
    then show ?thesis using True appended_old [OF app wf(1)] free wl by auto
  next
    case False
    then show ?thesis using that appended_queued [OF app] here wl by auto
  qed
  moreover have "is_waiting (lock_heap s' r) \<and> m_trx (lock_heap s' r) = t \<and> (queued s' r \<or> r \<in> {})"
    if "wait_lock (ltrx_heap s' t) = Some r" for t r
  proof (cases "t = m_trx l \<and> is_waiting l")
    case True
    then show ?thesis using that wl here appended_queued [OF app] by auto
  next
    case False
    then have "wait_lock (ltrx_heap s t) = Some r" using that wl by (simp split: if_splits)
    then have "is_waiting (lock_heap s r)" "m_trx (lock_heap s r) = t" "queued s r"
      using wf(2) by (auto simp: wf_wait_def)
    then show ?thesis using appended_old [OF app wf(1)] appended_queued [OF app] by auto
  qed
  moreover have "one_bit (lock_heap s' r)" if "r \<in> set (page_queue s' pg)" "is_waiting (lock_heap s' r)" for r pg
  proof (cases "r \<in> set (page_queue s pg)")
    case True
    then have "lock_heap s' r = lock_heap s r" using appended_old [OF app wf(1)] by (auto simp: queued_def)
    then show ?thesis using True that(2) wf(2) unfolding wf_wait_def by metis
  next
    case False
    then have "r = ?p" "tgt = Inl pg" using that app by (auto simp: appended_def split: if_splits)
    then show ?thesis using here l by (simp add: request_fits_def)
  qed
  ultimately show ?thesis unfolding wf_wait_def by blast
qed

text \<open>What the new request needs of the requests ahead of it.\<close>

definition request_conflicts :: "page_id + table_ptr \<Rightarrow> lock_t \<Rightarrow> lock_t \<Rightarrow> bool" where
  "request_conflicts tgt = (case tgt of Inl pg \<Rightarrow> rec_conflicts | Inr tb \<Rightarrow> table_conflict)"

definition request_waits :: "page_id + table_ptr \<Rightarrow> lock_t \<Rightarrow> lock_t \<Rightarrow> bool" where
  "request_waits tgt = (case tgt of Inl pg \<Rightarrow> rec_waits | Inr tb \<Rightarrow> table_waits)"

definition queue_of :: "lock_sys \<Rightarrow> page_id + table_ptr \<Rightarrow> lock_ptr list" where
  "queue_of s tgt = (case tgt of Inl pg \<Rightarrow> page_queue s pg | Inr tb \<Rightarrow> table_locks s tb)"

lemma appended_queues:
  assumes app: "appended tgt l s s'" and wf: "wf_locks s"
  shows "page_locks s' pg = page_locks s pg @ (if tgt = Inl pg then [l] else [])"
    "tbl_locks s' tb = tbl_locks s tb @ (if tgt = Inr tb then [l] else [])"
proof -
  have "map (lock_heap s') (page_queue s pg) = map (lock_heap s) (page_queue s pg)"
    "map (lock_heap s') (table_locks s tb) = map (lock_heap s) (table_locks s tb)"
    using appended_old [OF app wf] by (auto simp: queued_def)
  then show "page_locks s' pg = page_locks s pg @ (if tgt = Inl pg then [l] else [])"
    "tbl_locks s' tb = tbl_locks s tb @ (if tgt = Inr tb then [l] else [])"
    using app by (auto simp: page_locks_def tbl_locks_def appended_def)
qed

lemma appended_safe:
  assumes app: "appended tgt l s s'" and wf: "wf_locks s" "queues_safe s"
    and "\<And>r. granted l \<Longrightarrow> r \<in> set (queue_of s tgt) \<Longrightarrow> \<not> request_conflicts tgt (lock_heap s r) l"
  shows "queues_safe s'"
  using assms(3-) unfolding queues_safe_def appended_queues [OF app wf(1)]
  by (cases tgt) (auto simp: queue_safe_snoc request_conflicts_def queue_of_def page_locks_def tbl_locks_def)

lemma appended_live:
  assumes app: "appended tgt l s s'" and wf: "wf_locks s" "queues_live s"
    and "is_waiting l \<Longrightarrow> \<exists>r\<in>set (queue_of s tgt). request_waits tgt l (lock_heap s r)"
  shows "queues_live s'"
  using assms(3-) unfolding queues_live_def appended_queues [OF app wf(1)]
  by (cases tgt) (auto simp: queue_live_from_append request_waits_def queue_of_def page_locks_def tbl_locks_def)


lemma appended_inv:
  assumes app: "appended tgt l s s'" and inv: "lock_inv s" and l: "request_fits tgt l"
    and "is_waiting l \<Longrightarrow> wait_lock (ltrx_heap s (m_trx l)) = None"
    and "\<And>r. granted l \<Longrightarrow> r \<in> set (queue_of s tgt) \<Longrightarrow> \<not> request_conflicts tgt (lock_heap s r) l"
    and "is_waiting l \<Longrightarrow> \<exists>r\<in>set (queue_of s tgt). request_waits tgt l (lock_heap s r)"
  shows "lock_inv s'"
proof -
  have wf: "wf_locks s" "wf_wait {} s" "wf_que s" "wf_thrs s" "queues_safe s" "queues_live s"
    using inv by (auto simp: lock_inv_def)
  have "wf_que s'" using app wf(3) by (auto simp: appended_def wf_que_def que_states_def)
  moreover have "wf_thrs s'" using app wf(4) wf_thrs_cong [of s' s] by (auto simp: appended_def que_states_def)
  ultimately show ?thesis
    using appended_wf_locks [OF app wf(1) l] appended_wf_wait [OF app wf(1,2) l assms(4)]
      appended_safe [OF app wf(1,5) assms(5)] appended_live [OF app wf(1,6) assms(6)]
    by (simp add: lock_inv_def)
qed

lemma queued_in_own_queue:
  assumes "wf_locks s" "queued s w"
  shows "if lock_type (lock_heap s w) = LOCK_REC then w \<in> set (page_queue s (m_page_id (lock_heap s w)))
    else w \<in> set (table_locks s (m_object (lock_heap s w)))"
  using assms(2)
proof -
  consider (page) pg where "w \<in> set (page_queue s pg)" | (table) tb where "w \<in> set (table_locks s tb)"
    using assms(2) by (auto simp: queued_def)
  then show ?thesis
  proof cases
    case page
    then show ?thesis using wf_page_member(2,3) [OF assms(1) page] by (simp add: rec_ok_def)
  next
    case table
    then show ?thesis
      using wf_table_member(2,3) [OF assms(1) table] by (simp add: table_ok_def lock_flag_defs)
  qed
qed

lemma set_ahead: "set (ahead w q) \<subseteq> set q"
  by (auto simp: ahead_def dest: set_takeWhileD)

lemma ahead_append: "w \<in> set q \<Longrightarrow> ahead w (q @ xs) = ahead w q"
  by (simp add: ahead_def)

lemma locks_ahead_queued:
  assumes "f \<in> set (locks_ahead s w h)"
  shows "queued s f"
  using assms set_ahead by (fastforce simp: locks_ahead_def queued_def split: if_splits)

lemma appended_locks_ahead:
  assumes app: "appended tgt l s s'" and wf: "wf_locks s" and w: "queued s w"
  shows "locks_ahead s' w h = locks_ahead s w h"
proof -
  have w': "lock_heap s' w = lock_heap s w" using appended_old [OF app wf w] .
  have "rec_is_nth_bit_set (lock_heap s' r) h = rec_is_nth_bit_set (lock_heap s r) h"
    if "r \<in> set (ahead w (page_queue s pg))" for r pg
    using that set_ahead appended_old [OF app wf] by (fastforce simp: queued_def)
  then have "filter (\<lambda>p. rec_is_nth_bit_set (lock_heap s' p) h) (ahead w (page_queue s pg))
      = filter (\<lambda>p. rec_is_nth_bit_set (lock_heap s p) h) (ahead w (page_queue s pg))" for pg
    by (rule filter_cong [OF refl])
  then show ?thesis
    using queued_in_own_queue [OF wf w] app w' ahead_append by (simp add: locks_ahead_def appended_def split: if_splits)
qed

lemma appended_waits_for:
  assumes app: "appended tgt l s s'" and inv: "lock_inv s" and e: "waits_for s' t u"
    and t: "\<not> (t = m_trx l \<and> is_waiting l)"
  shows "waits_for s t u"
proof -
  have wf: "wf_locks s" "wf_wait {} s" using inv by (auto simp: lock_inv_def)
  from e obtain w f where w: "wait_lock (ltrx_heap s' t) = Some w"
    and f: "f \<in> set (locks_ahead s' w (wait_heap_no (lock_heap s' w)))"
      "has_to_wait_for (lock_heap s' w) (lock_heap s' f) (wait_heap_no (lock_heap s' w))"
      "m_trx (lock_heap s' f) = u" by (auto simp: waits_for_def)
  have w0: "wait_lock (ltrx_heap s t) = Some w" using w t app by (auto simp: appended_def)
  then have qw: "queued s w" using wf(2) by (auto simp: wf_wait_def)
  then have "f \<in> set (locks_ahead s w (wait_heap_no (lock_heap s w)))"
    using f(1) appended_locks_ahead [OF app wf(1)] appended_old [OF app wf(1)] by simp
  moreover from this have "queued s f" by (rule locks_ahead_queued)
  ultimately show ?thesis
    using f(2,3) w0 qw appended_old [OF app wf(1)] by (auto simp: waits_for_def)
qed

section \<open>The new record lock\<close>

definition new_rec_lock :: "page_id \<Rightarrow> lock_type_t \<Rightarrow> nat \<Rightarrow> nat \<Rightarrow> nat \<Rightarrow> ltrx_ptr \<Rightarrow> lock_t" where
  "new_rec_lock pg type_mode0 heap_no n_bits index trx =
    (let type_mode = (if heap_no = PAGE_HEAP_NO_SUPREMUM
                      then type_mode0 AND NOT (LOCK_GAP OR LOCK_REC_NOT_GAP) else type_mode0);
         n_bytes = 1 + (n_bits + LOCK_PAGE_BITMAP_MARGIN) div 8
     in rec_set_nth_bit heap_no
          (rec_bitmap_reset \<lparr>m_trx = trx, m_type_mode = (type_mode AND NOT LOCK_TYPE_MASK) OR LOCK_REC,
             m_object = index, m_page_id = pg, m_n_bits = n_bytes * 8, m_bitmap = replicate n_bytes 0\<rparr>))"

lemma or_wait_absorb: "bit w 8 \<Longrightarrow> w OR LOCK_WAIT = w"
  by (rule bit_eqI) (auto simp: bit_or_iff flag_simps)

text \<open>The page has fewer than \<open>2 ^ 32\<close> records, and the requested record is one of them.\<close>

definition block_ok :: "lock_block \<Rightarrow> nat \<Rightarrow> bool" where
  "block_ok block heap_no \<longleftrightarrow> heap_no < b_n_heap block \<and> b_n_heap block < 2 ^ 32"

lemma new_rec_lock_facts:
  fixes tm :: lock_type_t and pg :: page_id and heap_no n_bits index trx :: nat
  assumes "heap_no < n_bits" "n_bits < 2 ^ 32" "unat (tm AND LOCK_MODE_MASK) < 4"
  defines "l \<equiv> new_rec_lock pg tm heap_no n_bits index trx"
  shows "m_trx l = trx" "m_page_id l = pg" "m_object l = index"
    "rec_is_nth_bit_set l h \<longleftrightarrow> h = heap_no" "rec_ok l" "one_bit l"
    "lock_mode l = tm AND LOCK_MODE_MASK" "is_waiting l \<longleftrightarrow> bit tm 8"
    "rec_is_gap l \<longleftrightarrow> bit tm 9 \<and> heap_no \<noteq> PAGE_HEAP_NO_SUPREMUM"
    "rec_is_not_gap l \<longleftrightarrow> bit tm 10 \<and> heap_no \<noteq> PAGE_HEAP_NO_SUPREMUM"
    "rec_is_insert_intention l \<longleftrightarrow> bit tm 11"
proof -
  define n_bytes where "n_bytes = 1 + (n_bits + LOCK_PAGE_BITMAP_MARGIN) div 8"
  define l0 where "l0 = \<lparr>m_trx = trx, m_type_mode = ((if heap_no = PAGE_HEAP_NO_SUPREMUM
      then tm AND NOT (LOCK_GAP OR LOCK_REC_NOT_GAP) else tm) AND NOT LOCK_TYPE_MASK) OR LOCK_REC,
    m_object = index, m_page_id = pg, m_n_bits = n_bytes * 8, m_bitmap = replicate n_bytes (0 :: byte)\<rparr>"
  have l: "l = rec_set_nth_bit heap_no (rec_bitmap_reset l0)"
    by (simp add: l_def new_rec_lock_def l0_def n_bytes_def Let_def)
  have bytes: "heap_no < n_bytes * 8" "n_bytes * 8 < ULINT_UNDEFINED"
    using assms(1,2) by (simp_all add: n_bytes_def LOCK_PAGE_BITMAP_MARGIN_def ULINT_UNDEFINED_def)
  then have wf0: "wf_bitmap l0" by (simp add: wf_bitmap_def l0_def)
  show "m_trx l = trx" "m_page_id l = pg" "m_object l = index" by (simp_all add: l l0_def)
  show bits: "rec_is_nth_bit_set l h \<longleftrightarrow> h = heap_no" for h
    using rec_set_nth_bit_iff [of "rec_bitmap_reset l0" heap_no h] wf0 bytes(1) rec_bitmap_reset_none [OF wf0]
    by (simp add: l l0_def)
  then show "one_bit l" by (auto simp: one_bit_def)
  have tm: "m_type_mode l = m_type_mode l0" by (simp add: l)
  show mode: "lock_mode l = tm AND LOCK_MODE_MASK" by (simp add: lock_mode_def tm) (simp add: l0_def flag_simps)
  have "lock_type l = LOCK_REC" by (simp add: lock_type_def tm) (simp add: l0_def flag_simps)
  then show "rec_ok l" using mode assms(3) wf0 by (simp add: rec_ok_def) (simp add: l)
  show "is_waiting l \<longleftrightarrow> bit tm 8" "rec_is_gap l \<longleftrightarrow> bit tm 9 \<and> heap_no \<noteq> PAGE_HEAP_NO_SUPREMUM"
    "rec_is_not_gap l \<longleftrightarrow> bit tm 10 \<and> heap_no \<noteq> PAGE_HEAP_NO_SUPREMUM" "rec_is_insert_intention l \<longleftrightarrow> bit tm 11"
    by (auto simp: lock_flag_bits tm l0_def bit_simps flag_simps)
qed

lemma rec_create_appended:
  fixes type_mode :: lock_type_t
  assumes "block_ok block heap_no" "unat (type_mode AND LOCK_MODE_MASK) < 4"
  shows "snd (rec_create type_mode block heap_no index trx s) = next_lock s"
    "appended (Inl (b_page_id block)) (new_rec_lock (b_page_id block) type_mode heap_no (b_n_heap block) index trx)
       s (fst (rec_create type_mode block heap_no index trx s))"
proof -
  let ?tm = "if heap_no = PAGE_HEAP_NO_SUPREMUM then type_mode AND NOT (LOCK_GAP OR LOCK_REC_NOT_GAP) else type_mode"
  define l where "l = new_rec_lock (b_page_id block) type_mode heap_no (b_n_heap block) index trx"
  note facts = new_rec_lock_facts [of heap_no "b_n_heap block" type_mode "b_page_id block" index trx, folded l_def]
  have ok: "heap_no < b_n_heap block" "b_n_heap block < 2 ^ 32" using assms(1) by (auto simp: block_ok_def)
  define s3 where "s3 = (let p = next_lock s;
      s2 = upd_lock p (\<lambda>_. l) (upd_trx trx (trx_locks_update (\<lambda>ls. ls @ [p])) (s\<lparr>next_lock := p + 1\<rparr>))
    in s2\<lparr>rec_locks := (rec_locks s2)(b_page_id block \<mapsto>
         (case rec_locks s2 (b_page_id block) of None \<Rightarrow> [p] | Some q \<Rightarrow> q @ [p]))\<rparr>)"
  have create: "rec_create type_mode block heap_no index trx s =
      (if ?tm AND LOCK_WAIT \<noteq> 0 then set_trx_wait (next_lock s) trx s3 else s3, next_lock s)"
    by (simp add: rec_create_def rec_create_low_def Let_def s3_def l_def new_rec_lock_def)
  show "snd (rec_create type_mode block heap_no index trx s) = next_lock s" by (simp add: create)
  have waiting: "?tm AND LOCK_WAIT \<noteq> 0 \<longleftrightarrow> is_waiting l"
    using facts(8) [OF ok assms(2)] by (simp add: flag_bit_iff bit_simps flag_simps)
  have s3: "lock_heap s3 = (lock_heap s)(next_lock s := l)" by (auto simp: s3_def Let_def fun_eq_iff)
  have heap: "lock_heap (fst (rec_create type_mode block heap_no index trx s)) = (lock_heap s)(next_lock s := l)"
  proof (cases "is_waiting l")
    case True
    then have "m_type_mode l OR LOCK_WAIT = m_type_mode l" by (simp add: or_wait_absorb lock_flag_bits)
    then show ?thesis using s3 by (auto simp: create waiting set_trx_wait_def fun_eq_iff)
  qed (simp add: create waiting s3)
  have "page_queue s3 pg = page_queue s pg @ (if b_page_id block = pg then [next_lock s] else [])" for pg
    by (auto simp: s3_def page_queue_def Let_def split: option.splits)
  then show "appended (Inl (b_page_id block)) l s (fst (rec_create type_mode block heap_no index trx s))"
    using heap facts(1) [OF ok assms(2)] unfolding appended_def create waiting fst_conv
    by (auto simp: set_trx_wait_def env_frame_def que_states_def page_queue_def s3_def Let_def split: option.splits)
qed


section \<open>Changing the bits of a lock\<close>

text \<open>An update of one record lock's bitmap, seen by the rest of the invariant.\<close>

lemma bits_upd_wf_locks:
  assumes "wf_locks s" "\<And>l. m_trx (f l) = m_trx l" "\<And>l. m_page_id (f l) = m_page_id l"
    "\<And>l. m_object (f l) = m_object l" "\<And>l. m_type_mode (f l) = m_type_mode l" "\<And>l. wf_bitmap (f l) = wf_bitmap l"
  shows "wf_locks (upd_lock p f s)"
  by (rule wf_locks_cong [OF assms(1)])
     (use assms in \<open>simp_all add: rec_ok_def table_ok_def lock_type_def lock_mode_def\<close>)

lemma bits_upd_page_nth:
  assumes "i < length (page_queue s pg)"
  shows "page_locks (upd_lock p f s) pg ! i = lock_heap (upd_lock p f s) (page_queue s pg ! i)"
    "page_locks s pg ! i = lock_heap s (page_queue s pg ! i)"
    "length (page_locks s pg) = length (page_queue s pg)"
    "length (page_locks (upd_lock p f s) pg) = length (page_queue s pg)"
  using assms by (simp_all add: page_locks_def)

lemma bits_upd_tbl:
  assumes "wf_locks s" "p \<in> set (page_queue s pg)"
  shows "tbl_locks (upd_lock p f s) tb = tbl_locks s tb"
  using wf_page_member(8) [OF assms] by (auto simp: tbl_locks_def)

lemma wf_que_upd_lock [simp]: "wf_que (upd_lock p f s) = wf_que s"
  by (simp add: wf_que_def)

lemma wf_thrs_upd_lock [simp]: "wf_thrs (upd_lock p f s) = wf_thrs s"
  by (rule wf_thrs_cong) simp_all

lemma queued_upd_lock [simp]: "queued (upd_lock p f s) r = queued s r"
  by (simp add: queued_def)

lemma set_bit_conflicts:
  assumes "wf_bitmap l" "h < m_n_bits l" "rec_conflict h' a (rec_set_nth_bit h l)" "\<not> rec_conflict h a (rec_set_nth_bit h l)"
  shows "rec_conflict h' a l"
proof -
  have "h' \<noteq> h" using assms by auto
  then have "rec_is_nth_bit_set (rec_set_nth_bit h l) h' = rec_is_nth_bit_set l h'"
    using rec_set_nth_bit_iff [OF assms(1,2)] by simp
  then show ?thesis
    using assms(3) by (simp add: rec_conflict_def lock_mode_def rec_is_gap_def rec_is_insert_intention_def)
qed

lemma page_safe_mono:
  assumes "queue_safe rec_conflicts granted (page_locks s pg)" "distinct (page_queue s pg)"
    and q: "page_queue s' pg = page_queue s pg"
    and mono: "\<And>a b. a \<noteq> b \<Longrightarrow> a \<in> set (page_queue s pg) \<Longrightarrow> b \<in> set (page_queue s pg) \<Longrightarrow>
      granted (lock_heap s' b) \<Longrightarrow> rec_conflicts (lock_heap s' a) (lock_heap s' b) \<Longrightarrow>
      granted (lock_heap s b) \<and> rec_conflicts (lock_heap s a) (lock_heap s b)"
  shows "queue_safe rec_conflicts granted (page_locks s' pg)"
proof (rule queue_safe_mono [OF assms(1)])
  show "length (page_locks s' pg) = length (page_locks s pg)" by (simp add: page_locks_def q)
  fix i j
  assume ij: "i < j" "j < length (page_locks s pg)" "granted (page_locks s' pg ! j)"
    "rec_conflicts (page_locks s' pg ! i) (page_locks s' pg ! j)"
  then have "page_queue s pg ! i \<noteq> page_queue s pg ! j"
    using assms(2) by (simp add: page_locks_def nth_eq_iff_index_eq)
  then show "granted (page_locks s pg ! j) \<and> rec_conflicts (page_locks s pg ! i) (page_locks s pg ! j)"
    using mono [of "page_queue s pg ! i" "page_queue s pg ! j"] ij by (simp add: page_locks_def q)
qed

lemma set_bit_inv:
  assumes inv: "lock_inv s" and p: "p \<in> set (page_queue s pg)" "granted (lock_heap s p)" "h < m_n_bits (lock_heap s p)"
    and free: "\<And>r. r \<in> set (page_queue s pg) \<Longrightarrow> r \<noteq> p \<Longrightarrow>
      \<not> rec_conflict h (lock_heap s r) (rec_set_nth_bit h (lock_heap s p))"
  shows "lock_inv (upd_lock p (rec_set_nth_bit h) s)"
proof -
  let ?s = "upd_lock p (rec_set_nth_bit h) s"
  let ?l = "rec_set_nth_bit h (lock_heap s p)"
  have wf: "wf_locks s" "wf_wait {} s" "queues_safe s" "queues_live s" using inv by (auto simp: lock_inv_def)
  have okp: "rec_ok (lock_heap s p)" "wf_bitmap (lock_heap s p)" using wf_page_member(3) [OF wf(1) p(1)] by (auto simp: rec_ok_def)
  have okl: "rec_ok ?l" using okp by (simp add: rec_ok_def lock_type_def lock_mode_def)
  have waiting: "is_waiting (lock_heap ?s r) = is_waiting (lock_heap s r)" for r by (simp add: is_waiting_def)
  have wf': "wf_locks ?s" by (rule bits_upd_wf_locks [OF wf(1)]) simp_all
  have "wf_wait {} ?s" using wf(2) p(2) by (auto simp: wf_wait_def is_waiting_def)
  moreover have "rec_conflicts (lock_heap s a) (lock_heap s b)"
    if "a \<noteq> b" "a \<in> set (page_queue s pg')" "b \<in> set (page_queue s pg')"
      and c: "rec_conflicts (lock_heap ?s a) (lock_heap ?s b)" for a b pg'
  proof -
    have ok: "rec_ok (lock_heap s a)" "rec_ok (lock_heap s b)" using wf_page_member(3) [OF wf(1)] that by blast+
    have pg': "pg' = pg" if "p \<in> set (page_queue s pg')" using wf_page_member(2) [OF wf(1)] p(1) that by blast
    have set_bit: "rec_conflicts (lock_heap s r) (lock_heap s p)"
      if "r \<in> set (page_queue s pg)" "r \<noteq> p" "rec_conflicts (lock_heap s r) ?l" for r
      using that(3) free [OF that(1,2)] set_bit_conflicts [OF okp(2) p(3)] unfolding rec_conflicts_def by metis
    consider "a = p" | "b = p" | "a \<noteq> p" "b \<noteq> p" by blast
    then show ?thesis
    proof cases
      case 1
      then have "rec_conflicts (lock_heap s b) ?l" using c that(1) recq.conflict_sym [OF okl ok(2)] by simp
      moreover have "b \<in> set (page_queue s pg)" "b \<noteq> p" using 1 that(1-3) pg' by simp_all
      ultimately have "rec_conflicts (lock_heap s b) (lock_heap s a)" using set_bit 1 by simp
      then show ?thesis by (rule recq.conflict_sym [OF ok(2,1)])
    next
      case 2
      then have "rec_conflicts (lock_heap s a) ?l" using c that(1) by simp
      moreover have "a \<in> set (page_queue s pg)" "a \<noteq> p" using 2 that(1-3) pg' by simp_all
      ultimately show ?thesis using set_bit 2 by simp
    next
      case 3
      then show ?thesis using c by simp
    qed
  qed
  then have "queue_safe rec_conflicts granted (page_locks ?s pg')" for pg'
    by (intro page_safe_mono [of s pg' ?s])
       (use wf(1,3) waiting in \<open>auto simp: queues_safe_def wf_locks_def simp del: upd_lock_fields(1)\<close>)
  then have "queues_safe ?s" using wf(3) bits_upd_tbl [OF wf(1) p(1)] by (simp add: queues_safe_def)
  moreover have "queue_live rec_waits granted (page_locks ?s pg')" for pg'
  proof (rule queue_live_mono [of _ _ "page_locks s pg'"])
    fix i j assume ij: "j < i" "i < length (page_locks s pg')" "\<not> granted (page_locks ?s pg' ! i)"
      "rec_waits (page_locks s pg' ! i) (page_locks s pg' ! j)"
    have "has_to_wait_for l ?l x = has_to_wait_for l (lock_heap s p) x" for l x
      by (simp add: has_to_wait_for_def rec_blocks_def lock_mode_def rec_is_gap_def rec_is_not_gap_def
          rec_is_insert_intention_def)
    moreover have "page_queue s pg' ! i \<noteq> p" using ij(2,3) p(2) waiting by (auto simp: page_locks_def)
    ultimately show "rec_waits (page_locks ?s pg' ! i) (page_locks ?s pg' ! j)"
      using ij okp(2) p(3) by (auto simp: page_locks_def rec_waits_def rec_set_nth_bit_iff)
  qed (use wf(4) waiting in \<open>auto simp: queues_live_def page_locks_def simp del: upd_lock_fields(1)\<close>)
  then have "queues_live ?s" using wf(4) bits_upd_tbl [OF wf(1) p(1)] by (simp add: queues_live_def)
  ultimately show ?thesis using wf' inv by (simp add: lock_inv_def)
qed


lemma has_to_wait_for_bits:
  "has_to_wait_for l (rec_set_nth_bit h k) x = has_to_wait_for l k x"
  "has_to_wait_for l (rec_reset_nth_bit h k) x = has_to_wait_for l k x"
  by (simp_all add: has_to_wait_for_def rec_blocks_def lock_mode_def rec_is_gap_def rec_is_not_gap_def
      rec_is_insert_intention_def)

lemma wait_heap_no_bit:
  assumes "lock_inv s" "queued s w" "is_waiting (lock_heap s w)" "lock_type (lock_heap s w) = LOCK_REC"
  shows "rec_is_nth_bit_set (lock_heap s w) (wait_heap_no (lock_heap s w))"
  using waiting_searchable [OF assms(1-3)] assms(4) rec_find_set_bit_set
  by (auto simp: searchable_def wait_heap_no_def)

lemma set_bit_waits_for:
  assumes inv: "lock_inv s" and p: "p \<in> set (page_queue s pg)" "granted (lock_heap s p)" "h < m_n_bits (lock_heap s p)"
    and none: "\<And>r. r \<in> set (page_queue s pg) \<Longrightarrow> is_waiting (lock_heap s r) \<Longrightarrow> \<not> rec_is_nth_bit_set (lock_heap s r) h"
    and e: "waits_for (upd_lock p (rec_set_nth_bit h) s) t u"
  shows "waits_for s t u"
proof -
  let ?s = "upd_lock p (rec_set_nth_bit h) s"
  have wf: "wf_locks s" "wf_wait {} s" using inv by (auto simp: lock_inv_def)
  from e obtain w f where w: "wait_lock (ltrx_heap s t) = Some w"
    and f: "f \<in> set (locks_ahead ?s w (wait_heap_no (lock_heap ?s w)))"
      "has_to_wait_for (lock_heap ?s w) (lock_heap ?s f) (wait_heap_no (lock_heap ?s w))"
      "m_trx (lock_heap ?s f) = u" by (auto simp: waits_for_def)
  have qw: "queued s w" "is_waiting (lock_heap s w)" using w wf(2) by (auto simp: wf_wait_def)
  then have wp: "lock_heap ?s w = lock_heap s w" using p(2) by auto
  define x where "x = wait_heap_no (lock_heap s w)"
  have "rec_is_nth_bit_set (lock_heap s f) x" if "lock_type (lock_heap s w) = LOCK_REC"
    "f \<in> set (ahead w (page_queue s (m_page_id (lock_heap s w))))" "rec_is_nth_bit_set (lock_heap ?s f) x"
  proof (cases "f = p")
    case True
    then have here: "p \<in> set (page_queue s (m_page_id (lock_heap s w)))" using that(2) set_ahead by blast
    have "m_page_id (lock_heap s w) = pg"
      using wf_page_member(2) [OF wf(1) here] wf_page_member(2) [OF wf(1) p(1)] by simp
    then have "w \<in> set (page_queue s pg)" using queued_in_own_queue [OF wf(1) qw(1)] that(1) by simp
    then have "x \<noteq> h" using none qw(2) wait_heap_no_bit [OF inv qw that(1)] by (auto simp: x_def)
    then show ?thesis using True that(3) rec_set_nth_bit_iff [of "lock_heap s p" h x] p(3)
      wf_page_member(3) [OF wf(1) p(1)] by (simp add: rec_ok_def)
  qed (use that in simp)
  then have "f \<in> set (locks_ahead s w x)" using f(1) wp by (auto simp: locks_ahead_def x_def split: if_splits)
  moreover have "has_to_wait_for (lock_heap s w) (lock_heap s f) x" "m_trx (lock_heap s f) = u"
    using f(2,3) wp has_to_wait_for_bits(1) by (auto simp: x_def split: if_splits)
  ultimately show ?thesis using w by (auto simp: waits_for_def x_def)
qed

section \<open>Adding a record lock\<close>

text \<open>A request of mode \<open>tm\<close> on record \<open>h\<close> conflicts with no lock on the page.\<close>

definition no_conflict :: "lock_sys \<Rightarrow> page_id \<Rightarrow> lock_type_t \<Rightarrow> nat \<Rightarrow> ltrx_ptr \<Rightarrow> bool" where
  "no_conflict s pg tm h trx \<longleftrightarrow>
     (\<forall>r\<in>set (page_queue s pg). let l = lock_heap s r in
        \<not> (h \<noteq> PAGE_HEAP_NO_SUPREMUM \<and> m_trx l \<noteq> trx \<and> rec_is_nth_bit_set l h
           \<and> \<not> mode_compatible (lock_mode l) (tm AND LOCK_MODE_MASK)
           \<and> \<not> rec_is_gap l \<and> \<not> bit tm 9 \<and> \<not> rec_is_insert_intention l \<and> \<not> bit tm 11))"

text \<open>The transaction holds \<open>p\<close>, a lock as strong as the one requested.\<close>

definition holds_lock :: "lock_sys \<Rightarrow> page_id \<Rightarrow> lock_type_t \<Rightarrow> nat \<Rightarrow> ltrx_ptr \<Rightarrow> lock_ptr \<Rightarrow> bool" where
  "holds_lock s pg tm h trx p \<longleftrightarrow> (let l = lock_heap s p in
     p \<in> set (page_queue s pg) \<and> granted l \<and> m_trx l = trx \<and> rec_is_nth_bit_set l h
     \<and> lock_mode l = tm AND LOCK_MODE_MASK
     \<and> (rec_is_gap l \<longrightarrow> bit tm 9) \<and> (rec_is_not_gap l \<longrightarrow> bit tm 10) \<and> (rec_is_insert_intention l \<longrightarrow> bit tm 11))"

text \<open>The state is as before except for locks added to the page queues.\<close>

definition added :: "lock_sys \<Rightarrow> lock_sys \<Rightarrow> bool" where
  "added s s' \<longleftrightarrow> lock_inv s' \<and> env_frame s s' \<and> thr_heap s' = thr_heap s \<and> fork_heap s' = fork_heap s
     \<and> (\<forall>t u. waits_for s' t u \<longrightarrow> waits_for s t u)
     \<and> (\<forall>t. wait_lock (ltrx_heap s' t) = wait_lock (ltrx_heap s t) \<and> que_states s' t = que_states s t)"

lemma added_full_inv: "full_inv s \<Longrightarrow> added s s' \<Longrightarrow> full_inv s'"
  unfolding full_inv_def added_def waiting_listed_def env_frame_def
  by (metis acyclic_subset_waits)

lemma create_granted:
  fixes tm :: lock_type_t
  assumes inv: "lock_inv s" and blk: "block_ok block h" "unat (tm AND LOCK_MODE_MASK) < 4" "\<not> bit tm 8"
    and free: "no_conflict s (b_page_id block) tm h trx"
  shows "added s (fst (rec_create tm block h index trx s))"
    "holds_lock (fst (rec_create tm block h index trx s)) (b_page_id block) tm h trx (next_lock s)"
proof -
  let ?pg = "b_page_id block" and ?s = "fst (rec_create tm block h index trx s)"
  define l where "l = new_rec_lock ?pg tm h (b_n_heap block) index trx"
  have bounds: "h < b_n_heap block" "b_n_heap block < 2 ^ 32" using blk(1) by (auto simp: block_ok_def)
  note l = new_rec_lock_facts [OF bounds blk(2), of ?pg index trx, folded l_def]
  have app: "appended (Inl ?pg) l s ?s" unfolding l_def by (rule rec_create_appended(2) [OF blk(1,2)])
  have fits: "request_fits (Inl ?pg) l" using l by (simp add: request_fits_def)
  have nc: "\<not> request_conflicts (Inl ?pg) (lock_heap s r) l" if "r \<in> set (queue_of s (Inl ?pg))" for r
    using that free l
    by (auto simp: request_conflicts_def queue_of_def rec_conflicts_def rec_conflict_def no_conflict_def Let_def)
  have "lock_inv ?s" by (rule appended_inv [OF app inv fits]) (use l(8) blk(3) nc in auto)
  moreover have "waits_for s t u" if "waits_for ?s t u" for t u
    using appended_waits_for [OF app inv that] l(8) blk(3) by blast
  ultimately show "added s ?s" using app l(8) blk(3) by (auto simp: added_def appended_def)
  show "holds_lock ?s ?pg tm h trx (next_lock s)"
    using app l blk(3) by (auto simp: holds_lock_def appended_def Let_def)
qed

lemma find_SomeD: "find P xs = Some x \<Longrightarrow> x \<in> set xs \<and> P x"
  by (metis find_Some_iff nth_mem)

lemma set_bit_granted:
  fixes tm :: lock_type_t
  assumes inv: "lock_inv s" and p: "p \<in> set (page_queue s pg)" "m_trx (lock_heap s p) = trx" "h < m_n_bits (lock_heap s p)"
    and tm: "lock_mode (lock_heap s p) = tm AND LOCK_MODE_MASK" "\<not> bit tm 8" "granted (lock_heap s p)"
      "rec_is_gap (lock_heap s p) \<longrightarrow> bit tm 9" "rec_is_not_gap (lock_heap s p) \<longrightarrow> bit tm 10"
      "rec_is_insert_intention (lock_heap s p) \<longrightarrow> bit tm 11"
      "h \<noteq> PAGE_HEAP_NO_SUPREMUM \<longrightarrow> (bit tm 9 \<longrightarrow> rec_is_gap (lock_heap s p)) \<and> (bit tm 11 \<longrightarrow> rec_is_insert_intention (lock_heap s p))"
    and free: "no_conflict s pg tm h trx"
    and none: "\<And>r. r \<in> set (page_queue s pg) \<Longrightarrow> is_waiting (lock_heap s r) \<Longrightarrow> \<not> rec_is_nth_bit_set (lock_heap s r) h"
  shows "added s (upd_lock p (rec_set_nth_bit h) s)" "holds_lock (upd_lock p (rec_set_nth_bit h) s) pg tm h trx p"
proof -
  let ?s = "upd_lock p (rec_set_nth_bit h) s"
  have wfb: "wf_bitmap (lock_heap s p)"
    using inv wf_page_member(3) [OF _ p(1)] by (simp add: lock_inv_def rec_ok_def)
  have flags: "lock_mode (rec_set_nth_bit h l) = lock_mode l" "rec_is_gap (rec_set_nth_bit h l) = rec_is_gap l"
    "rec_is_not_gap (rec_set_nth_bit h l) = rec_is_not_gap l" "is_waiting (rec_set_nth_bit h l) = is_waiting l"
    "rec_is_insert_intention (rec_set_nth_bit h l) = rec_is_insert_intention l" for l
    by (simp_all add: lock_mode_def rec_is_gap_def rec_is_not_gap_def rec_is_insert_intention_def is_waiting_def)
  have "\<not> rec_conflict h (lock_heap s r) (rec_set_nth_bit h (lock_heap s p))" if "r \<in> set (page_queue s pg)" for r
    using free that p(2) tm unfolding no_conflict_def rec_conflict_def flags Let_def by auto
  then have "lock_inv ?s" using set_bit_inv [OF inv p(1) tm(3) p(3)] by blast
  moreover have "waits_for s t u" if "waits_for ?s t u" for t u
    by (rule set_bit_waits_for [OF inv p(1) tm(3) p(3) none that])
  ultimately show "added s ?s" by (auto simp: added_def env_frame_def que_states_def)
  show "holds_lock ?s pg tm h trx p"
    using p tm wfb by (simp add: holds_lock_def Let_def flags rec_set_nth_bit_iff)
qed


lemma rec_add_granted:
  fixes tm :: lock_type_t
  assumes inv: "lock_inv s" and blk: "block_ok block h" "unat (tm AND LOCK_MODE_MASK) < 4" "\<not> bit tm 8"
    and free: "no_conflict s (b_page_id block) tm h trx"
  shows "added s (fst (rec_add_to_queue tm block h index trx s))
    \<and> holds_lock (fst (rec_add_to_queue tm block h index trx s)) (b_page_id block) tm h trx
        (snd (rec_add_to_queue tm block h index trx s))"
proof -
  let ?pg = "b_page_id block"
  define tm' where "tm' = (if h = PAGE_HEAP_NO_SUPREMUM then (tm OR LOCK_REC) AND NOT (LOCK_GAP OR LOCK_REC_NOT_GAP)
    else tm OR LOCK_REC)"
  have mode: "tm' AND LOCK_MODE_MASK = tm AND LOCK_MODE_MASK" by (simp add: tm'_def flag_simps)
  have bits: "bit tm' 8 = bit tm 8" "bit tm' 11 = bit tm 11" "bit tm' 9 \<longleftrightarrow> bit tm 9 \<and> h \<noteq> PAGE_HEAP_NO_SUPREMUM"
    "bit tm' 10 \<longleftrightarrow> bit tm 10 \<and> h \<noteq> PAGE_HEAP_NO_SUPREMUM"
    by (auto simp: tm'_def bit_simps flag_simps)
  have free': "no_conflict s ?pg tm' h trx" using free by (auto simp: no_conflict_def Let_def mode bits)
  have holds: "holds_lock s' pg tm' h trx p \<Longrightarrow> holds_lock s' pg tm h trx p" for s' pg p
    by (auto simp: holds_lock_def Let_def mode bits)
  have bounds: "unat (tm' AND LOCK_MODE_MASK) < 4" "\<not> bit tm' 8" using blk mode bits by simp_all
  have create: "added s (fst (rec_create tm' block h index trx s))
      \<and> holds_lock (fst (rec_create tm' block h index trx s)) ?pg tm h trx (snd (rec_create tm' block h index trx s))"
    using create_granted [OF inv blk(1) bounds free', of index] holds rec_create_appended(1) [OF blk(1) bounds(1)] by simp
  let ?waits = "list_ex (\<lambda>p. is_waiting (lock_heap s p) \<and> rec_is_nth_bit_set (lock_heap s p) h) (page_queue s ?pg)"
  have nowait: "tm' AND LOCK_WAIT = 0" using bounds(2) flag_bit_iff(1) [of tm'] by blast
  have eq: "rec_add_to_queue tm block h index trx s =
      (if ?waits then rec_create tm' block h index trx s
       else case rec_find_similar_on_page s tm' h (page_queue s ?pg) trx of
              Some p \<Rightarrow> (upd_lock p (rec_set_nth_bit h) s, p) | None \<Rightarrow> rec_create tm' block h index trx s)"
    unfolding rec_add_to_queue_def Let_def tm'_def [symmetric] using nowait by simp
  show ?thesis
  proof (cases "?waits \<or> rec_find_similar_on_page s tm' h (page_queue s ?pg) trx = None")
    case True
    then show ?thesis using create by (auto simp: eq)
  next
    case False
    then obtain p where found: "rec_find_similar_on_page s tm' h (page_queue s ?pg) trx = Some p" by blast
    then have p: "p \<in> set (page_queue s ?pg)" "m_trx (lock_heap s p) = trx" "m_type_mode (lock_heap s p) = tm'"
      "h < m_n_bits (lock_heap s p)"
      unfolding rec_find_similar_on_page_def rec_get_n_bits_def by (auto dest: find_SomeD)
    have none: "\<not> rec_is_nth_bit_set (lock_heap s r) h" if "r \<in> set (page_queue s ?pg)" "is_waiting (lock_heap s r)" for r
      using False that by (auto simp: list_ex_iff)
    have "added s (upd_lock p (rec_set_nth_bit h) s)"
      "holds_lock (upd_lock p (rec_set_nth_bit h) s) ?pg tm' h trx p"
      by (rule set_bit_granted [OF inv p(1,2,4) _ bounds(2) _ _ _ _ _ free' none];
          use p(3) bounds(2) in \<open>simp add: lock_flag_bits lock_mode_def\<close>)+
    then show ?thesis using False found holds by (simp add: eq)
  qed
qed

section \<open>Conflict tests\<close>

lemma rec_blocks_mono:
  fixes tm tm' :: lock_type_t
  assumes "rec_blocks l trx tm supremum" "tm' AND LOCK_MODE_MASK = tm AND LOCK_MODE_MASK" "bit tm' 11 = bit tm 11"
    "bit tm' 9 \<Longrightarrow> bit tm 9"
  shows "rec_blocks l trx tm' supremum"
  using assms(1,3,4)
  by (auto simp: rec_blocks_def and.commute [of LOCK_MODE_MASK] assms(2) flag_bit_iff split: if_splits)

lemma no_conflicting_free:
  fixes tm :: lock_type_t
  assumes "wf_locks s" "unat (tm AND LOCK_MODE_MASK) < 4" "rec_other_has_conflicting s pg tm h trx = None"
  shows "no_conflict s pg tm h trx"
  unfolding no_conflict_def Let_def
proof
  fix r assume r: "r \<in> set (page_queue s pg)"
  have "unat (lock_mode (lock_heap s r)) < 4" using wf_page_member(3) [OF assms(1) r] by (simp add: rec_ok_def)
  then have sym: "mode_compatible (lock_mode (lock_heap s r)) (tm AND LOCK_MODE_MASK)
      = mode_compatible (tm AND LOCK_MODE_MASK) (lock_mode (lock_heap s r))"
    using mode_compatible_sym assms(2) by blast
  have "\<not> (rec_is_nth_bit_set (lock_heap s r) h \<and> rec_blocks (lock_heap s r) trx tm (h = PAGE_HEAP_NO_SUPREMUM))"
    using assms(3) r unfolding rec_other_has_conflicting_def find_None_iff by blast
  then show "\<not> (h \<noteq> PAGE_HEAP_NO_SUPREMUM \<and> m_trx (lock_heap s r) \<noteq> trx \<and> rec_is_nth_bit_set (lock_heap s r) h
      \<and> \<not> mode_compatible (lock_mode (lock_heap s r)) (tm AND LOCK_MODE_MASK)
      \<and> \<not> rec_is_gap (lock_heap s r) \<and> \<not> bit tm 9 \<and> \<not> rec_is_insert_intention (lock_heap s r) \<and> \<not> bit tm 11)"
    by (auto simp: rec_blocks_def sym and.commute [of LOCK_MODE_MASK] flag_bit_iff)
qed

section \<open>Withdrawing the last request of a queue\<close>

lemma ahead_last: "p \<notin> set xs \<Longrightarrow> w \<in> set (xs @ [p]) \<Longrightarrow> p \<notin> set (ahead w (xs @ [p]))"
  by (induction xs) (auto simp: ahead_def)

text \<open>A granted lock without bits at the end of its queue plays no role.\<close>

lemma withdraw_last:
  assumes inv: "lock_inv s" and q: "page_queue s pg = xs @ [p]" and one: "\<And>j. rec_is_nth_bit_set (lock_heap s p) j \<longleftrightarrow> j = h"
    and que: "que_states s (m_trx (lock_heap s p)) \<noteq> TRX_QUE_LOCK_WAIT"
    and w: "wait_lock (ltrx_heap s (m_trx (lock_heap s p))) \<in> {None, Some p}"
  defines "s' \<equiv> upd_lock p (rec_reset_nth_bit h) (lock_reset p s)"
  shows "lock_inv s'" "env_frame s s'" "que_states s' = que_states s"
    "wait_lock (ltrx_heap s' t) = (if t = m_trx (lock_heap s p) then None else wait_lock (ltrx_heap s t))"
    "waits_for s' t u \<Longrightarrow> waits_for s t u"
proof -
  let ?t = "m_trx (lock_heap s p)"
  have wf: "wf_locks s" "wf_wait {} s" "wf_que s" "wf_thrs s" "queues_safe s" "queues_live s"
    using inv by (auto simp: lock_inv_def)
  have p: "p \<in> set (page_queue s pg)" by (simp add: q)
  note mem = wf_page_member [OF wf(1) p]
  have wfb: "wf_bitmap (lock_heap s p)" using mem(3) by (simp add: rec_ok_def)
  have "distinct (xs @ [p])" using wf(1) q unfolding wf_locks_def by metis
  then have dist: "p \<notin> set xs" by simp
  have heap: "lock_heap s' r = (if r = p then rec_reset_nth_bit h (clear_wait (lock_heap s p)) else lock_heap s r)" for r
    by (simp add: s'_def lock_reset_heap)
  have nobits: "\<not> rec_is_nth_bit_set (lock_heap s' p) j" for j
    using one wfb by (simp add: heap rec_reset_nth_bit_iff)
  have gr: "granted (lock_heap s' p)" using clear_wait_simps(11) by (simp add: heap is_waiting_def)
  have pq: "page_queue s' pg' = page_queue s pg'" for pg' by (simp add: s'_def page_queue_def)
  have tl: "table_locks s' = table_locks s" "ltrx_list s' = ltrx_list s" by (simp_all add: s'_def)
  have qd: "queued s' r = queued s r" for r by (simp add: queued_def pq tl)
  show wl: "wait_lock (ltrx_heap s' t) = (if t = ?t then None else wait_lock (ltrx_heap s t))" for t by (simp add: s'_def)
  show que': "que_states s' = que_states s" by (simp add: s'_def que_states_def fun_eq_iff)
  show "env_frame s s'" by (simp add: s'_def env_frame_def)
  have wf': "wf_locks s'"
    unfolding s'_def by (intro bits_upd_wf_locks wf_locks_cong [OF wf(1)]) (simp_all add: lock_reset_heap)
  have wait': "wf_wait {} s'"
  proof -
    have "wait_lock (ltrx_heap s' (m_trx (lock_heap s' r))) = Some r" if "queued s' r" "is_waiting (lock_heap s' r)" for r
    proof -
      have r: "r \<noteq> p" "lock_heap s' r = lock_heap s r" using that(2) gr heap by auto
      then have backp: "wait_lock (ltrx_heap s (m_trx (lock_heap s r))) = Some r"
        using that wf(2) by (simp add: qd wf_wait_def)
      then have "m_trx (lock_heap s r) \<noteq> ?t" using w r(1) by auto
      then show ?thesis using backp r by (simp add: wl)
    qed
    moreover have "is_waiting (lock_heap s' r) \<and> m_trx (lock_heap s' r) = t \<and> (queued s' r \<or> r \<in> {})"
      if "wait_lock (ltrx_heap s' t) = Some r" for t r
    proof -
      have t: "t \<noteq> ?t" "wait_lock (ltrx_heap s t) = Some r" using that by (auto simp: wl split: if_splits)
      then have "is_waiting (lock_heap s r)" "m_trx (lock_heap s r) = t" "queued s r" using wf(2) by (auto simp: wf_wait_def)
      then show ?thesis using t(1) by (auto simp: heap qd)
    qed
    moreover have "one_bit (lock_heap s' r)" if "r \<in> set (page_queue s' pg')" "is_waiting (lock_heap s' r)" for r pg'
      using that gr wf(2) unfolding wf_wait_def pq by (metis heap)
    ultimately show ?thesis unfolding wf_wait_def by blast
  qed
  have que'': "wf_que s'" using wf(3) que que' unfolding wf_que_def wl by (metis que_states_def)
  have thrs: "wf_thrs s'" using wf(4) by (simp add: s'_def)
  have safe: "queues_safe s'"
  proof -
    have "queue_safe rec_conflicts granted (page_locks s' pg')" for pg'
    proof (rule page_safe_mono [OF _ _ pq])
      show "queue_safe rec_conflicts granted (page_locks s pg')" "distinct (page_queue s pg')"
        using wf(1,5) by (auto simp: queues_safe_def wf_locks_def)
      fix a b assume "rec_conflicts (lock_heap s' a) (lock_heap s' b)" "granted (lock_heap s' b)"
      moreover from this have "a \<noteq> p" "b \<noteq> p" using nobits by (auto simp: rec_conflicts_def rec_conflict_def)
      ultimately show "granted (lock_heap s b) \<and> rec_conflicts (lock_heap s a) (lock_heap s b)" by (simp add: heap)
    qed
    moreover have "tbl_locks s' tb = tbl_locks s tb" for tb using mem(8) by (auto simp: tbl_locks_def tl heap)
    ultimately show ?thesis using wf(5) by (simp add: queues_safe_def)
  qed
  have live: "queues_live s'"
  proof -
    have "map (lock_heap s') xs = map (lock_heap s) xs" using dist by (auto simp: heap)
    then have "page_locks s' pg = map (lock_heap s) xs @ [lock_heap s' p]" by (simp add: page_locks_def pq q)
    moreover have "queue_live rec_waits granted (map (lock_heap s) xs)"
      using wf(6) by (metis queues_live_def page_locks_def q map_append queue_live_from_append)
    ultimately have "queue_live rec_waits granted (page_locks s' pg)"
      using gr by (simp add: queue_live_from_append)
    moreover have "page_locks s' pg' = page_locks s pg'" if "pg' \<noteq> pg" for pg'
      using that wf_page_member(2) [OF wf(1)] mem(2) by (auto simp: page_locks_def pq heap)
    moreover have "tbl_locks s' tb = tbl_locks s tb" for tb using mem(8) by (auto simp: tbl_locks_def tl heap)
    ultimately show ?thesis using wf(6) unfolding queues_live_def by metis
  qed
  show "lock_inv s'" using wf' wait' que'' thrs safe live by (simp add: lock_inv_def)
  assume "waits_for s' t u"
  then obtain v f where v: "wait_lock (ltrx_heap s' t) = Some v"
    and f: "f \<in> set (locks_ahead s' v (wait_heap_no (lock_heap s' v)))"
      "has_to_wait_for (lock_heap s' v) (lock_heap s' f) (wait_heap_no (lock_heap s' v))"
      "m_trx (lock_heap s' f) = u" by (auto simp: waits_for_def)
  have v0: "wait_lock (ltrx_heap s t) = Some v" "t \<noteq> ?t" using v by (auto simp: wl split: if_splits)
  then have qv: "queued s v" "m_trx (lock_heap s v) = t" using wf(2) by (auto simp: wf_wait_def)
  then have hv: "lock_heap s' v = lock_heap s v" using v0(2) heap by auto
  have "f \<noteq> p"
  proof
    assume "f = p"
    then have "lock_type (lock_heap s v) \<noteq> LOCK_REC" using f(1) nobits hv by (auto simp: locks_ahead_def)
    then have "p \<in> set (table_locks s (m_object (lock_heap s v)))"
      using f(1) \<open>f = p\<close> hv set_ahead by (auto simp: locks_ahead_def tl)
    then show False using mem(8) by blast
  qed
  then have "f \<in> set (locks_ahead s v (wait_heap_no (lock_heap s v)))" "lock_heap s' f = lock_heap s f"
    using f(1) hv by (auto simp: locks_ahead_def pq tl heap split: if_splits)
  then show "waits_for s t u" using f(2,3) hv v0(1) by (auto simp: waits_for_def)
qed


section \<open>Enqueueing a waiting request\<close>

text \<open>The requesting thread runs a listed transaction that waits for nothing.\<close>

definition may_request :: "thr_ptr \<Rightarrow> lock_sys \<Rightarrow> bool" where
  "may_request thr s \<longleftrightarrow> \<not> snd (que_thr_stop thr s) \<and> thr_get_trx s thr \<in> set (ltrx_list s)
     \<and> wait_lock (ltrx_heap s (thr_get_trx s thr)) = None"

lemma not_stopped:
  assumes "\<not> snd (que_thr_stop thr s)"
  shows "fork_state (fork_heap s (thr_graph (thr_heap s thr))) \<noteq> QUE_FORK_COMMAND_WAIT"
    "que_states s (thr_get_trx s thr) \<noteq> TRX_QUE_LOCK_WAIT"
  using assms by (auto simp: que_thr_stop_def thr_get_trx_def que_states_def Let_def split: if_splits)

text \<open>Suspending the thread of a transaction that has just started to wait.\<close>

definition suspended :: "ltrx_ptr \<Rightarrow> lock_sys \<Rightarrow> lock_sys" where
  "suspended trx s = upd_trx trx (was_chosen_as_deadlock_victim_update (\<lambda>_. False))
     (upd_trx trx (trx_que_state_update (\<lambda>_. TRX_QUE_LOCK_WAIT)) s)"

lemma suspend_inv:
  assumes inv: "lock_inv s" "waiting_listed {trx} s" and trx: "thr_get_trx s thr = trx"
    and fork: "fork_state (fork_heap s (thr_graph (thr_heap s thr))) \<noteq> QUE_FORK_COMMAND_WAIT"
    and que: "que_states s trx \<noteq> TRX_QUE_LOCK_WAIT" and w: "wait_lock (ltrx_heap s trx) \<noteq> None"
  obtains s' where "que_thr_stop thr (suspended trx s) = (s', True)" "lock_inv s'" "waiting_listed {} s'"
    "waits_for s' = waits_for s" "wait_lock (ltrx_heap s' trx) = wait_lock (ltrx_heap s trx)"
    "que_states s' trx = TRX_QUE_LOCK_WAIT" "lock_heap s' = lock_heap s" "page_queue s' = page_queue s"
proof -
  define s' where "s' = upd_thr thr (thr_state_update (\<lambda>_. QUE_THR_LOCK_WAIT))
    (upd_trx trx (wait_thrs_update (\<lambda>ts. thr # ts)) (suspended trx s))"
  have stop: "que_thr_stop thr (suspended trx s) = (s', True)"
    using fork trx by (simp add: que_thr_stop_def suspended_def s'_def thr_get_trx_def Let_def)
  have frame: "lock_frame s s'" by (simp add: s'_def suspended_def lock_frame_def)
  have wl: "wait_lock (ltrx_heap s' t) = wait_lock (ltrx_heap s t)" for t using frame by (simp add: lock_frame_def)
  have que': "que_states s' t = (if t = trx then TRX_QUE_LOCK_WAIT else que_states s t)" for t
    by (simp add: s'_def suspended_def que_states_def)
  have "wait_thrs (ltrx_heap s trx) = []" using inv(1) que by (auto simp: lock_inv_def wf_thrs_def que_states_def)
  then have thrs: "wait_thrs (ltrx_heap s' t) = (if t = trx then [thr] else wait_thrs (ltrx_heap s t))" for t
    by (simp add: s'_def suspended_def)
  have state: "thr_state (thr_heap s' th) = (if th = thr then QUE_THR_LOCK_WAIT else thr_state (thr_heap s th))" for th
    by (simp add: s'_def suspended_def)
  have gt: "thr_get_trx s' th = thr_get_trx s th" for th by (simp add: s'_def suspended_def thr_get_trx_def)
  have wft: "wf_thrs s" using inv(1) by (simp add: lock_inv_def)
  have "wf_thrs s'"
    unfolding wf_thrs_def
  proof (intro allI conjI ballI impI)
    fix t th assume th: "th \<in> set (wait_thrs (ltrx_heap s' t))"
    show "thr_state (thr_heap s' th) = QUE_THR_LOCK_WAIT" "thr_get_trx s' th = t"
      using th wft trx by (auto simp: thrs state gt wf_thrs_def split: if_splits)
  next
    fix t
    show "distinct (wait_thrs (ltrx_heap s' t))" using wft by (simp add: thrs wf_thrs_def)
    assume "wait_thrs (ltrx_heap s' t) \<noteq> []"
    then show "trx_que_state (ltrx_heap s' t) = TRX_QUE_LOCK_WAIT"
      using wft que' [of t] by (auto simp: thrs wf_thrs_def que_states_def split: if_splits)
  qed
  moreover have "wf_que s'"
    using inv(1) w que' unfolding lock_inv_def wf_que_def wl by (metis que_states_def)
  ultimately have "lock_inv s'" using inv(1) lock_frame_inv [OF frame] by (simp add: lock_inv_def)
  moreover have "waiting_listed {} s'"
    using inv(2) by (auto simp: waiting_listed_def wl que') (simp_all add: s'_def suspended_def)
  moreover have "waits_for s' = waits_for s"
    using frame lock_frame_inv(6) [OF frame] by (simp add: waits_for_def locks_ahead_def lock_frame_def fun_eq_iff)
  moreover have "page_queue s' = page_queue s" using lock_frame_inv(6) [OF frame] by blast
  ultimately show thesis using that [OF stop] wl que' frame by (simp add: lock_frame_def)
qed

text \<open>How a request ends.\<close>

definition request_outcome :: "(lock_sys \<Rightarrow> bool) \<Rightarrow> ltrx_ptr \<Rightarrow> lock_sys \<Rightarrow> db_err \<Rightarrow> bool" where
  "request_outcome held trx s' e \<longleftrightarrow> full_inv s' \<and>
     (e = DB_SUCCESS \<and> held s' \<and> wait_lock (ltrx_heap s' trx) = None
      \<or> e = DB_LOCK_WAIT \<and> wait_lock (ltrx_heap s' trx) \<noteq> None \<and> que_states s' trx = TRX_QUE_LOCK_WAIT
      \<or> e = DB_DEADLOCK \<and> wait_lock (ltrx_heap s' trx) = None)"

lemma waiting_listed_drop: "waiting_listed {t} s \<Longrightarrow> wait_lock (ltrx_heap s t) = None \<Longrightarrow> waiting_listed {} s"
  by (auto simp: waiting_listed_def)

text \<open>The deadlock check for a request that has just been appended.\<close>

lemma waiting_request_search:
  assumes inv: "full_inv s" and thr: "may_request thr s" and app: "appended tgt l s s1" and fits: "request_fits tgt l"
    and l: "is_waiting l" "m_trx l = thr_get_trx s thr"
    and waits: "\<exists>r\<in>set (queue_of s tgt). request_waits tgt l (lock_heap s r)"
  defines "p \<equiv> next_lock s" and "trx \<equiv> thr_get_trx s thr"
  obtains s2 b V where "deadlock_occurs p trx s1 = Some (s2, b)" "lock_inv s2" "evolved V s1 s2" "p \<notin> V"
    "waiting_listed {trx} s2" "\<And>t u. waits_for s2 t u \<Longrightarrow> t \<noteq> trx \<Longrightarrow> waits_for s t u"
    "\<not> b \<Longrightarrow> acyclic (waits_for_rel s2)" "env_frame s s2" "que_states s2 trx \<noteq> TRX_QUE_LOCK_WAIT"
    "wait_lock (ltrx_heap s2 trx) \<in> {None, Some p}" "queued s2 p" "m_trx (lock_heap s2 p) = trx"
proof -
  have linv: "lock_inv s" "waiting_listed {} s" "acyclic (waits_for_rel s)" using inv by (auto simp: full_inv_def)
  have req: "trx \<in> set (ltrx_list s)" "wait_lock (ltrx_heap s trx) = None" "\<not> snd (que_thr_stop thr s)"
    using thr by (auto simp: may_request_def trx_def)
  have inv1: "lock_inv s1" by (rule appended_inv [OF app linv(1) fits]) (use l req(2) waits in \<open>auto simp: trx_def\<close>)
  have e1: "waits_for s t u" if "waits_for s1 t u" "t \<noteq> trx" for t u
    using appended_waits_for [OF app linv(1) that(1)] that(2) l(2) by (simp add: trx_def)
  have p1: "lock_heap s1 p = l" "wait_lock (ltrx_heap s1 trx) = Some p" "queued s1 p"
    using app l appended_queued [OF app] by (auto simp: appended_def p_def trx_def)
  have "searchable s1 p" using waiting_searchable [OF inv1 p1(3)] p1(1) l(1) by simp
  moreover have "waiting_listed {trx} s1"
    using linv(2) app req(1) l(2) by (auto simp: waiting_listed_def appended_def env_frame_def trx_def)
  ultimately obtain s2 b V where s2: "deadlock_occurs p trx s1 = Some (s2, b)" "lock_inv s2" "evolved V s1 s2"
      "p \<notin> V" "\<not> b \<longrightarrow> (trx, trx) \<notin> (waits_for_rel s2)\<^sup>+" and listed2: "waiting_listed {trx} s2"
    using deadlock_occurs_loop_total [OF inv1, of p trx 0] p1 l(2) waiting_listed_evolved
    unfolding deadlock_occurs_def trx_def by (metis (no_types, lifting))
  have e2: "waits_for s t u" if "waits_for s2 t u" "t \<noteq> trx" for t u
    using waits_for_evolved [OF s2(2,3) that(1)] e1 that(2) by blast
  have acyc: "acyclic (waits_for_rel s2)" if "\<not> b"
    by (rule acyclic_new_source [OF linv(3), of _ trx]) (use e2 s2(5) that in \<open>auto simp: waits_for_rel_def\<close>)
  have env2: "env_frame s s2" using app s2(3) env_frame_trans by (auto simp: appended_def evolved_def)
  have "que_states s1 trx = que_states s trx" using app by (simp add: appended_def)
  then have que2: "que_states s2 trx \<noteq> TRX_QUE_LOCK_WAIT"
    using s2(3) not_stopped(2) [OF req(3)] unfolding evolved_def trx_def by (metis que_state.distinct(1))
  have w2: "wait_lock (ltrx_heap s2 trx) \<in> {None, Some p}" using s2(3) p1(2) unfolding evolved_def by (metis insertCI)
  show thesis
    using that [OF s2(1-4) listed2 e2 acyc env2 que2 w2] evolved_queued [OF s2(3)] evolved_lock_fields(1) [OF s2(3)]
      p1 s2(4) l(2) by (simp add: trx_def)
qed

text \<open>The request stays in the queue and its thread is suspended.\<close>

lemma suspend_outcome:
  assumes thr: "may_request thr s" and s2: "lock_inv s2" "waiting_listed {thr_get_trx s thr} s2"
    "acyclic (waits_for_rel s2)" "env_frame s s2" "que_states s2 (thr_get_trx s thr) \<noteq> TRX_QUE_LOCK_WAIT"
    "wait_lock (ltrx_heap s2 (thr_get_trx s thr)) \<noteq> None"
  obtains s3 where "que_thr_stop thr (suspended (thr_get_trx s thr) s2) = (s3, True)"
    "request_outcome held (thr_get_trx s thr) s3 DB_LOCK_WAIT"
proof -
  have "thr_get_trx s2 thr = thr_get_trx s thr" using thr_get_trx_frame [OF s2(4)] .
  moreover have "fork_state (fork_heap s2 (thr_graph (thr_heap s2 thr))) \<noteq> QUE_FORK_COMMAND_WAIT"
    using s2(4) thr not_stopped(1) [of thr s] by (simp add: env_frame_def may_request_def)
  ultimately obtain s3 where "que_thr_stop thr (suspended (thr_get_trx s thr) s2) = (s3, True)" "lock_inv s3"
    "waiting_listed {} s3" "waits_for s3 = waits_for s2"
    "wait_lock (ltrx_heap s3 (thr_get_trx s thr)) = wait_lock (ltrx_heap s2 (thr_get_trx s thr))"
    "que_states s3 (thr_get_trx s thr) = TRX_QUE_LOCK_WAIT"
    using suspend_inv [OF s2(1,2) _ _ s2(5,6)] by blast
  then show thesis using that s2(3,6) by (simp add: request_outcome_def full_inv_def waits_for_rel_def)
qed

lemma rec_request_waits:
  fixes tm :: lock_type_t and index :: nat
  assumes blk: "block_ok block h" "unat (tm AND LOCK_MODE_MASK) < 4"
    and blocked: "r \<in> set (page_queue s (b_page_id block))" "rec_is_nth_bit_set (lock_heap s r) h"
      "rec_blocks (lock_heap s r) trx tm (h = PAGE_HEAP_NO_SUPREMUM)"
  defines "l \<equiv> new_rec_lock (b_page_id block) (tm OR LOCK_WAIT) h (b_n_heap block) index trx"
  shows "\<exists>r\<in>set (queue_of s (Inl (b_page_id block))). request_waits (Inl (b_page_id block)) l (lock_heap s r)"
proof -
  have bounds: "h < b_n_heap block" "b_n_heap block < 2 ^ 32" using blk(1) by (auto simp: block_ok_def)
  have mode: "(tm OR LOCK_WAIT) AND LOCK_MODE_MASK = tm AND LOCK_MODE_MASK" by (simp add: flag_simps)
  have bits: "bit (tm OR LOCK_WAIT) 9 = bit tm 9" "bit (tm OR LOCK_WAIT) 11 = bit tm 11"
    by (simp_all add: bit_simps flag_simps)
  note l = new_rec_lock_facts [OF bounds, of "tm OR LOCK_WAIT" "b_page_id block" index trx, folded l_def, unfolded mode, OF blk(2)]
  have "rec_blocks (lock_heap s r) trx (precise_mode l) (h = PAGE_HEAP_NO_SUPREMUM)"
    by (rule rec_blocks_mono [OF blocked(3)])
       (use l(7,9,11) bits in \<open>auto simp: precise_mode_def lock_mode_def lock_flag_bits\<close>)
  then have "has_to_wait_for l (lock_heap s r) h"
    using l(1,5) by (auto simp: has_to_wait_for_def rec_ok_def precise_mode_def lock_mode_def rec_blocks_def
        and.commute [of LOCK_MODE_MASK] split: if_splits)
  then show ?thesis using blocked(1,2) l(4) by (auto simp: queue_of_def request_waits_def rec_waits_def)
qed

lemma rec_enqueue_waiting_total:
  fixes tm :: lock_type_t
  assumes inv: "full_inv s" and thr: "may_request thr s" and blk: "block_ok block h" "unat (tm AND LOCK_MODE_MASK) < 4"
    and blocked: "r \<in> set (page_queue s (b_page_id block))" "rec_is_nth_bit_set (lock_heap s r) h"
      "rec_blocks (lock_heap s r) (thr_get_trx s thr) tm (h = PAGE_HEAP_NO_SUPREMUM)"
  shows "\<exists>s' e. rec_enqueue_waiting tm block h index thr s = Some (s', e)
    \<and> request_outcome (\<lambda>s'. \<exists>p. holds_lock s' (b_page_id block) tm h (thr_get_trx s thr) p) (thr_get_trx s thr) s' e"
proof -
  define trx where "trx = thr_get_trx s thr"
  define pg where "pg = b_page_id block"
  define tm' where "tm' = tm OR LOCK_WAIT"
  define p where "p = next_lock s"
  define l where "l = new_rec_lock pg tm' h (b_n_heap block) index trx"
  define s1 where "s1 = fst (rec_create tm' block h index trx s)"
  have bounds: "h < b_n_heap block" "b_n_heap block < 2 ^ 32" using blk(1) by (auto simp: block_ok_def)
  have mode: "tm' AND LOCK_MODE_MASK = tm AND LOCK_MODE_MASK" by (simp add: tm'_def flag_simps)
  have bits: "bit tm' 8" "bit tm' 9 = bit tm 9" "bit tm' 10 = bit tm 10" "bit tm' 11 = bit tm 11"
    by (simp_all add: tm'_def bit_simps flag_simps)
  have modelt: "unat (tm' AND LOCK_MODE_MASK) < 4" using blk(2) mode by simp
  note l = new_rec_lock_facts [OF bounds modelt, of pg index trx, folded l_def]
  have app: "appended (Inl pg) l s s1" unfolding l_def s1_def pg_def by (rule rec_create_appended(2) [OF blk(1) modelt])
  have create: "rec_create tm' block h index trx s = (s1, p)"
    using rec_create_appended(1) [OF blk(1) modelt, of index trx s] by (simp add: s1_def p_def prod_eq_iff)
  have "request_fits (Inl pg) l" "is_waiting l" "m_trx l = thr_get_trx s thr"
    using l bits(1) by (simp_all add: request_fits_def trx_def)
  then obtain s2 b V where s2: "deadlock_occurs p trx s1 = Some (s2, b)" "lock_inv s2" "evolved V s1 s2" "p \<notin> V"
    "waiting_listed {trx} s2" "\<And>t u. waits_for s2 t u \<Longrightarrow> t \<noteq> trx \<Longrightarrow> waits_for s t u"
    "\<not> b \<Longrightarrow> acyclic (waits_for_rel s2)" "env_frame s s2" "que_states s2 trx \<noteq> TRX_QUE_LOCK_WAIT"
    "wait_lock (ltrx_heap s2 trx) \<in> {None, Some p}" "queued s2 p" "m_trx (lock_heap s2 p) = trx"
    using waiting_request_search [OF inv thr app] rec_request_waits [OF blk blocked, of index]
    unfolding l_def pg_def tm'_def trx_def p_def by (metis (no_types, lifting))
  have p2: "page_queue s2 pg = filter (\<lambda>r. r \<notin> V) (page_queue s pg) @ [p]"
    using s2(3,4) app by (simp add: evolved_def appended_def p_def)
  have heap1: "lock_heap s1 p = l" using app by (simp add: appended_def p_def)
  have p2_bits: "rec_is_nth_bit_set (lock_heap s2 p) j \<longleftrightarrow> j = h" for j
    using evolved_lock_fields(5) [OF s2(3)] heap1 l(4) by simp
  have req: "\<not> snd (que_thr_stop thr s)" using thr by (simp add: may_request_def)
  note unfold = rec_enqueue_waiting_def [of tm block h index thr s] Let_def trx_def [symmetric] tm'_def [symmetric] create
  consider (deadlock) b | (granted) "\<not> b" "wait_lock (ltrx_heap s2 trx) = None"
    | (wait) "\<not> b" "wait_lock (ltrx_heap s2 trx) \<noteq> None" by blast
  then show ?thesis
  proof cases
    case deadlock
    define s3 where "s3 = upd_lock p (rec_reset_nth_bit h) (lock_reset p s2)"
    note wd = withdraw_last [OF s2(2) p2 p2_bits _ _, folded s3_def]
    have wd1: "lock_inv s3" "wait_lock (ltrx_heap s3 t) = (if t = trx then None else wait_lock (ltrx_heap s2 t))"
      "env_frame s2 s3" "que_states s3 = que_states s2" for t
      using wd(1-4) s2(9,10,12) by simp_all
    have "waits_for s t u" if "waits_for s3 t u" for t u
    proof -
      have "t \<noteq> trx" using that wd1(2) by (auto simp: waits_for_def)
      then show ?thesis using wd(5) [OF _ _ that] s2(6,9,10,12) by simp
    qed
    then have "acyclic (waits_for_rel s3)" using acyclic_subset_waits inv by (metis full_inv_def)
    moreover have "waiting_listed {} s3"
      using s2(5) wd1(2-4) by (auto simp: waiting_listed_def env_frame_def)
    ultimately have "full_inv s3" using wd1(1) by (simp add: full_inv_def)
    then show ?thesis using s2(1) deadlock wd1(2) req by (auto simp: unfold request_outcome_def s3_def)
  next
    case granted
    have gr: "granted (lock_heap s2 p)" using s2(2,11,12) granted(2) by (auto simp: lock_inv_def wf_wait_def)
    have "lock_heap s2 p = l \<or> lock_heap s2 p = clear_wait l" using s2(3) heap1 by (auto simp: evolved_def)
    then have "holds_lock s2 pg tm h trx p"
      using gr p2 p2_bits s2(12) l(7,9-11) mode bits by (auto simp: holds_lock_def Let_def)
    moreover have "full_inv s2" using s2(2,7) granted waiting_listed_drop [OF s2(5)] by (simp add: full_inv_def)
    ultimately show ?thesis using s2(1) granted req
      by (auto simp: unfold request_outcome_def pg_def [symmetric])
  next
    case wait
    obtain s3 where "que_thr_stop thr (suspended trx s2) = (s3, True)"
      "request_outcome (\<lambda>s'. \<exists>p. holds_lock s' (b_page_id block) tm h trx p) trx s3 DB_LOCK_WAIT"
      using suspend_outcome [OF thr] s2(2,5,7-9) wait unfolding trx_def by metis
    then show ?thesis using s2(1) wait req by (auto simp: unfold suspended_def [symmetric])
  qed
qed


section \<open>Record lock requests\<close>

lemma mode_stronger_refl: "unat m < 4 \<Longrightarrow> mode_stronger_or_eq m m"
  using mode_cases [of m]
  by (auto simp: mode_stronger_or_eq_def Lock_strength_matrix_def lock_flag_defs)

lemma holds_lock_expl:
  fixes tm :: lock_type_t
  assumes "holds_lock s pg tm h trx p" "unat (tm AND LOCK_MODE_MASK) < 4" "\<not> bit tm 11"
  shows "rec_has_expl s pg tm h trx \<noteq> None"
  unfolding rec_has_expl_def find_None_iff not_not
  by (rule exI [of _ p]) (use assms mode_stronger_refl in \<open>auto simp: holds_lock_def flag_bit_iff Let_def\<close>)

definition rec_mode_ok :: "lock_type_t \<Rightarrow> bool" where
  "rec_mode_ok mode \<longleftrightarrow> unat (mode AND LOCK_MODE_MASK) < 4 \<and> \<not> bit mode 8 \<and> \<not> bit mode 11"

lemma success_outcome:
  "full_inv s \<Longrightarrow> may_request thr s \<Longrightarrow> added s s' \<Longrightarrow> held s' \<Longrightarrow> request_outcome held (thr_get_trx s thr) s' DB_SUCCESS"
  using added_full_inv by (simp add: request_outcome_def added_def may_request_def)

lemma added_refl: "lock_inv s \<Longrightarrow> added s s"
  by (simp add: added_def)

text \<open>
  What a granted request gives its transaction: a lock as strong as the one requested or, when the
  transaction relies on an implicit lock, a record no other transaction's request conflicts with.
\<close>

definition rec_secured :: "bool \<Rightarrow> lock_sys \<Rightarrow> page_id \<Rightarrow> lock_type_t \<Rightarrow> nat \<Rightarrow> ltrx_ptr \<Rightarrow> bool" where
  "rec_secured impl s pg mode h trx \<longleftrightarrow>
     rec_has_expl s pg mode h trx \<noteq> None \<or> impl \<and> rec_other_has_conflicting s pg mode h trx = None"

lemma rec_lock_fast_total:
  assumes inv: "full_inv s" and thr: "may_request thr s" and blk: "block_ok block h" "rec_mode_ok mode"
    and fast: "rec_lock_fast impl mode block h index thr s = (s', True)"
  shows "added s s' \<and> (\<not> impl \<longrightarrow> (\<exists>p. holds_lock s' (b_page_id block) mode h (thr_get_trx s thr) p))
    \<and> (impl \<longrightarrow> rec_other_has_conflicting s' (b_page_id block) mode h (thr_get_trx s thr) = None)"
proof -
  let ?pg = "b_page_id block" and ?trx = "thr_get_trx s thr"
  have linv: "lock_inv s" using inv by (simp add: full_inv_def)
  have wf: "wf_locks s" using linv by (simp add: lock_inv_def)
  have mode: "unat (mode AND LOCK_MODE_MASK) < 4" "\<not> bit mode 8" "\<not> bit mode 11" using blk(2) by (auto simp: rec_mode_ok_def)
  show ?thesis
  proof (cases "rec_locks s ?pg")
    case None
    then have "no_conflict s ?pg mode h ?trx" "rec_other_has_conflicting s ?pg mode h ?trx = None"
      by (simp_all add: no_conflict_def rec_other_has_conflicting_def page_queue_def)
    then show ?thesis using fast None create_granted [OF linv blk(1) mode(1,2), of ?trx index] added_refl [OF linv]
      by (auto simp: rec_lock_fast_def Let_def split: if_splits)
  next
    case (Some q)
    have q: "q \<noteq> []" "page_queue s ?pg = q" using wf Some by (auto simp: wf_locks_def page_queue_def)
    define p where "p = hd q"
    have one: "q = [p]" and own: "m_trx (lock_heap s p) = ?trx" "m_type_mode (lock_heap s p) = mode OR LOCK_REC"
      "h < m_n_bits (lock_heap s p)"
      and s': "s' = (if \<not> impl \<and> \<not> rec_is_nth_bit_set (lock_heap s p) h then upd_lock p (rec_set_nth_bit h) s else s)"
      using fast Some q(1) by (cases q; auto simp: rec_lock_fast_def Let_def p_def rec_get_n_bits_def split: if_splits)+
    have p: "p \<in> set (page_queue s ?pg)" using one q(2) by simp
    have flags: "granted (lock_heap s p)" "rec_is_gap (lock_heap s p) = bit mode 9" "rec_is_not_gap (lock_heap s p) = bit mode 10"
      "rec_is_insert_intention (lock_heap s p) = bit mode 11" "lock_mode (lock_heap s p) = mode AND LOCK_MODE_MASK"
      using own(2) mode(2) by (simp_all add: lock_flag_bits lock_mode_def bit_simps flag_simps)
    have alone: "rec_other_has_conflicting s ?pg mode h ?trx = None"
      using one q(2) own(1) by (simp add: rec_other_has_conflicting_def rec_blocks_def)
    show ?thesis
    proof (cases "\<not> impl \<and> \<not> rec_is_nth_bit_set (lock_heap s p) h")
      case True
      have "no_conflict s ?pg mode h ?trx" using one q(2) own(1) by (simp add: no_conflict_def)
      moreover have "\<not> is_waiting (lock_heap s r)" if "r \<in> set (page_queue s ?pg)" for r
        using that one q(2) flags(1) by simp
      ultimately show ?thesis
        using set_bit_granted [OF linv p own(1,3), of mode] flags mode s' True by auto
    next
      case False
      then show ?thesis using s' added_refl [OF linv] p own flags alone
        by (auto simp: holds_lock_def Let_def)
    qed
  qed
qed

lemma rec_lock_fast_unchanged:
  "rec_lock_fast impl mode block h index thr s = (s', False) \<Longrightarrow> s' = s"
  by (auto simp: rec_lock_fast_def Let_def split: option.splits if_splits)

lemma rec_lock_total:
  assumes inv: "full_inv s" and thr: "may_request thr s" and blk: "block_ok block h" "rec_mode_ok mode"
  shows "\<exists>s' e. rec_lock impl mode block h index thr s = Some (s', e)
    \<and> request_outcome (\<lambda>s'. rec_secured impl s' (b_page_id block) mode h (thr_get_trx s thr))
        (thr_get_trx s thr) s' e"
proof -
  let ?pg = "b_page_id block" and ?trx = "thr_get_trx s thr"
  have linv: "lock_inv s" and wf: "wf_locks s" using inv by (simp_all add: full_inv_def lock_inv_def)
  have mode: "unat (mode AND LOCK_MODE_MASK) < 4" "\<not> bit mode 8" "\<not> bit mode 11" using blk(2) by (auto simp: rec_mode_ok_def)
  have expl: "holds_lock s' ?pg mode h ?trx p \<Longrightarrow> rec_secured impl s' ?pg mode h ?trx" for s' p
    using holds_lock_expl mode unfolding rec_secured_def by blast
  obtain s1 ok where fast: "rec_lock_fast impl mode block h index thr s = (s1, ok)" by fastforce
  show ?thesis
  proof (cases ok)
    case True
    then show ?thesis
      using rec_lock_fast_total [OF inv thr blk, of impl index s1] fast success_outcome [OF inv thr, of s1] expl
      unfolding rec_lock_def rec_secured_def by (cases impl) auto
  next
    case False
    then have "s1 = s" using fast rec_lock_fast_unchanged by simp
    then have slow: "rec_lock impl mode block h index thr s = rec_lock_slow impl mode block h index thr s"
      using fast False by (simp add: rec_lock_def)
    consider (has) "rec_has_expl s ?pg mode h ?trx \<noteq> None"
      | (conflict) "rec_has_expl s ?pg mode h ?trx = None" "rec_other_has_conflicting s ?pg mode h ?trx \<noteq> None"
      | (free) "rec_has_expl s ?pg mode h ?trx = None" "rec_other_has_conflicting s ?pg mode h ?trx = None" by blast
    then show ?thesis
    proof cases
      case has
      then show ?thesis using success_outcome [OF inv thr added_refl [OF linv]]
        by (auto simp: slow rec_lock_slow_def Let_def rec_secured_def)
    next
      case conflict
      then obtain r where "r \<in> set (page_queue s ?pg)" "rec_is_nth_bit_set (lock_heap s r) h"
        "rec_blocks (lock_heap s r) ?trx mode (h = PAGE_HEAP_NO_SUPREMUM)"
        by (auto simp: rec_other_has_conflicting_def dest: find_SomeD)
      from rec_enqueue_waiting_total [OF inv thr blk(1) mode(1) this, of index] show ?thesis
        using conflict expl by (fastforce simp: slow rec_lock_slow_def Let_def request_outcome_def)
    next
      case free
      have "no_conflict s ?pg (LOCK_REC OR mode) h ?trx"
        using no_conflicting_free [OF wf mode(1) free(2)]
        by (simp add: no_conflict_def or.commute [of LOCK_REC] flag_simps bit_simps)
      then have add: "added s (fst (rec_add_to_queue (LOCK_REC OR mode) block h index ?trx s))
        \<and> holds_lock (fst (rec_add_to_queue (LOCK_REC OR mode) block h index ?trx s)) ?pg (LOCK_REC OR mode) h ?trx
            (snd (rec_add_to_queue (LOCK_REC OR mode) block h index ?trx s))"
        by (intro rec_add_granted [OF linv blk(1)])
           (use mode in \<open>simp_all add: or.commute [of LOCK_REC] flag_simps bit_simps\<close>)
      then have "holds_lock (fst (rec_add_to_queue (LOCK_REC OR mode) block h index ?trx s)) ?pg mode h ?trx
            (snd (rec_add_to_queue (LOCK_REC OR mode) block h index ?trx s))"
        by (simp add: holds_lock_def Let_def or.commute [of LOCK_REC] flag_simps bit_simps)
      then show ?thesis using free add expl success_outcome [OF inv thr] added_refl [OF linv]
        by (auto simp: slow rec_lock_slow_def Let_def rec_secured_def)
    qed
  qed
qed

end
