(* ===== verification/Lock_Table.thy ===== *)
theory Lock_Table
  imports Lock_Request
begin

text \<open>Table lock requests (\<^verbatim>\<open>Lock_sys::lock_table\<close>) keep the invariant and end as they should.\<close>

lemma table_mode_word:
  fixes mode :: lock_type_t
  assumes "unat mode < 4"
  shows "(mode OR LOCK_TABLE) AND LOCK_TYPE_MASK = LOCK_TABLE" "(mode OR LOCK_TABLE) AND LOCK_MODE_MASK = mode"
    "\<not> bit (mode OR LOCK_TABLE) 8" "((mode OR LOCK_WAIT) OR LOCK_TABLE) AND LOCK_TYPE_MASK = LOCK_TABLE"
    "((mode OR LOCK_WAIT) OR LOCK_TABLE) AND LOCK_MODE_MASK = mode" "bit ((mode OR LOCK_WAIT) OR LOCK_TABLE) 8"
    "mode AND LOCK_WAIT = 0" "(mode OR LOCK_WAIT) AND LOCK_WAIT \<noteq> 0"
  using mode_cases [OF assms] by (auto simp: lock_flag_defs)

definition new_table_lock :: "table_ptr \<Rightarrow> lock_type_t \<Rightarrow> ltrx_ptr \<Rightarrow> lock_t" where
  "new_table_lock table tm trx = \<lparr>m_trx = trx, m_type_mode = tm OR LOCK_TABLE, m_object = table,
     m_page_id = Page_id 0 0, m_n_bits = 0, m_bitmap = []\<rparr>"

lemma new_table_lock_facts:
  fixes mode :: lock_type_t
  assumes "unat mode < 4"
  shows "table_ok (new_table_lock table mode trx)" "granted (new_table_lock table mode trx)"
    "lock_mode (new_table_lock table mode trx) = mode"
    "table_ok (new_table_lock table (mode OR LOCK_WAIT) trx)" "is_waiting (new_table_lock table (mode OR LOCK_WAIT) trx)"
    "lock_mode (new_table_lock table (mode OR LOCK_WAIT) trx) = mode"
  using assms table_mode_word [OF assms]
  by (simp_all add: table_ok_def new_table_lock_def lock_type_def lock_mode_def lock_flag_bits)

lemma new_table_lock_fields [simp]:
  "m_trx (new_table_lock table tm trx) = trx" "m_object (new_table_lock table tm trx) = table"
  by (simp_all add: new_table_lock_def)

lemma table_create_appended:
  fixes tm :: lock_type_t
  assumes "tm = mode \<or> tm = mode OR LOCK_WAIT" "unat mode < 4"
  shows "snd (table_create table tm trx s) = next_lock s"
    "appended (Inr table) (new_table_lock table tm trx) s (fst (table_create table tm trx s))"
proof -
  let ?l = "new_table_lock table tm trx"
  show "snd (table_create table tm trx s) = next_lock s" by (simp add: table_create_def Let_def)
  have waiting: "tm AND LOCK_WAIT \<noteq> 0 \<longleftrightarrow> is_waiting ?l"
    using assms new_table_lock_facts(2,5) [OF assms(2)] table_mode_word(7,8) [OF assms(2)] by auto
  have absorb: "m_type_mode ?l OR LOCK_WAIT = m_type_mode ?l" if "is_waiting ?l"
    using that by (simp add: or_wait_absorb lock_flag_bits)
  have "lock_heap (fst (table_create table tm trx s)) = (lock_heap s)(next_lock s := ?l)"
    using waiting absorb
    by (auto simp: table_create_def Let_def set_trx_wait_def new_table_lock_def fun_eq_iff)
  then show "appended (Inr table) ?l s (fst (table_create table tm trx s))"
    using waiting
    by (auto simp: appended_def table_create_def Let_def set_trx_wait_def env_frame_def que_states_def page_queue_def)
qed

lemma clear_wait_granted: "granted l \<Longrightarrow> clear_wait l = l"
proof -
  assume "granted l"
  then have "\<not> bit (m_type_mode l) 8" by (simp add: lock_flag_bits)
  then have "m_type_mode l AND NOT LOCK_WAIT = m_type_mode l"
    by (intro bit_eqI) (auto simp: bit_and_iff bit_not_iff flag_simps dest: bit_imp_le_length)
  then show ?thesis by (simp add: clear_wait_def)
qed

text \<open>Taking the last request out of a table's queue.\<close>

lemma withdraw_table:
  assumes inv: "lock_inv s" and q: "table_locks s tb = xs @ [p]"
    and que: "que_states s (m_trx (lock_heap s p)) \<noteq> TRX_QUE_LOCK_WAIT"
    and w: "wait_lock (ltrx_heap s (m_trx (lock_heap s p))) \<in> {None, Some p}"
  defines "s' \<equiv> lock_reset p (table_remove_low p s)"
  shows "lock_inv s'" "evolved {p} s s'" "wait_lock (ltrx_heap s' (m_trx (lock_heap s p))) = None"
proof -
  let ?s2 = "table_remove_low p s"
  let ?t = "m_trx (lock_heap s p)"
  have wf: "wf_locks s" "wf_wait {} s" "wf_que s" "wf_thrs s" "queues_safe s" "queues_live s"
    using inv by (auto simp: lock_inv_def)
  have p: "p \<in> set (table_locks s tb)" by (simp add: q)
  note mem = wf_table_member [OF wf(1) p]
  note rem = table_remove_removed [OF wf(1) p]
  have "distinct (xs @ [p])" using wf(1) q unfolding wf_locks_def by metis
  then have dist: "p \<notin> set xs" by simp
  have heap2: "lock_heap ?s2 = lock_heap s" using rem by (simp add: removed_def)
  have unq: "\<not> queued ?s2 p" using removed_queued [OF wf(1) rem] by blast
  have live2: "queues_live ?s2"
  proof -
    have "table_locks ?s2 tb = xs" using rem q dist by (simp add: removed_def remove1_append)
    moreover have "queue_live table_waits granted (map (lock_heap s) xs)"
      using wf(6) q by (metis queues_live_def tbl_locks_def map_append queue_live_from_append)
    moreover have "table_locks ?s2 tb' = table_locks s tb'" if "tb' \<noteq> tb" for tb'
      using that mem(2) by (simp add: table_remove_low_def Let_def)
    moreover have "page_queue ?s2 pg = page_queue s pg" for pg by (simp add: table_remove_low_def page_queue_def Let_def)
    ultimately show ?thesis using wf(6) heap2 unfolding queues_live_def page_locks_def tbl_locks_def by metis
  qed
  have inv2: "wf_locks ?s2" "wf_wait {p} ?s2" "queues_safe ?s2"
    using removed_wf_locks [OF wf(1) rem] removed_wf_wait [OF wf(1) rem wf(2)] removed_safe [OF rem wf(5)] .
  note reset = lock_reset_unqueued [OF inv2 live2 unq]
  have wl2: "wait_lock (ltrx_heap ?s2 t) = wait_lock (ltrx_heap s t)" "que_states ?s2 t = que_states s t" for t
    using rem by (simp_all add: removed_def)
  have wl: "wait_lock (ltrx_heap s' t) = (if t = ?t then None else wait_lock (ltrx_heap s t))" for t
    by (simp add: s'_def heap2 wl2)
  then show "wait_lock (ltrx_heap s' ?t) = None" by simp
  have wait': "wf_wait {} s'"
  proof (cases "wait_lock (ltrx_heap s ?t) = Some p")
    case True
    then show ?thesis using reset(4) wl2(1) heap2 by (simp add: s'_def)
  next
    case False
    then have none: "wait_lock (ltrx_heap s ?t) = None" using w by simp
    then have "granted (lock_heap s p)" using wf(2) mem(4) by (auto simp: wf_wait_def)
    then have "wf_wait {} ?s2" "clear_wait (lock_heap s p) = lock_heap s p"
      using wf_wait_drop [OF inv2(2)] heap2 clear_wait_granted by simp_all
    moreover have "lock_frame ?s2 s'"
      using none wl2(1) heap2 calculation(2) by (auto simp: lock_frame_def s'_def lock_reset_heap)
    ultimately show ?thesis using lock_frame_inv(2) by blast
  qed
  have que': "que_states s' t = que_states s t" for t
    using wl2(2) [of t] by (auto simp: s'_def que_states_def)
  have "wf_que s'" using wf(3) que que' unfolding wf_que_def wl by (metis que_states_def)
  moreover have "wf_thrs s'"
    unfolding s'_def wf_thrs_lock_reset using wf(4)
    by (subst wf_thrs_cong [of _ s]) (auto simp: table_remove_low_def Let_def)
  ultimately show "lock_inv s'" using reset(1-3) wait' by (simp add: lock_inv_def s'_def)
  have "page_queue s' pg = page_queue ?s2 pg" "table_locks s' = table_locks ?s2"
    "trx_locks (ltrx_heap s' t) = trx_locks (ltrx_heap ?s2 t)" for pg t by (simp_all add: s'_def page_queue_def)
  moreover have "env_frame s s'" using rem env_frame_trans env_frame_lock_reset unfolding s'_def removed_def by blast
  ultimately have "shrunk p s s'"
    using rem que' wl by (simp add: shrunk_def removed_def) (simp add: s'_def lock_reset_heap heap2)
  then show "evolved {p} s s'" by (rule shrunk_evolved [OF wf(1)])
qed

definition holds_table_lock :: "lock_sys \<Rightarrow> table_ptr \<Rightarrow> lock_type_t \<Rightarrow> ltrx_ptr \<Rightarrow> bool" where
  "holds_table_lock s table mode trx \<longleftrightarrow>
     (\<exists>p\<in>set (table_locks s table). granted (lock_heap s p) \<and> m_trx (lock_heap s p) = trx
        \<and> mode_stronger_or_eq (lock_mode (lock_heap s p)) mode)"

lemma table_enqueue_waiting_total:
  fixes mode :: lock_type_t
  assumes inv: "full_inv s" and thr: "may_request thr s" and mode: "unat mode < 4"
    and r: "r \<in> set (table_locks s table)" "m_trx (lock_heap s r) \<noteq> thr_get_trx s thr"
      "\<not> mode_compatible (lock_mode (lock_heap s r)) mode"
  shows "\<exists>s' e. table_enqueue_waiting mode table thr s = Some (s', e)
    \<and> request_outcome (\<lambda>s'. holds_table_lock s' table mode (thr_get_trx s thr)) (thr_get_trx s thr) s' e"
proof -
  define trx where "trx = thr_get_trx s thr"
  define p where "p = next_lock s"
  define l where "l = new_table_lock table (mode OR LOCK_WAIT) trx"
  define s1 where "s1 = fst (table_create table (mode OR LOCK_WAIT) trx s)"
  have wf: "wf_locks s" using inv by (simp add: full_inv_def lock_inv_def)
  note l = new_table_lock_facts(4-6) [OF mode, of table trx, folded l_def]
  have app: "appended (Inr table) l s s1"
    unfolding l_def s1_def by (rule table_create_appended(2) [of _ mode]) (use mode in simp_all)
  have create: "table_create table (mode OR LOCK_WAIT) trx s = (s1, p)"
    using table_create_appended(1) [of "mode OR LOCK_WAIT" mode table trx s] mode by (simp add: s1_def p_def prod_eq_iff)
  have "unat (lock_mode (lock_heap s r)) < 4" using wf_table_member(3) [OF wf r(1)] by (simp add: table_ok_def)
  then have "\<not> mode_compatible mode (lock_mode (lock_heap s r))" using r(3) mode_compatible_sym mode by blast
  then have "table_waits l (lock_heap s r)"
    using l r(2) by (auto simp: table_waits_def has_to_wait_for_def table_ok_def l_def trx_def lock_flag_defs)
  then have waits: "\<exists>r\<in>set (queue_of s (Inr table)). request_waits (Inr table) l (lock_heap s r)"
    using r(1) by (auto simp: queue_of_def request_waits_def)
  have "request_fits (Inr table) l" "m_trx l = thr_get_trx s thr" using l by (simp_all add: request_fits_def l_def trx_def)
  then obtain s2 b V where s2: "deadlock_occurs p trx s1 = Some (s2, b)" "lock_inv s2" "evolved V s1 s2" "p \<notin> V"
    "waiting_listed {trx} s2" "\<And>t u. waits_for s2 t u \<Longrightarrow> t \<noteq> trx \<Longrightarrow> waits_for s t u"
    "\<not> b \<Longrightarrow> acyclic (waits_for_rel s2)" "env_frame s s2" "que_states s2 trx \<noteq> TRX_QUE_LOCK_WAIT"
    "wait_lock (ltrx_heap s2 trx) \<in> {None, Some p}" "queued s2 p" "m_trx (lock_heap s2 p) = trx"
    using waiting_request_search [OF inv thr app _ l(2) _ waits] unfolding trx_def p_def by metis
  have p2: "table_locks s2 table = filter (\<lambda>r. r \<notin> V) (table_locks s table) @ [p]"
    using s2(3,4) app by (simp add: evolved_def appended_def p_def)
  have req: "\<not> snd (que_thr_stop thr s)" using thr by (simp add: may_request_def)
  note unfold = table_enqueue_waiting_def [of mode table thr s] Let_def trx_def [symmetric] create
  consider (deadlock) b | (granted) "\<not> b" "wait_lock (ltrx_heap s2 trx) = None"
    | (wait) "\<not> b" "wait_lock (ltrx_heap s2 trx) \<noteq> None" by blast
  then show ?thesis
  proof cases
    case deadlock
    define s3 where "s3 = lock_reset p (table_remove_low p s2)"
    note wd = withdraw_table [OF s2(2) p2, folded s3_def, unfolded s2(12), OF s2(9,10)]
    have "waits_for s t u" if "waits_for s3 t u" for t u
    proof -
      have "t \<noteq> trx" using that wd(3) by (auto simp: waits_for_def)
      then show ?thesis using waits_for_evolved [OF wd(1,2) that] s2(6) by blast
    qed
    then have "acyclic (waits_for_rel s3)" using acyclic_subset_waits inv by (metis full_inv_def)
    moreover have "waiting_listed {} s3"
      using waiting_listed_drop [OF waiting_listed_evolved [OF wd(2) s2(5)] wd(3)] .
    ultimately have "full_inv s3" using wd(1) by (simp add: full_inv_def)
    then show ?thesis using s2(1) deadlock wd(3) req by (auto simp: unfold request_outcome_def s3_def)
  next
    case granted
    have "granted (lock_heap s2 p)" using s2(2,11,12) granted(2) by (auto simp: lock_inv_def wf_wait_def)
    moreover have "lock_heap s1 p = l" using app by (simp add: appended_def p_def)
    then have "lock_mode (lock_heap s2 p) = mode" using s2(3) l(3) unfolding evolved_def by (metis clear_wait_simps(6))
    ultimately have "holds_table_lock s2 table mode trx"
      using p2 s2(12) mode_stronger_refl [OF mode] by (auto simp: holds_table_lock_def)
    moreover have "full_inv s2" using s2(2,7) granted waiting_listed_drop [OF s2(5)] by (simp add: full_inv_def)
    ultimately show ?thesis using s2(1) granted req by (auto simp: unfold request_outcome_def)
  next
    case wait
    obtain s3 where "que_thr_stop thr (suspended trx s2) = (s3, True)"
      "request_outcome (\<lambda>s'. holds_table_lock s' table mode trx) trx s3 DB_LOCK_WAIT"
      using suspend_outcome [OF thr] s2(2,5,7-9) wait unfolding trx_def by metis
    then show ?thesis using s2(1) wait req by (auto simp: unfold suspended_def [symmetric])
  qed
qed

lemma lock_table_total:
  fixes mode :: lock_type_t
  assumes inv: "full_inv s" and thr: "may_request thr s" and mode: "unat mode < 4"
  shows "\<exists>s' e. lock_table 0 table mode thr s = Some (s', e)
    \<and> request_outcome (\<lambda>s'. holds_table_lock s' table mode (thr_get_trx s thr)) (thr_get_trx s thr) s' e"
proof -
  let ?trx = "thr_get_trx s thr"
  have linv: "lock_inv s" and wf: "wf_locks s" "wf_wait {} s" using inv by (simp_all add: full_inv_def lock_inv_def)
  have eq: "lock_table 0 table mode thr s =
      (if table_has s ?trx table mode \<noteq> None then Some (s, DB_SUCCESS)
       else if table_other_has_incompatible s ?trx LOCK_WAIT table mode \<noteq> None
       then table_enqueue_waiting mode table thr s
       else Some (fst (table_create table mode ?trx s), DB_SUCCESS))"
    by (simp add: lock_table_def BTR_NO_LOCKING_FLAG_def Let_def)
  consider (has) "table_has s ?trx table mode \<noteq> None"
    | (conflict) "table_has s ?trx table mode = None" "table_other_has_incompatible s ?trx LOCK_WAIT table mode \<noteq> None"
    | (free) "table_has s ?trx table mode = None" "table_other_has_incompatible s ?trx LOCK_WAIT table mode = None" by blast
  then show ?thesis
  proof cases
    case has
    then obtain p where p: "p \<in> set (table_locks s table)" "m_trx (lock_heap s p) = ?trx"
      "mode_stronger_or_eq (lock_mode (lock_heap s p)) mode" by (auto simp: table_has_def dest: find_SomeD)
    then have "granted (lock_heap s p)"
      using thr wf(2) wf_table_member(4) [OF wf(1) p(1)] p(2) unfolding may_request_def wf_wait_def
      by (metis option.distinct(1))
    then have "holds_table_lock s table mode ?trx" using p by (auto simp: holds_table_lock_def)
    then show ?thesis using has success_outcome [OF inv thr added_refl [OF linv]] by (auto simp: eq)
  next
    case conflict
    then obtain r where "r \<in> set (table_locks s table)" "m_trx (lock_heap s r) \<noteq> ?trx"
      "\<not> mode_compatible (lock_mode (lock_heap s r)) mode"
      by (auto simp: table_other_has_incompatible_def dest: find_SomeD)
    from table_enqueue_waiting_total [OF inv thr mode this] show ?thesis using conflict by (simp add: eq)
  next
    case free
    define l where "l = new_table_lock table mode ?trx"
    define s' where "s' = fst (table_create table mode ?trx s)"
    note l = new_table_lock_facts(1-3) [OF mode, of table ?trx, folded l_def]
    have app: "appended (Inr table) l s s'"
      unfolding l_def s'_def by (rule table_create_appended(2) [of _ mode]) (use mode in simp_all)
    have nc: "\<not> request_conflicts (Inr table) (lock_heap s r) l" if "r \<in> set (queue_of s (Inr table))" for r
      using that free(2) l(3) unfolding table_other_has_incompatible_def find_None_iff
      by (auto simp: queue_of_def request_conflicts_def table_conflict_def l_def lock_flag_defs)
    have "lock_inv s'" by (rule appended_inv [OF app linv]) (use l nc in \<open>auto simp: request_fits_def l_def\<close>)
    moreover have "waits_for s t u" if "waits_for s' t u" for t u
      using appended_waits_for [OF app linv that] l(2) by blast
    ultimately have "added s s'" using app l(2) by (auto simp: added_def appended_def)
    moreover have "holds_table_lock s' table mode ?trx"
      using app l mode_stronger_refl [OF mode] by (auto simp: holds_table_lock_def appended_def l_def)
    ultimately show ?thesis using free success_outcome [OF inv thr] by (auto simp: eq s'_def)
  qed
qed

end
