(* ===== verification/Lock_Release.thy ===== *)
theory Lock_Release
  imports Lock_Table
begin

text \<open>
  Releasing all locks of a transaction, unlocking a single record, inheriting gap locks when
  records are inserted or removed, and releasing the waiters of a removed record.
\<close>

section \<open>Steps that only shrink the queues\<close>

lemma evolved_full_inv:
  assumes "full_inv s" "lock_inv s'" "evolved V s s'"
  shows "full_inv s'"
  using assms acyclic_subset_waits waits_for_evolved waiting_listed_evolved unfolding full_inv_def by metis

lemma grants_evolved: "grants G s s' \<Longrightarrow> evolved {} s s'"
  by (simp add: evolved_def grants_page_queue) (simp add: grants_def)

section \<open>Releasing all locks of a transaction\<close>

lemma release_off_kernel_total:
  assumes "full_inv s" "wait_lock (ltrx_heap s t) = None"
  shows "\<exists>s' V. release_off_kernel t s = Some s' \<and> full_inv s' \<and> evolved V s s'
     \<and> V = {r. queued s r \<and> m_trx (lock_heap s r) = t}"
  using assms
proof (induction "length (trx_locks (ltrx_heap s t))" arbitrary: s)
  case 0
  then have none: "trx_locks (ltrx_heap s t) = []" by simp
  have "m_trx (lock_heap s r) \<noteq> t" if "queued s r" for r
    using trx_locks_iff [of s r t] 0 none that by (simp add: full_inv_def lock_inv_def)
  then have empty: "{r. queued s r \<and> m_trx (lock_heap s r) = t} = {}" by blast
  show ?case unfolding empty using 0 none evolved_refl [of s] by (subst release_off_kernel.simps) auto
next
  case (Suc n)
  have linv: "lock_inv s" using Suc.prems(1) by (simp add: full_inv_def)
  have wf: "wf_locks s" using linv by (simp add: lock_inv_def)
  define p where "p = last (trx_locks (ltrx_heap s t))"
  have ne: "trx_locks (ltrx_heap s t) \<noteq> []" using Suc.hyps(2) by auto
  then have mem: "p \<in> set (trx_locks (ltrx_heap s t))" by (simp add: p_def)
  then have p: "queued s p" "m_trx (lock_heap s p) = t" using trx_locks_iff [OF wf] by blast+
  then have granted: "\<not> is_waiting (lock_heap s p)" using Suc.prems linv by (auto simp: lock_inv_def wf_wait_def)
  obtain s1 where s1: "lock_dequeue p s = Some s1" "dequeued p s s1"
    using lock_dequeue_total [OF linv p(1)] .
  have ev: "evolved {p} s s1" by (rule shrunk_evolved [OF wf dequeued_shrunk [OF s1(2)]])
  have inv1: "full_inv s1"
    by (rule evolved_full_inv [OF Suc.prems(1) dequeued_granted_inv [OF linv s1(2) granted] ev])
  have "wait_lock (ltrx_heap s1 t) = None" using ev Suc.prems(2) unfolding evolved_def by metis
  moreover have "n = length (trx_locks (ltrx_heap s1 t))"
    using Suc.hyps(2) mem dequeued_facts(3) [OF s1(2) wf] by (simp add: length_remove1)
  ultimately obtain s' where s': "release_off_kernel t s1 = Some s'" "full_inv s'"
    "evolved {r. queued s1 r \<and> m_trx (lock_heap s1 r) = t} s1 s'"
    using Suc.hyps(1) [of s1] inv1 by auto
  have "{p} \<union> {r. queued s1 r \<and> m_trx (lock_heap s1 r) = t} = {r. queued s r \<and> m_trx (lock_heap s r) = t}"
    using p evolved_queued [OF ev] evolved_lock_fields(1) [OF ev] by auto
  then have "evolved {r. queued s r \<and> m_trx (lock_heap s r) = t} s s'" using evolved_trans [OF ev s'(3)] by simp
  moreover have "release_off_kernel t s = Some s'"
    using s1(1) s'(1) ne by (subst release_off_kernel.simps) (simp add: p_def)
  ultimately show ?case using s'(2) by blast
qed

section \<open>Clearing a bit\<close>

lemma reset_bit_conflict:
  "wf_bitmap l \<Longrightarrow> rec_conflict h' a (rec_reset_nth_bit h l) \<Longrightarrow> rec_conflict h' a l"
  "wf_bitmap l \<Longrightarrow> rec_conflict h' (rec_reset_nth_bit h l) a \<Longrightarrow> rec_conflict h' l a"
  by (auto simp: rec_conflict_def rec_reset_nth_bit_iff lock_mode_def rec_is_gap_def rec_is_insert_intention_def)

lemma reset_bit_inv:
  fixes h :: nat
  assumes inv: "lock_inv s" and p: "p \<in> set (page_queue s pg)" "granted (lock_heap s p)"
  defines "s' \<equiv> upd_lock p (rec_reset_nth_bit h) s"
  shows "wf_locks s'" "wf_wait {} s'" "wf_que s'" "wf_thrs s'" "queues_safe s'"
    "\<And>pg'. pg' \<noteq> pg \<Longrightarrow> page_locks s' pg' = page_locks s pg'" "tbl_locks s' tb = tbl_locks s tb"
    "waits_for s' t u \<Longrightarrow> waits_for s t u"
proof -
  have wf: "wf_locks s" "wf_wait {} s" "wf_que s" "wf_thrs s" "queues_safe s" using inv by (auto simp: lock_inv_def)
  have okb: "wf_bitmap (lock_heap s p)" using wf_page_member(3) [OF wf(1) p(1)] by (simp add: rec_ok_def)
  have waiting: "is_waiting (lock_heap s' r) = is_waiting (lock_heap s r)" for r by (simp add: s'_def is_waiting_def)
  show "wf_locks s'" unfolding s'_def by (rule bits_upd_wf_locks [OF wf(1)]) simp_all
  show "wf_wait {} s'" using wf(2) p(2) by (auto simp: s'_def wf_wait_def is_waiting_def)
  show "wf_que s'" "wf_thrs s'" using wf by (simp_all add: s'_def)
  show tbl: "tbl_locks s' tb = tbl_locks s tb" for tb unfolding s'_def by (rule bits_upd_tbl [OF wf(1) p(1)])
  show "page_locks s' pg' = page_locks s pg'" if "pg' \<noteq> pg" for pg'
  proof -
    have "p \<notin> set (page_queue s pg')" using that wf_page_member(2) [OF wf(1)] p(1) by blast
    then show ?thesis by (auto simp: page_locks_def s'_def)
  qed
  have mono: "rec_conflicts (lock_heap s a) (lock_heap s b)" if "rec_conflicts (lock_heap s' a) (lock_heap s' b)" for a b
  proof (cases "m_trx (lock_heap s a) = m_trx (lock_heap s b)")
    case True
    then show ?thesis using that by (auto simp: rec_conflicts_def rec_conflict_def s'_def split: if_splits)
  next
    case False
    then have "a \<noteq> b" by auto
    from that obtain h' where c: "rec_conflict h' (lock_heap s' a) (lock_heap s' b)" by (auto simp: rec_conflicts_def)
    have "rec_conflict h' (lock_heap s a) (lock_heap s b)"
      using c \<open>a \<noteq> b\<close> reset_bit_conflict(1) [OF okb, of h' "lock_heap s a" h] reset_bit_conflict(2) [OF okb, of h' h "lock_heap s b"]
      by (auto simp: s'_def split: if_splits)
    then show ?thesis by (auto simp: rec_conflicts_def)
  qed
  have "queue_safe rec_conflicts granted (page_locks s' pg')" for pg'
    by (rule page_safe_mono [of s])
       (use wf(1,5) mono waiting in \<open>auto simp: queues_safe_def wf_locks_def s'_def simp del: upd_lock_fields(1)\<close>)
  then show "queues_safe s'" using wf(5) tbl by (simp add: queues_safe_def)
  assume "waits_for s' t u"
  then obtain w f where w: "wait_lock (ltrx_heap s t) = Some w"
    and f: "f \<in> set (locks_ahead s' w (wait_heap_no (lock_heap s' w)))"
      "has_to_wait_for (lock_heap s' w) (lock_heap s' f) (wait_heap_no (lock_heap s' w))"
      "m_trx (lock_heap s' f) = u" by (auto simp: waits_for_def s'_def)
  have "is_waiting (lock_heap s w)" using w wf(2) by (auto simp: wf_wait_def)
  then have wp: "lock_heap s' w = lock_heap s w" using p(2) by (auto simp: s'_def)
  have "f \<in> set (locks_ahead s w (wait_heap_no (lock_heap s w)))"
    using f(1) wp okb by (auto simp: locks_ahead_def s'_def rec_reset_nth_bit_iff split: if_splits)
  moreover have "has_to_wait_for (lock_heap s w) (lock_heap s f) (wait_heap_no (lock_heap s w))" "m_trx (lock_heap s f) = u"
    using f(2,3) wp has_to_wait_for_bits(2) by (auto simp: s'_def split: if_splits)
  ultimately show "waits_for s t u" using w by (auto simp: waits_for_def)
qed

section \<open>Unlocking a record\<close>

lemma rec_unlock_find_total:
  assumes "\<And>p. p \<in> set q \<Longrightarrow> m_trx (lock_heap s p) = t \<Longrightarrow> granted (lock_heap s p)"
  shows "\<exists>f. rec_unlock_find s t h mode found q = Some f
    \<and> (f = found \<or> (\<exists>p\<in>set q. f = Some p \<and> m_trx (lock_heap s p) = t))
    \<and> (f = None \<longrightarrow> found = None \<and> (\<forall>p\<in>set q. \<not> (rec_is_nth_bit_set (lock_heap s p) h
         \<and> m_trx (lock_heap s p) = t \<and> lock_mode (lock_heap s p) = mode)))"
  using assms
proof (induction q arbitrary: found)
  case (Cons p q)
  show ?case
    using Cons.IH [of found] Cons.IH [of "Some p"] Cons.prems by (auto simp: Let_def)
qed simp

lemma reset_bit_waits:
  assumes "wf_bitmap l" "rec_waits w l" "\<not> rec_is_nth_bit_set w h"
  shows "rec_waits w (rec_reset_nth_bit h l)"
proof -
  from assms(2) obtain k where k: "rec_is_nth_bit_set w k" "rec_is_nth_bit_set l k" "has_to_wait_for w l k"
    by (auto simp: rec_waits_def)
  then have "k \<noteq> h" using assms(3) by auto
  moreover have "has_to_wait_for w (rec_reset_nth_bit h l) k" using k(3) has_to_wait_for_bits by simp
  ultimately show ?thesis using k assms(1) by (auto simp: rec_waits_def rec_reset_nth_bit_iff)
qed

lemma unlock_grant_loop:
  fixes h :: nat
  assumes inv: "lock_inv s" and p: "p \<in> set (page_queue s pg)" "granted (lock_heap s p)"
  defines "s1 \<equiv> upd_lock p (rec_reset_nth_bit h) s"
    and "body \<equiv> \<lambda>r s. if rec_is_nth_bit_set (lock_heap s r) h \<and> is_waiting (lock_heap s r)
                \<and> \<not> rec_has_to_wait_in_queue s (page_queue s pg) r h then grant r s else Some s"
  shows "\<exists>s' G. queue_for body pg 0 s1 = Some s' \<and> grants G s1 s' \<and> wf_thrs s'
      \<and> G \<subseteq> {r \<in> set (page_queue s pg). is_waiting (lock_heap s1 r)}
      \<and> map (lock_heap s') (page_queue s pg)
          = grant_pass rec_waits granted clear_wait [] (map (lock_heap s1) (page_queue s pg))"
proof -
  let ?q = "page_queue s pg"
  have wf: "wf_locks s" "queues_live s" using inv by (auto simp: lock_inv_def)
  have okb: "wf_bitmap (lock_heap s p)" using wf_page_member(3) [OF wf(1) p(1)] by (simp add: rec_ok_def)
  note s1 = reset_bit_inv [OF inv p, where h = h, folded s1_def]
  have keep: "rec_locks s'' pg = rec_locks s' pg" if "body r s' = Some s''" for r s' s''
    using that grant_keeps_queues by (auto simp: body_def split: if_splits)
  have loc: "rec_locks s1 pg = Some ?q" using wf_page_member(6) [OF wf(1) p(1)] by (simp add: s1_def)
  let ?blocked = "\<lambda>s r. \<not> rec_is_nth_bit_set (lock_heap s r) h \<or> rec_has_to_wait_in_queue s (page_queue s pg) r h"
  have blocked: "?blocked s' r \<longleftrightarrow> (\<exists>a\<in>set xs. rec_waits (lock_heap s' r) (lock_heap s' a))"
    if g: "grants G s1 s'" and q: "[] @ ?q = xs @ r # ys" and w: "is_waiting (lock_heap s' r)" for G s' xs r ys
  proof -
    have r: "lock_heap s' r = lock_heap s1 r" "is_waiting (lock_heap s1 r)" using g w by (auto simp: grants_def split: if_splits)
    then have rs: "lock_heap s' r = lock_heap s r" "is_waiting (lock_heap s r)" using p(2) by (auto simp: s1_def is_waiting_def split: if_splits)
    have mem: "r \<in> set (page_queue s1 pg)" and dist: "r \<notin> set xs"
      using q wf(1) by (simp_all add: s1_def wf_locks_def) (metis distinct_append not_distinct_conv_prefix append_Cons)
    have one: "one_bit (lock_heap s' r)" using mem r s1(2) unfolding wf_wait_def by metis
    have pq: "page_queue s' pg = xs @ r # ys" using g q by (simp add: grants_page_queue) (simp add: s1_def)
    show ?thesis
    proof (cases "rec_is_nth_bit_set (lock_heap s' r) h")
      case True
      then have "rec_find_set_bit (lock_heap s' r) = h" using one rec_find_set_bit_unique unfolding one_bit_def by metis
      then show ?thesis using rec_wait_in_queue_waits [OF dist one] True pq by simp
    next
      case False
      have "queue_live rec_waits granted (map (lock_heap s) (xs @ r # ys))"
        using wf(2) q unfolding queues_live_def page_locks_def by (metis append_Nil)
      then obtain a where a: "a \<in> set xs" "rec_waits (lock_heap s r) (lock_heap s a)"
        using rs(2) by (auto simp: queue_live_from_append)
      have "rec_waits (lock_heap s r) (lock_heap s1 a)"
        using a(2) False reset_bit_waits [OF okb] rs(1) by (auto simp: s1_def)
      then have "rec_waits (lock_heap s' r) (lock_heap s' a)"
        using g rs(1) recq.waits_g(2) by (simp add: grants_def)
      then show ?thesis using a(1) False by blast
    qed
  qed
  have "\<exists>s' G. for_each body ?q s1 = Some s' \<and> grants G s1 s' \<and> wf_thrs s'
      \<and> G \<subseteq> {p \<in> set ?q. is_waiting (lock_heap s1 p)}
      \<and> map (lock_heap s') ?q = grant_pass rec_waits granted clear_wait (map (lock_heap s1) []) (map (lock_heap s1) ?q)"
    by (rule for_each_grants [where blocked = ?blocked])
      (use blocked s1(4) wf(1) in \<open>auto simp: body_def wf_locks_def\<close>)
  moreover have "queue_for body pg 0 s1 = for_each body ?q s1"
    using queue_for_fixed [where body = body and i = 0, OF keep loc] by simp
  ultimately show ?thesis by simp
qed

text \<open>
  A transaction that is not waiting can give up a record: the lock it held on the record no longer
  covers it, every waiter that is now free is granted, and the invariant is kept.
\<close>

lemma rec_unlock_total:
  assumes inv: "full_inv s" and t: "wait_lock (ltrx_heap s t) = None" and q: "rec_locks s (b_page_id block) \<noteq> None"
  shows "\<exists>s'. rec_unlock t block h mode s = Some s' \<and> full_inv s'
    \<and> (s' = s \<and> (\<forall>p\<in>set (page_queue s (b_page_id block)). \<not> (rec_is_nth_bit_set (lock_heap s p) h
           \<and> m_trx (lock_heap s p) = t \<and> lock_mode (lock_heap s p) = mode))
       \<or> (\<exists>p\<in>set (page_queue s (b_page_id block)). m_trx (lock_heap s p) = t \<and> \<not> rec_is_nth_bit_set (lock_heap s' p) h))"
proof -
  let ?pg = "b_page_id block"
  have linv: "lock_inv s" using inv by (simp add: full_inv_def)
  then have wf: "wf_locks s" "wf_wait {} s" "queues_live s" by (auto simp: lock_inv_def)
  have gr: "granted (lock_heap s p)" if "p \<in> set (page_queue s ?pg)" "m_trx (lock_heap s p) = t" for p
    using wf(2) t that wf_page_member(4) [OF wf(1) that(1)] by (auto simp: wf_wait_def)
  obtain f where f: "rec_unlock_find s t h mode None (page_queue s ?pg) = Some f"
    "f = None \<or> (\<exists>p\<in>set (page_queue s ?pg). f = Some p \<and> m_trx (lock_heap s p) = t)"
    "f = None \<longrightarrow> (\<forall>p\<in>set (page_queue s ?pg). \<not> (rec_is_nth_bit_set (lock_heap s p) h
         \<and> m_trx (lock_heap s p) = t \<and> lock_mode (lock_heap s p) = mode))"
    using rec_unlock_find_total [of "page_queue s ?pg" s t h mode None] gr by auto
  have eq: "rec_unlock t block h mode s = (case f of None \<Rightarrow> Some s | Some p \<Rightarrow>
      queue_for (\<lambda>r s. if rec_is_nth_bit_set (lock_heap s r) h \<and> is_waiting (lock_heap s r)
                \<and> \<not> rec_has_to_wait_in_queue s (page_queue s ?pg) r h then grant r s else Some s) ?pg 0
       (upd_lock p (rec_reset_nth_bit h) s))"
    using q f(1) by (simp add: rec_unlock_def)
  show ?thesis
  proof (cases f)
    case None
    then show ?thesis using eq f(3) inv by auto
  next
    case (Some p)
    then have p: "p \<in> set (page_queue s ?pg)" "m_trx (lock_heap s p) = t" "granted (lock_heap s p)" using f(2) gr by auto
    have okb: "wf_bitmap (lock_heap s p)" using wf_page_member(3) [OF wf(1) p(1)] by (simp add: rec_ok_def)
    let ?s1 = "upd_lock p (rec_reset_nth_bit h) s"
    note s1 = reset_bit_inv [OF linv p(1,3), where h = h]
    obtain s' G where s': "rec_unlock t block h mode s = Some s'" "grants G ?s1 s'" "wf_thrs s'"
      "G \<subseteq> {r \<in> set (page_queue s ?pg). is_waiting (lock_heap ?s1 r)}"
      "map (lock_heap s') (page_queue s ?pg)
        = grant_pass rec_waits granted clear_wait [] (map (lock_heap ?s1) (page_queue s ?pg))"
      using unlock_grant_loop [OF linv p(1,3), where h = h] eq Some by auto
    have pq: "page_queue ?s1 ?pg = page_queue s ?pg" by simp
    have live: "queue_live rec_waits granted (page_locks ?s1 pg')" if "pg' \<noteq> ?pg" for pg'
      using s1(6) [OF that] wf(3) by (simp add: queues_live_def)
    have live': "queue_live table_waits granted (tbl_locks ?s1 tb)" for tb
      using s1(7) wf(3) by (simp add: queues_live_def)
    have "queues_safe s'" "queues_live s'"
      using grants_page_queues [OF s'(2) _ s1(1) _ s1(5) live live', of ?pg] s'(4,5) pq by auto
    moreover have "wf_wait {} s'"
      by (rule grants_wf_wait [OF s'(2) s1(2)])
         (use s'(4) wf_page_member(4) [OF s1(1), of _ ?pg] in auto)
    ultimately have linv': "lock_inv s'"
      using s'(3) grants_wf_locks [OF s'(2) s1(1)] grants_wf_que [OF s'(2) s1(3)] by (simp add: lock_inv_def)
    note ev = grants_evolved [OF s'(2)]
    have "waits_for s x y" if "waits_for s' x y" for x y
      by (rule s1(8) [OF waits_for_evolved [OF linv' ev that]])
    moreover have "waiting_listed {} s'"
      using waiting_listed_evolved [OF ev, of "{}"] inv by (simp add: full_inv_def waiting_listed_def que_states_def)
    ultimately have "full_inv s'" using linv' inv acyclic_subset_waits unfolding full_inv_def by metis
    moreover have "\<not> rec_is_nth_bit_set (lock_heap s' p) h"
      using s'(2) okb by (simp add: grants_def rec_reset_nth_bit_iff)
    ultimately show ?thesis using s'(1) p by blast
  qed
qed

end
