(* ===== verification/Lock_Inherit.thy ===== *)
theory Lock_Inherit
  imports Lock_Release
begin

text \<open>
  Record locks when records come and go: an inserted record inherits the locks on the gap it
  splits, a removed record leaves its locks to the gap of its successor, and its waiters are
  released.
\<close>

section \<open>Loops over a queue that grows\<close>

lemma queue_for_idle:
  assumes "rec_locks s pg = Some q" "\<And>k. i \<le> k \<Longrightarrow> k < length q \<Longrightarrow> body (q ! k) s = Some s"
  shows "queue_for body pg i s = Some s"
  using assms
proof (induction "length q - i" arbitrary: i)
  case (Suc n)
  then have "queue_for body pg (i + 1) s = Some s" by simp
  moreover have "body (q ! i) s = Some s" "i < length q" using Suc.prems(2) [of i] Suc.hyps(2) by simp_all
  ultimately show ?case using Suc.prems(1) by (subst queue_for.simps) simp
qed (subst queue_for.simps, simp)

text \<open>The body does its work on the elements \<open>q0\<close> the queue starts with and nothing on the ones it appends.\<close>

lemma queue_for_grows:
  assumes step: "\<And>i s. J i s \<Longrightarrow> i < length q0 \<Longrightarrow> \<exists>s'. body (q0 ! i) s = Some s' \<and> J (i + 1) s'"
    and grow: "\<And>i s. J i s \<Longrightarrow> \<exists>ext. page_queue s pg = q0 @ ext \<and> (\<forall>r\<in>set ext. body r s = Some s)"
    and J: "J i s" "i \<le> length q0"
  shows "\<exists>s'. queue_for body pg i s = Some s' \<and> J (length q0) s'"
  using J
proof (induction "length q0 - i" arbitrary: i s)
  case 0
  obtain ext where ext: "page_queue s pg = q0 @ ext" "\<forall>r\<in>set ext. body r s = Some s" using grow [OF 0(2)] by blast
  have "queue_for body pg i s = Some s"
  proof (cases "rec_locks s pg")
    case None
    then show ?thesis by (subst queue_for.simps) simp
  next
    case (Some q)
    then have q: "q = q0 @ ext" using ext(1) by (simp add: page_queue_def)
    show ?thesis by (rule queue_for_idle [OF Some]) (use 0 ext(2) q in \<open>auto simp: nth_append\<close>)
  qed
  then show ?case using 0 by auto
next
  case (Suc n)
  then have i: "i < length q0" by simp
  obtain ext where ext: "page_queue s pg = q0 @ ext" using grow [OF Suc.prems(1)] by blast
  then have q: "rec_locks s pg = Some (q0 @ ext)" using i by (cases "rec_locks s pg") (auto simp: page_queue_def)
  obtain s' where s': "body (q0 ! i) s = Some s'" "J (i + 1) s'" using step [OF Suc.prems(1) i] by blast
  have "n = length q0 - (i + 1)" "i + 1 \<le> length q0" using Suc.hyps(2) i by simp_all
  then obtain s'' where "queue_for body pg (i + 1) s' = Some s''" "J (length q0) s''" using Suc.hyps(1) s'(2) by blast
  then show ?case using q i s'(1) by (subst queue_for.simps) (simp add: nth_append)
qed

section \<open>What adding record locks changes\<close>

text \<open>Locks are added for record \<open>h\<close> of page \<open>pg\<close> only: by new structs or by new bits.\<close>

definition grown :: "page_id \<Rightarrow> nat \<Rightarrow> lock_sys \<Rightarrow> lock_sys \<Rightarrow> bool" where
  "grown pg h s s' \<longleftrightarrow>
     (\<forall>pg'. \<exists>ext. page_queue s' pg' = page_queue s pg' @ ext \<and> (pg' \<noteq> pg \<longrightarrow> ext = [])
        \<and> (\<forall>r\<in>set ext. \<forall>j. rec_is_nth_bit_set (lock_heap s' r) j \<longrightarrow> j = h))
   \<and> (\<forall>pg'. \<forall>r\<in>set (page_queue s pg'). m_trx (lock_heap s' r) = m_trx (lock_heap s r)
        \<and> m_type_mode (lock_heap s' r) = m_type_mode (lock_heap s r)
        \<and> m_object (lock_heap s' r) = m_object (lock_heap s r)
        \<and> (\<forall>j. rec_is_nth_bit_set (lock_heap s r) j \<longrightarrow> rec_is_nth_bit_set (lock_heap s' r) j)
        \<and> (\<forall>j. rec_is_nth_bit_set (lock_heap s' r) j \<longrightarrow> rec_is_nth_bit_set (lock_heap s r) j \<or> pg' = pg \<and> j = h))"

lemma grown_refl [simp]: "grown pg h s s"
  by (auto simp: grown_def)

lemma grown_queue:
  "grown pg h s s' \<Longrightarrow> \<exists>ext. page_queue s' pg' = page_queue s pg' @ ext \<and> (pg' \<noteq> pg \<longrightarrow> ext = [])
     \<and> (\<forall>r\<in>set ext. \<forall>j. rec_is_nth_bit_set (lock_heap s' r) j \<longrightarrow> j = h)"
  unfolding grown_def by blast

lemma grown_lock:
  assumes "grown pg h s s'" "r \<in> set (page_queue s pg')"
  shows "m_trx (lock_heap s' r) = m_trx (lock_heap s r)" "m_type_mode (lock_heap s' r) = m_type_mode (lock_heap s r)"
    "m_object (lock_heap s' r) = m_object (lock_heap s r)"
    "rec_is_nth_bit_set (lock_heap s r) j \<Longrightarrow> rec_is_nth_bit_set (lock_heap s' r) j"
    "rec_is_nth_bit_set (lock_heap s' r) j \<Longrightarrow> rec_is_nth_bit_set (lock_heap s r) j \<or> pg' = pg \<and> j = h"
    "r \<in> set (page_queue s' pg')"
  using assms unfolding grown_def by (metis Un_iff set_append)+

lemma grown_trans:
  assumes g: "grown pg h s s'" "grown pg h s' s''"
  shows "grown pg h s s''"
  unfolding grown_def
proof (intro conjI allI ballI)
  fix pg'
  obtain e where e: "page_queue s' pg' = page_queue s pg' @ e" "pg' \<noteq> pg \<longrightarrow> e = []"
    "\<forall>r\<in>set e. \<forall>j. rec_is_nth_bit_set (lock_heap s' r) j \<longrightarrow> j = h"
    using grown_queue [OF g(1), of pg'] by blast
  obtain f where f: "page_queue s'' pg' = page_queue s' pg' @ f" "pg' \<noteq> pg \<longrightarrow> f = []"
    "\<forall>r\<in>set f. \<forall>j. rec_is_nth_bit_set (lock_heap s'' r) j \<longrightarrow> j = h"
    using grown_queue [OF g(2), of pg'] by blast
  have "j = h" if "r \<in> set e" "rec_is_nth_bit_set (lock_heap s'' r) j" for r j
    using grown_lock(5) [OF g(2), of r pg' j] e that by auto
  then show "\<exists>ext. page_queue s'' pg' = page_queue s pg' @ ext \<and> (pg' \<noteq> pg \<longrightarrow> ext = [])
      \<and> (\<forall>r\<in>set ext. \<forall>j. rec_is_nth_bit_set (lock_heap s'' r) j \<longrightarrow> j = h)"
    using e(1,2) f by (intro exI [of _ "e @ f"]) auto
next
  fix pg' r assume r: "r \<in> set (page_queue s pg')"
  note a = grown_lock [OF g(1) r] and b = grown_lock [OF g(2) grown_lock(6) [OF g(1) r]]
  show "m_trx (lock_heap s'' r) = m_trx (lock_heap s r)" "m_type_mode (lock_heap s'' r) = m_type_mode (lock_heap s r)"
    "m_object (lock_heap s'' r) = m_object (lock_heap s r)" using a b by simp_all
  fix j
  show "rec_is_nth_bit_set (lock_heap s r) j \<longrightarrow> rec_is_nth_bit_set (lock_heap s'' r) j"
    "rec_is_nth_bit_set (lock_heap s'' r) j \<longrightarrow> rec_is_nth_bit_set (lock_heap s r) j \<or> pg' = pg \<and> j = h"
    using a(4,5) [of j] b(4,5) [of j] by blast+
qed

lemma grown_holds_lock:
  assumes "grown pg h s s'" "holds_lock s pg' tm k trx p"
  shows "holds_lock s' pg' tm k trx p"
proof -
  have p: "p \<in> set (page_queue s pg')" using assms(2) by (simp add: holds_lock_def Let_def)
  show ?thesis using assms(2) grown_lock [OF assms(1) p]
    by (auto simp: holds_lock_def Let_def lock_flag_bits lock_mode_def)
qed

lemma appended_grown:
  assumes app: "appended (Inl pg) l s s'" and wf: "wf_locks s" and l: "\<And>j. rec_is_nth_bit_set l j \<longleftrightarrow> j = h"
  shows "grown pg h s s'"
proof -
  have "lock_heap s' r = lock_heap s r" if "r \<in> set (page_queue s pg')" for r pg'
    using appended_old [OF app wf] wf_page_member(4) [OF wf that] by blast
  moreover have "lock_heap s' (next_lock s) = l"
    "page_queue s' pg' = page_queue s pg' @ (if pg = pg' then [next_lock s] else [])" for pg'
    using app by (simp_all add: appended_def)
  ultimately show ?thesis using l unfolding grown_def by auto
qed

lemma set_bit_grown:
  assumes wf: "wf_locks s" and p: "p \<in> set (page_queue s pg)" "h < m_n_bits (lock_heap s p)"
  shows "grown pg h s (upd_lock p (rec_set_nth_bit h) s)"
proof -
  have "wf_bitmap (lock_heap s p)" using wf_page_member(3) [OF wf p(1)] by (simp add: rec_ok_def)
  moreover have "pg' = pg" if "p \<in> set (page_queue s pg')" for pg' using wf_page_member(2) [OF wf] p(1) that by blast
  ultimately show ?thesis using p(2) by (auto simp: grown_def rec_set_nth_bit_iff)
qed

lemma rec_add_grown:
  fixes tm :: lock_type_t
  assumes wf: "wf_locks s" and blk: "block_ok block h" "unat (tm AND LOCK_MODE_MASK) < 4"
  shows "grown (b_page_id block) h s (fst (rec_add_to_queue tm block h index trx s))"
proof -
  let ?pg = "b_page_id block"
  have create: "grown ?pg h s (fst (rec_create tm' block h index trx s))"
    if "tm' AND LOCK_MODE_MASK = tm AND LOCK_MODE_MASK" for tm' :: lock_type_t
  proof -
    have b: "unat (tm' AND LOCK_MODE_MASK) < 4" using that blk(2) by simp
    show ?thesis by (rule appended_grown [OF rec_create_appended(2) [OF blk(1) b] wf])
        (use blk(1) b new_rec_lock_facts(4) in \<open>simp add: block_ok_def\<close>)
  qed
  define tm' where "tm' = (if h = PAGE_HEAP_NO_SUPREMUM then (tm OR LOCK_REC) AND NOT (LOCK_GAP OR LOCK_REC_NOT_GAP)
    else tm OR LOCK_REC)"
  have mode: "tm' AND LOCK_MODE_MASK = tm AND LOCK_MODE_MASK" by (simp add: tm'_def flag_simps)
  have "grown ?pg h s (upd_lock p (rec_set_nth_bit h) s)"
    if "rec_find_similar_on_page s tm' h (page_queue s ?pg) trx = Some p" for p
    by (rule set_bit_grown [OF wf])
       (use that in \<open>auto simp: rec_find_similar_on_page_def rec_get_n_bits_def dest: find_SomeD\<close>)
  then show ?thesis
    unfolding rec_add_to_queue_def Let_def tm'_def [symmetric] using create [OF mode] by (auto split: option.splits)
qed

section \<open>Inheriting locks as gap locks\<close>

lemma added_trans: "added s s' \<Longrightarrow> added s' s'' \<Longrightarrow> added s s''"
  unfolding added_def using env_frame_trans by metis

definition inherit_body ::
  "(Trx_isolation \<Rightarrow> lock_type_t \<Rightarrow> bool) \<Rightarrow> lock_block \<Rightarrow> nat \<Rightarrow> nat \<Rightarrow> lock_ptr \<Rightarrow> lock_sys \<Rightarrow> lock_sys option" where
  "inherit_body P heir h heap_no p s = (let l = lock_heap s p in
     if rec_is_nth_bit_set l heap_no \<and> P (isolation_level (ltrx_heap s (m_trx l))) (m_type_mode l)
     then Some (fst (rec_add_to_queue (LOCK_REC OR LOCK_GAP OR lock_mode l) heir h (m_object l) (m_trx l) s))
     else Some s)"

text \<open>The transaction holds a lock of this mode on the gap before the record.\<close>

definition gap_locked :: "lock_sys \<Rightarrow> page_id \<Rightarrow> nat \<Rightarrow> ltrx_ptr \<Rightarrow> lock_type_t \<Rightarrow> bool" where
  "gap_locked s pg h trx mode \<longleftrightarrow>
     (\<exists>p\<in>set (page_queue s pg). let l = lock_heap s p in granted l \<and> m_trx l = trx \<and> rec_is_nth_bit_set l h
        \<and> lock_mode l = mode \<and> \<not> rec_is_not_gap l \<and> \<not> rec_is_insert_intention l)"

lemma gap_mode_bits:
  fixes m :: lock_type_t
  defines "tm \<equiv> LOCK_REC OR LOCK_GAP OR (m AND LOCK_MODE_MASK)"
  shows "tm AND LOCK_MODE_MASK = m AND LOCK_MODE_MASK" "\<not> bit tm 8" "bit tm 9" "\<not> bit tm 10" "\<not> bit tm 11"
proof -
  show "tm AND LOCK_MODE_MASK = m AND LOCK_MODE_MASK"
    by (simp add: tm_def bit.conj_disj_distrib2 and.assoc) (simp add: lock_flag_defs)
  have "\<not> bit LOCK_MODE_MASK n" if "n \<ge> 4" for n
  proof -
    have "LOCK_MODE_MASK = mask 4" by (simp add: lock_flag_defs mask_eq_exp_minus_1)
    then show ?thesis using that by (metis bit_mask_iff not_less)
  qed
  then show "\<not> bit tm 8" "bit tm 9" "\<not> bit tm 10" "\<not> bit tm 11" by (simp_all add: tm_def bit_simps flag_simps)
qed

lemma holds_gap_locked:
  assumes "holds_lock s pg (LOCK_REC OR LOCK_GAP OR lock_mode l) h trx p"
  shows "gap_locked s pg h trx (lock_mode l)"
  using assms gap_mode_bits [of "m_type_mode l"]
  by (auto simp: holds_lock_def gap_locked_def Let_def lock_mode_def [of l])

lemma inherit_step:
  assumes inv: "lock_inv s" and blk: "block_ok heir h" and r: "r \<in> set (page_queue s pg)"
  shows "\<exists>s'. inherit_body P heir h heap_no r s = Some s' \<and> added s s' \<and> grown (b_page_id heir) h s s'
     \<and> (rec_is_nth_bit_set (lock_heap s r) heap_no
        \<and> P (isolation_level (ltrx_heap s (m_trx (lock_heap s r)))) (m_type_mode (lock_heap s r)) \<longrightarrow>
        gap_locked s' (b_page_id heir) h (m_trx (lock_heap s r)) (lock_mode (lock_heap s r)))"
proof -
  let ?l = "lock_heap s r"
  let ?tm = "LOCK_REC OR LOCK_GAP OR lock_mode ?l"
  have wf: "wf_locks s" using inv by (simp add: lock_inv_def)
  note bits = gap_mode_bits [of "m_type_mode ?l", folded lock_mode_def]
  have mode: "unat (?tm AND LOCK_MODE_MASK) < 4" using wf_page_member(3) [OF wf r] bits(1) by (simp add: rec_ok_def)
  have free: "no_conflict s (b_page_id heir) ?tm h (m_trx ?l)" using bits(3) by (simp add: no_conflict_def Let_def)
  let ?s = "fst (rec_add_to_queue ?tm heir h (m_object ?l) (m_trx ?l) s)"
  have "added s ?s \<and> gap_locked ?s (b_page_id heir) h (m_trx ?l) (lock_mode ?l)"
    using rec_add_granted [OF inv blk mode bits(2) free, of "m_object ?l"] holds_gap_locked by blast
  moreover have "grown (b_page_id heir) h s ?s" by (rule rec_add_grown [OF wf blk mode])
  ultimately show ?thesis using added_refl [OF inv] by (auto simp: inherit_body_def Let_def)
qed

lemma grown_gap_locked:
  assumes "grown pg h s s'" "gap_locked s pg' k trx mode"
  shows "gap_locked s' pg' k trx mode"
  using assms(2) grown_lock [OF assms(1)]
  by (auto simp: gap_locked_def Let_def lock_flag_bits lock_mode_def) (metis)

lemma inherit_loop:
  assumes inv: "lock_inv s" and blk: "block_ok heir h" and ne: "b_page_id heir \<noteq> pg \<or> h \<noteq> heap_no"
  shows "\<exists>s'. queue_for (inherit_body P heir h heap_no) pg 0 s = Some s' \<and> added s s' \<and> grown (b_page_id heir) h s s'
     \<and> (\<forall>r\<in>set (page_queue s pg). rec_is_nth_bit_set (lock_heap s r) heap_no
        \<and> P (isolation_level (ltrx_heap s (m_trx (lock_heap s r)))) (m_type_mode (lock_heap s r)) \<longrightarrow>
        gap_locked s' (b_page_id heir) h (m_trx (lock_heap s r)) (lock_mode (lock_heap s r)))"
proof -
  let ?q = "page_queue s pg" and ?hp = "b_page_id heir"
  let ?cond = "\<lambda>s r. rec_is_nth_bit_set (lock_heap s r) heap_no
        \<and> P (isolation_level (ltrx_heap s (m_trx (lock_heap s r)))) (m_type_mode (lock_heap s r))"
  define J where "J = (\<lambda>i s'. added s s' \<and> grown ?hp h s s' \<and> (\<forall>k<i. k < length ?q \<longrightarrow> ?cond s (?q ! k) \<longrightarrow>
      gap_locked s' ?hp h (m_trx (lock_heap s (?q ! k))) (lock_mode (lock_heap s (?q ! k)))))"
  have step: "\<exists>s2. inherit_body P heir h heap_no (?q ! i) s1 = Some s2 \<and> J (i + 1) s2"
    if J: "J i s1" and i: "i < length ?q" for i s1
  proof -
    let ?r = "?q ! i"
    have r: "?r \<in> set ?q" using i by simp
    have g: "grown ?hp h s s1" and a: "added s s1" using J by (auto simp: J_def)
    have same: "m_trx (lock_heap s1 ?r) = m_trx (lock_heap s ?r)" "m_type_mode (lock_heap s1 ?r) = m_type_mode (lock_heap s ?r)"
      using grown_lock(1,2) [OF g r] by simp_all
    have cond: "?cond s1 ?r = ?cond s ?r"
      using grown_lock(4,5) [OF g r] ne a same by (auto simp: added_def env_frame_def)
    obtain s2 where s2: "inherit_body P heir h heap_no ?r s1 = Some s2" "added s1 s2" "grown ?hp h s1 s2"
      "?cond s1 ?r \<longrightarrow> gap_locked s2 ?hp h (m_trx (lock_heap s1 ?r)) (lock_mode (lock_heap s1 ?r))"
      using inherit_step [OF _ blk grown_lock(6) [OF g r], of P heap_no] a unfolding added_def by blast
    have "gap_locked s2 ?hp h (m_trx (lock_heap s ?r)) (lock_mode (lock_heap s ?r))" if "?cond s ?r"
      using that s2(4) cond same by (simp add: lock_mode_def)
    moreover have "gap_locked s2 ?hp h (m_trx (lock_heap s (?q ! k))) (lock_mode (lock_heap s (?q ! k)))"
      if "k < i" "k < length ?q" "?cond s (?q ! k)" for k
      using that J [unfolded J_def] grown_gap_locked [OF s2(3)] by blast
    ultimately show ?thesis using s2(1) added_trans [OF a s2(2)] grown_trans [OF g s2(3)] by (auto simp: J_def less_Suc_eq)
  qed
  have grow: "\<exists>ext. page_queue s1 pg = ?q @ ext \<and> (\<forall>r\<in>set ext. inherit_body P heir h heap_no r s1 = Some s1)"
    if J: "J i s1" for i s1
  proof -
    obtain ext where "page_queue s1 pg = ?q @ ext" "pg \<noteq> ?hp \<longrightarrow> ext = []"
      "\<forall>r\<in>set ext. \<forall>j. rec_is_nth_bit_set (lock_heap s1 r) j \<longrightarrow> j = h"
      using grown_queue [of ?hp h s s1 pg] J by (auto simp: J_def)
    moreover have "inherit_body P heir h heap_no r s1 = Some s1" if "r \<in> set ext" for r
    proof -
      have "\<not> rec_is_nth_bit_set (lock_heap s1 r) heap_no" using calculation that ne by fastforce
      then show ?thesis by (simp add: inherit_body_def Let_def)
    qed
    ultimately show ?thesis by blast
  qed
  have "J 0 s" using added_refl [OF inv] by (simp add: J_def)
  then have "\<exists>s'. queue_for (inherit_body P heir h heap_no) pg 0 s = Some s' \<and> J (length ?q) s'"
    by (intro queue_for_grows [where J = J]) (use step grow in blast)+
  then show ?thesis by (auto simp: J_def in_set_conv_nth)
qed

lemma rec_inherit_to_gap_body:
  "rec_inherit_to_gap heir block h heap_no s = queue_for (inherit_body
     (\<lambda>iso tm. tm AND LOCK_INSERT_INTENTION = 0 \<and> iso \<noteq> TRX_ISO_READ_COMMITTED \<and> tm AND LOCK_MODE_MASK = LOCK_X)
     heir h heap_no) (b_page_id block) 0 s"
  by (simp add: rec_inherit_to_gap_def inherit_body_def [abs_def] Let_def rec_is_insert_intention_def lock_mode_def)

lemma rec_inherit_to_gap_if_gap_lock_body:
  "rec_inherit_to_gap_if_gap_lock block h heap_no s = queue_for (inherit_body
     (\<lambda>iso tm. tm AND LOCK_INSERT_INTENTION = 0 \<and> (heap_no = PAGE_HEAP_NO_SUPREMUM \<or> tm AND LOCK_REC_NOT_GAP = 0))
     block h heap_no) (b_page_id block) 0 s"
  by (simp add: rec_inherit_to_gap_if_gap_lock_def inherit_body_def [abs_def] Let_def rec_is_insert_intention_def rec_is_not_gap_def)

lemma rec_inherit_to_gap_total:
  assumes inv: "full_inv s" and blk: "block_ok heir h" and ne: "b_page_id heir \<noteq> b_page_id block \<or> h \<noteq> heap_no"
  shows "\<exists>s'. rec_inherit_to_gap heir block h heap_no s = Some s' \<and> full_inv s' \<and> grown (b_page_id heir) h s s'
     \<and> (\<forall>r\<in>set (page_queue s (b_page_id block)). rec_is_nth_bit_set (lock_heap s r) heap_no
        \<and> \<not> rec_is_insert_intention (lock_heap s r) \<and> lock_mode (lock_heap s r) = LOCK_X
        \<and> isolation_level (ltrx_heap s (m_trx (lock_heap s r))) \<noteq> TRX_ISO_READ_COMMITTED \<longrightarrow>
        gap_locked s' (b_page_id heir) h (m_trx (lock_heap s r)) LOCK_X)"
proof -
  have "lock_inv s" using inv by (simp add: full_inv_def)
  then obtain s' where s': "rec_inherit_to_gap heir block h heap_no s = Some s'" "added s s'" "grown (b_page_id heir) h s s'"
    "\<forall>r\<in>set (page_queue s (b_page_id block)). rec_is_nth_bit_set (lock_heap s r) heap_no
       \<and> m_type_mode (lock_heap s r) AND LOCK_INSERT_INTENTION = 0
       \<and> isolation_level (ltrx_heap s (m_trx (lock_heap s r))) \<noteq> TRX_ISO_READ_COMMITTED
       \<and> m_type_mode (lock_heap s r) AND LOCK_MODE_MASK = LOCK_X \<longrightarrow>
        gap_locked s' (b_page_id heir) h (m_trx (lock_heap s r)) (lock_mode (lock_heap s r))"
    using inherit_loop [OF _ blk ne] unfolding rec_inherit_to_gap_body by blast
  then show ?thesis using added_full_inv [OF inv s'(2)]
    by (intro exI [of _ s']) (fastforce simp: lock_mode_def rec_is_insert_intention_def)
qed

lemma update_insert_total:
  assumes inv: "full_inv s" and blk: "block_ok block h" and ne: "next_heap_no block h \<noteq> h"
  shows "\<exists>s'. update_insert block h s = Some s' \<and> full_inv s' \<and> grown (b_page_id block) h s s'
     \<and> (\<forall>r\<in>set (page_queue s (b_page_id block)). rec_is_nth_bit_set (lock_heap s r) (next_heap_no block h)
        \<and> \<not> rec_is_insert_intention (lock_heap s r)
        \<and> (next_heap_no block h = PAGE_HEAP_NO_SUPREMUM \<or> \<not> rec_is_not_gap (lock_heap s r)) \<longrightarrow>
        gap_locked s' (b_page_id block) h (m_trx (lock_heap s r)) (lock_mode (lock_heap s r)))"
proof -
  let ?n = "next_heap_no block h"
  have linv: "lock_inv s" using inv by (simp add: full_inv_def)
  have ne': "b_page_id block \<noteq> b_page_id block \<or> h \<noteq> ?n" using ne by simp
  obtain s' where s': "update_insert block h s = Some s'" "added s s'" "grown (b_page_id block) h s s'"
    "\<forall>r\<in>set (page_queue s (b_page_id block)). rec_is_nth_bit_set (lock_heap s r) ?n
       \<and> m_type_mode (lock_heap s r) AND LOCK_INSERT_INTENTION = 0
       \<and> (?n = PAGE_HEAP_NO_SUPREMUM \<or> m_type_mode (lock_heap s r) AND LOCK_REC_NOT_GAP = 0) \<longrightarrow>
        gap_locked s' (b_page_id block) h (m_trx (lock_heap s r)) (lock_mode (lock_heap s r))"
    using inherit_loop [OF linv blk ne', of "\<lambda>iso tm. tm AND LOCK_INSERT_INTENTION = 0
      \<and> (?n = PAGE_HEAP_NO_SUPREMUM \<or> tm AND LOCK_REC_NOT_GAP = 0)"]
    unfolding update_insert_def rec_inherit_to_gap_if_gap_lock_body by blast
  then show ?thesis using added_full_inv [OF inv s'(2)]
    by (intro exI [of _ s']) (simp add: rec_is_not_gap_def rec_is_insert_intention_def)
qed

section \<open>Inserts into a locked gap\<close>

text \<open>The lock an insert requests on the record after the insert position.\<close>

definition insert_intention_mode :: lock_type_t where
  "insert_intention_mode = LOCK_X OR LOCK_GAP OR LOCK_INSERT_INTENTION"

lemma insert_intention_bits:
  "bit insert_intention_mode 9" "bit insert_intention_mode 11" "LOCK_MODE_MASK AND insert_intention_mode = LOCK_X"
  by (simp_all add: insert_intention_mode_def lock_flag_defs)

lemma insert_blocked_iff:
  "rec_blocks l trx insert_intention_mode sup' \<longleftrightarrow>
     trx \<noteq> m_trx l \<and> \<not> mode_compatible LOCK_X (lock_mode l) \<and> \<not> rec_is_not_gap l \<and> \<not> rec_is_insert_intention l"
  by (simp add: rec_blocks_def insert_intention_bits flag_bit_iff)

lemma gap_locked_blocks_insert:
  assumes "gap_locked s pg h u mode" "trx \<noteq> u" "\<not> mode_compatible LOCK_X mode"
  shows "rec_other_has_conflicting s pg insert_intention_mode h trx \<noteq> None"
  using assms by (auto simp: rec_other_has_conflicting_def find_None_iff insert_blocked_iff gap_locked_def Let_def)

lemma insert_blockedE:
  assumes "rec_other_has_conflicting s pg insert_intention_mode h trx \<noteq> None"
  obtains r where "r \<in> set (page_queue s pg)" "rec_is_nth_bit_set (lock_heap s r) h" "trx \<noteq> m_trx (lock_heap s r)"
    "\<not> mode_compatible LOCK_X (lock_mode (lock_heap s r))" "\<not> rec_is_not_gap (lock_heap s r)"
    "\<not> rec_is_insert_intention (lock_heap s r)"
  using assms by (auto simp: rec_other_has_conflicting_def find_None_iff insert_blocked_iff)

lemma update_insert_phantom:
  assumes "full_inv s" "block_ok block h" "next_heap_no block h \<noteq> h"
    and "rec_other_has_conflicting s (b_page_id block) insert_intention_mode (next_heap_no block h) trx \<noteq> None"
  shows "\<exists>s'. update_insert block h s = Some s'
     \<and> rec_other_has_conflicting s' (b_page_id block) insert_intention_mode h trx \<noteq> None
     \<and> rec_other_has_conflicting s' (b_page_id block) insert_intention_mode (next_heap_no block h) trx \<noteq> None"
proof -
  let ?pg = "b_page_id block" and ?n = "next_heap_no block h"
  obtain s' where s': "update_insert block h s = Some s'" "grown ?pg h s s'"
    and inh: "\<forall>r\<in>set (page_queue s ?pg). rec_is_nth_bit_set (lock_heap s r) ?n
        \<and> \<not> rec_is_insert_intention (lock_heap s r)
        \<and> (?n = PAGE_HEAP_NO_SUPREMUM \<or> \<not> rec_is_not_gap (lock_heap s r)) \<longrightarrow>
        gap_locked s' ?pg h (m_trx (lock_heap s r)) (lock_mode (lock_heap s r))"
    using update_insert_total [OF assms(1-3)] by blast
  obtain r where r: "r \<in> set (page_queue s ?pg)" "rec_is_nth_bit_set (lock_heap s r) ?n" "trx \<noteq> m_trx (lock_heap s r)"
    "\<not> mode_compatible LOCK_X (lock_mode (lock_heap s r))" "\<not> rec_is_not_gap (lock_heap s r)"
    "\<not> rec_is_insert_intention (lock_heap s r)"
    using insert_blockedE [OF assms(4)] .
  have "gap_locked s' ?pg h (m_trx (lock_heap s r)) (lock_mode (lock_heap s r))" using inh r by blast
  then have "rec_other_has_conflicting s' ?pg insert_intention_mode h trx \<noteq> None"
    using gap_locked_blocks_insert r(3,4) by blast
  moreover have "rec_other_has_conflicting s' ?pg insert_intention_mode ?n trx \<noteq> None"
  proof -
    have "r \<in> set (page_queue s' ?pg)" "rec_is_nth_bit_set (lock_heap s' r) ?n"
      "rec_blocks (lock_heap s' r) trx insert_intention_mode (?n = PAGE_HEAP_NO_SUPREMUM)"
      using grown_lock [OF s'(2) r(1)] r by (auto simp: insert_blocked_iff lock_flag_bits lock_mode_def)
    then show ?thesis unfolding rec_other_has_conflicting_def find_None_iff by blast
  qed
  ultimately show ?thesis using s'(1) by blast
qed

end
