(* ===== verification/Lock_Discard.thy ===== *)
theory Lock_Discard
  imports Lock_Inherit
begin

text \<open>
  Releasing the locks on a record that goes away: the granted ones lose the record, the waiting
  requests are cancelled and their transactions run again.
\<close>

section \<open>Releasing the requests on a record\<close>

text \<open>The effect on the requests in \<open>R\<close>, some of which wait; clearing the wait flag of a granted lock changes nothing.\<close>

definition cancels :: "lock_ptr set \<Rightarrow> lock_sys \<Rightarrow> ltrx_ptr \<Rightarrow> bool" where
  "cancels R s t \<longleftrightarrow> (\<exists>r\<in>R. is_waiting (lock_heap s r) \<and> m_trx (lock_heap s r) = t)"

definition released :: "nat \<Rightarrow> lock_ptr set \<Rightarrow> lock_sys \<Rightarrow> lock_sys \<Rightarrow> bool" where
  "released h R s s' \<longleftrightarrow>
     lock_heap s' = (\<lambda>r. if r \<in> R then clear_wait (rec_reset_nth_bit h (lock_heap s r)) else lock_heap s r)
   \<and> next_lock s' = next_lock s \<and> rec_locks s' = rec_locks s \<and> table_locks s' = table_locks s
   \<and> env_frame s s'
   \<and> (\<forall>t. trx_locks (ltrx_heap s' t) = trx_locks (ltrx_heap s t)
        \<and> wait_lock (ltrx_heap s' t) =
            (if cancels R s t then None else wait_lock (ltrx_heap s t))
        \<and> que_states s' t =
            (if cancels R s t then TRX_QUE_RUNNING else que_states s t))"

definition release_body :: "nat \<Rightarrow> lock_ptr \<Rightarrow> lock_sys \<Rightarrow> lock_sys option" where
  "release_body h p s =
    (if rec_is_nth_bit_set (lock_heap s p) h then
       if is_waiting (lock_heap s p) then rec_cancel p s else Some (upd_lock p (rec_reset_nth_bit h) s)
     else Some s)"

lemma reset_bit_flags [simp]:
  "is_waiting (rec_reset_nth_bit h l) = is_waiting l" "lock_mode (rec_reset_nth_bit h l) = lock_mode l"
  "lock_type (rec_reset_nth_bit h l) = lock_type l" "rec_is_gap (rec_reset_nth_bit h l) = rec_is_gap l"
  "rec_is_insert_intention (rec_reset_nth_bit h l) = rec_is_insert_intention l"
  by (simp_all add: is_waiting_def lock_mode_def lock_type_def rec_is_gap_def rec_is_insert_intention_def)

lemma one_bit_find:
  assumes "one_bit l" "rec_is_nth_bit_set l h"
  shows "rec_find_set_bit l = h"
  using assms rec_find_set_bit_unique unfolding one_bit_def by metis

lemma rec_cancel_total:
  assumes thrs: "wf_thrs s" and p: "is_waiting (lock_heap s p)" "one_bit (lock_heap s p)" "rec_is_nth_bit_set (lock_heap s p) h"
  shows "\<exists>s'. rec_cancel p s = Some s' \<and> released h {p} s s' \<and> wf_thrs s'"
proof -
  let ?t = "m_trx (lock_heap s p)"
  let ?s2 = "lock_reset p (upd_lock p (rec_reset_nth_bit h) s)"
  have "wf_thrs ?s2" using thrs by simp
  then obtain s' where s': "end_lock_wait ?t ?s2 = Some s'" "wait_ended ?t ?s2 s'" "wf_thrs s'"
    using end_lock_wait_total [of ?s2 ?t] by blast
  have "rec_cancel p s = Some s'"
    using s'(1) one_bit_find [OF p(2,3)] by (simp add: rec_cancel_def Let_def lock_reset_heap)
  moreover have "env_frame s s'" using s'(2) by (auto simp: wait_ended_def env_frame_def)
  moreover have "lock_heap s' = (\<lambda>r. if r \<in> {p} then clear_wait (rec_reset_nth_bit h (lock_heap s r)) else lock_heap s r)"
    using s'(2) by (simp add: wait_ended_def lock_frame_def lock_reset_heap fun_eq_iff)
  moreover have "que_states ?s2 = que_states s" by (simp add: que_states_def fun_eq_iff)
  ultimately have "released h {p} s s'"
    using s'(2) p(1) unfolding released_def wait_ended_def lock_frame_def by (simp add: cancels_def fun_eq_iff)
  then show ?thesis using \<open>rec_cancel p s = Some s'\<close> s'(3) by blast
qed

lemma release_step:
  assumes thrs: "wf_thrs s" and one: "is_waiting (lock_heap s p) \<Longrightarrow> one_bit (lock_heap s p)"
  shows "\<exists>s'. release_body h p s = Some s'
    \<and> released h (if rec_is_nth_bit_set (lock_heap s p) h then {p} else {}) s s' \<and> wf_thrs s'"
proof (cases "rec_is_nth_bit_set (lock_heap s p) h")
  case False
  then show ?thesis using thrs by (simp add: release_body_def released_def cancels_def)
next
  case True
  show ?thesis
  proof (cases "is_waiting (lock_heap s p)")
    case True
    then show ?thesis using rec_cancel_total [OF thrs _ one] \<open>rec_is_nth_bit_set (lock_heap s p) h\<close>
      by (simp add: release_body_def)
  next
    case False
    then have "released h {p} s (upd_lock p (rec_reset_nth_bit h) s)"
      by (auto simp: released_def cancels_def clear_wait_granted env_frame_def que_states_def fun_eq_iff)
    then show ?thesis using False True thrs by (simp add: release_body_def)
  qed
qed

lemma end_lock_wait_keeps:
  assumes "end_lock_wait t s = Some s'"
  shows "rec_locks s' = rec_locks s"
proof -
  have "end_wait_thrs t thrs s = Some s' \<Longrightarrow> rec_locks s' = rec_locks s" for t thrs s s'
  proof (induction thrs arbitrary: s)
    case (Cons thr thrs)
    then show ?case using move_to_run_frames(1) [of s thr]
      by (auto simp: que_thr_end_wait_no_next_thr_def ut_a_def lock_frame_def split: if_splits)
  qed simp
  then show ?thesis using assms by (fastforce simp: end_lock_wait_def bind_eq_Some_conv)
qed

lemma release_keeps: "release_body h p s = Some s' \<Longrightarrow> rec_locks s' = rec_locks s"
  by (auto simp: release_body_def rec_cancel_def Let_def dest: end_lock_wait_keeps split: if_splits)

lemma released_trans:
  assumes a: "released h R s s'" and b: "released h Q s' s''" and disj: "R \<inter> Q = {}"
  shows "released h (R \<union> Q) s s''"
proof -
  have heap: "lock_heap s' r = lock_heap s r" if "r \<in> Q" for r using a disj that by (auto simp: released_def)
  then have "cancels (R \<union> Q) s t \<longleftrightarrow> cancels R s t \<or> cancels Q s' t" for t by (auto simp: cancels_def)
  moreover have "lock_heap s'' = (\<lambda>r. if r \<in> R \<union> Q then clear_wait (rec_reset_nth_bit h (lock_heap s r)) else lock_heap s r)"
    using a b disj by (auto simp: released_def fun_eq_iff)
  moreover have "env_frame s s''" using a b env_frame_trans by (auto simp: released_def)
  ultimately show ?thesis using a b by (simp add: released_def)
qed

lemma release_for_each:
  assumes "distinct q" "wf_thrs s" "\<And>r. r \<in> set q \<Longrightarrow> is_waiting (lock_heap s r) \<Longrightarrow> one_bit (lock_heap s r)"
  shows "\<exists>s'. for_each (release_body h) q s = Some s'
    \<and> released h {r \<in> set q. rec_is_nth_bit_set (lock_heap s r) h} s s' \<and> wf_thrs s'"
  using assms
proof (induction q arbitrary: s)
  case Nil
  then show ?case by (simp add: released_def cancels_def)
next
  case (Cons p q)
  let ?P = "if rec_is_nth_bit_set (lock_heap s p) h then {p} else {}"
  obtain s1 where s1: "release_body h p s = Some s1" "released h ?P s s1" "wf_thrs s1"
    using release_step [of s p h] Cons.prems by auto
  have heap: "lock_heap s1 r = lock_heap s r" if "r \<in> set q" for r
    using s1(2) that Cons.prems(1) by (auto simp: released_def)
  have "distinct q" using Cons.prems(1) by simp
  moreover have "\<And>r. r \<in> set q \<Longrightarrow> is_waiting (lock_heap s1 r) \<Longrightarrow> one_bit (lock_heap s1 r)"
    using Cons.prems(3) heap by simp
  ultimately obtain s' where s': "for_each (release_body h) q s1 = Some s'"
    "released h {r \<in> set q. rec_is_nth_bit_set (lock_heap s1 r) h} s1 s'" "wf_thrs s'"
    using Cons.IH [of s1] s1(3) by blast
  have "{r \<in> set q. rec_is_nth_bit_set (lock_heap s1 r) h} = {r \<in> set q. rec_is_nth_bit_set (lock_heap s r) h}"
    using heap by auto
  then have "released h (?P \<union> {r \<in> set q. rec_is_nth_bit_set (lock_heap s r) h}) s s'"
    using released_trans [OF s1(2) s'(2)] Cons.prems(1) by auto
  moreover have "?P \<union> {r \<in> set q. rec_is_nth_bit_set (lock_heap s r) h} = {r \<in> set (p # q). rec_is_nth_bit_set (lock_heap s r) h}"
    by auto
  ultimately show ?case using s1(1) s'(1,3) by simp
qed

section \<open>The invariant\<close>

lemma released_queues:
  assumes "released h R s s'"
  shows "page_queue s' pg = page_queue s pg" "queued s' r = queued s r" "table_locks s' = table_locks s"
  using assms by (simp_all add: released_def page_queue_def queued_def)

lemma released_lock:
  assumes "released h R s s'"
  shows "m_trx (lock_heap s' r) = m_trx (lock_heap s r)" "m_page_id (lock_heap s' r) = m_page_id (lock_heap s r)"
    "m_object (lock_heap s' r) = m_object (lock_heap s r)" "rec_ok (lock_heap s' r) = rec_ok (lock_heap s r)"
    "table_ok (lock_heap s' r) = table_ok (lock_heap s r)" "lock_type (lock_heap s' r) = lock_type (lock_heap s r)"
    "is_waiting (lock_heap s' r) \<longleftrightarrow> is_waiting (lock_heap s r) \<and> r \<notin> R"
    "r \<notin> R \<Longrightarrow> lock_heap s' r = lock_heap s r"
    "has_to_wait_for l (lock_heap s' r) x = has_to_wait_for l (lock_heap s r) x"
  using assms has_to_wait_for_bits(2) by (simp_all add: released_def rec_ok_def table_ok_def)

lemma released_bits:
  assumes "released h R s s'" "wf_bitmap (lock_heap s r)"
  shows "rec_is_nth_bit_set (lock_heap s' r) j \<longleftrightarrow> rec_is_nth_bit_set (lock_heap s r) j \<and> (r \<in> R \<longrightarrow> j \<noteq> h)"
  using assms by (auto simp: released_def rec_reset_nth_bit_iff)

lemma released_wf:
  assumes wf: "wf_locks s" "wf_wait {} s" "wf_que s" and rel: "released h R s s'" and R: "R \<subseteq> {r. queued s r}"
  shows "wf_locks s'" "wf_wait {} s'" "wf_que s'"
proof -
  note q = released_queues [OF rel] and l = released_lock [OF rel]
  have wl: "wait_lock (ltrx_heap s' t) = (if cancels R s t then None else wait_lock (ltrx_heap s t))" for t
    using rel by (simp add: released_def)
  show "wf_locks s'" by (rule wf_locks_cong [OF wf(1)]) (use rel l in \<open>simp_all add: released_def\<close>)
  show "wf_que s'" using wf(3) rel by (fastforce simp: wf_que_def released_def que_states_def split: if_splits)
  have backp: "wait_lock (ltrx_heap s' (m_trx (lock_heap s' r))) = Some r" if "queued s' r" "is_waiting (lock_heap s' r)" for r
  proof -
    have r: "wait_lock (ltrx_heap s (m_trx (lock_heap s r))) = Some r" "r \<notin> R"
      using that wf(2) by (auto simp: q l wf_wait_def)
    have "\<not> cancels R s (m_trx (lock_heap s r))"
    proof
      assume "cancels R s (m_trx (lock_heap s r))"
      then obtain k where k: "k \<in> R" "is_waiting (lock_heap s k)" "m_trx (lock_heap s k) = m_trx (lock_heap s r)"
        by (auto simp: cancels_def)
      then have "queued s k" using R by blast
      then have "wait_lock (ltrx_heap s (m_trx (lock_heap s k))) = Some k" using k(2) wf(2) by (simp add: wf_wait_def)
      then show False using r k(1,3) by (metis option.inject)
    qed
    then show ?thesis using r wl by (simp add: l)
  qed
  have forth: "is_waiting (lock_heap s' r) \<and> m_trx (lock_heap s' r) = t \<and> queued s' r"
    if "wait_lock (ltrx_heap s' t) = Some r" for t r
  proof -
    have t: "wait_lock (ltrx_heap s t) = Some r" "\<not> cancels R s t" using that wl by (auto split: if_splits)
    then have "is_waiting (lock_heap s r)" "m_trx (lock_heap s r) = t" "queued s r" using wf(2) by (auto simp: wf_wait_def)
    then show ?thesis using t(2) by (auto simp: l q cancels_def)
  qed
  have "one_bit (lock_heap s' r)" if "r \<in> set (page_queue s' pg)" "is_waiting (lock_heap s' r)" for r pg
    using that wf(2) l(7,8) unfolding wf_wait_def q by metis
  then show "wf_wait {} s'" using backp forth unfolding wf_wait_def by blast
qed

lemma released_inv:
  assumes inv: "full_inv s" and R: "R = {r \<in> set (page_queue s pg). rec_is_nth_bit_set (lock_heap s r) h}"
    and rel: "released h R s s'" and thrs: "wf_thrs s'"
  shows "full_inv s'"
proof -
  have wf: "wf_locks s" "wf_wait {} s" "wf_que s" "queues_safe s" "queues_live s"
    using inv by (auto simp: full_inv_def lock_inv_def)
  note q = released_queues [OF rel] and l = released_lock [OF rel]
  have Rq: "R \<subseteq> {r. queued s r}" using wf_page_member(4) [OF wf(1)] by (auto simp: R)
  have bits: "rec_is_nth_bit_set (lock_heap s' r) j \<longleftrightarrow> rec_is_nth_bit_set (lock_heap s r) j \<and> (r \<in> R \<longrightarrow> j \<noteq> h)"
    if "r \<in> set (page_queue s pg')" for r j pg'
    using released_bits [OF rel] wf_page_member(3) [OF wf(1) that] by (simp add: rec_ok_def)
  have tbl: "tbl_locks s' tb = tbl_locks s tb" for tb
    using l(8) wf_page_member(8) [OF wf(1)] by (auto simp: tbl_locks_def q R)
  have free: "\<not> rec_is_nth_bit_set (lock_heap s' r) j" if "r \<in> R" "is_waiting (lock_heap s r)" for r j
  proof -
    have r: "r \<in> set (page_queue s pg)" "rec_is_nth_bit_set (lock_heap s r) h" using that(1) by (auto simp: R)
    then have "one_bit (lock_heap s r)" using that(2) wf(2) unfolding wf_wait_def by blast
    then show ?thesis using bits [OF r(1)] r(2) that(1) by (metis one_bit_def)
  qed
  have conf: "granted (lock_heap s b) \<and> rec_conflicts (lock_heap s a) (lock_heap s b)"
    if "a \<in> set (page_queue s pg')" "b \<in> set (page_queue s pg')" "granted (lock_heap s' b)"
      "rec_conflicts (lock_heap s' a) (lock_heap s' b)" for a b pg'
  proof -
    from that(4) obtain j where j: "rec_conflict j (lock_heap s' a) (lock_heap s' b)" by (auto simp: rec_conflicts_def)
    then have "rec_is_nth_bit_set (lock_heap s' b) j" by (simp add: rec_conflict_def)
    then have "granted (lock_heap s b)" using free that(3) l(7) by blast
    moreover have "rec_conflict j (lock_heap s a) (lock_heap s b)"
      using j bits [OF that(1)] bits [OF that(2)] rel
      by (auto simp: rec_conflict_def released_def split: if_splits)
    ultimately show ?thesis by (auto simp: rec_conflicts_def)
  qed
  have "queue_safe rec_conflicts granted (page_locks s' pg')" for pg'
    by (rule page_safe_mono [of s pg' s']) (use wf(1,4) q conf in \<open>auto simp: queues_safe_def wf_locks_def\<close>)
  then have safe: "queues_safe s'" using wf(4) tbl by (simp add: queues_safe_def)
  have "queue_live rec_waits granted (page_locks s' pg')" for pg'
  proof (rule queue_live_mono)
    show "queue_live rec_waits granted (page_locks s pg')" using wf(5) by (simp add: queues_live_def)
    show "length (page_locks s' pg') = length (page_locks s pg')" by (simp add: page_locks_def q)
    show "granted (page_locks s' pg' ! i)" if "i < length (page_locks s pg')" "granted (page_locks s pg' ! i)" for i
      using that l(7) by (simp add: page_locks_def q)
  next
    fix i j assume ij: "j < i" "i < length (page_locks s pg')" "\<not> granted (page_locks s' pg' ! i)"
      "rec_waits (page_locks s pg' ! i) (page_locks s pg' ! j)"
    let ?a = "page_queue s pg' ! i" and ?b = "page_queue s pg' ! j"
    have a: "is_waiting (lock_heap s ?a)" "?a \<notin> R" using ij l(7) by (auto simp: page_locks_def q)
    have mem: "?a \<in> set (page_queue s pg')" "?b \<in> set (page_queue s pg')" using ij by (auto simp: page_locks_def)
    obtain k where k: "rec_is_nth_bit_set (lock_heap s ?a) k" "rec_is_nth_bit_set (lock_heap s ?b) k"
      "has_to_wait_for (lock_heap s ?a) (lock_heap s ?b) k" using ij by (auto simp: page_locks_def rec_waits_def)
    have "\<not> (?b \<in> R \<and> k = h)"
    proof
      assume bk: "?b \<in> R \<and> k = h"
      then have b: "?b \<in> set (page_queue s pg)" by (simp add: R)
      have "pg' = pg" using wf_page_member(2) [OF wf(1) mem(2)] wf_page_member(2) [OF wf(1) b] by simp
      then show False using a(2) mem(1) k(1) bk by (simp add: R)
    qed
    then have "rec_is_nth_bit_set (lock_heap s' ?b) k" using bits [OF mem(2)] k(2) by blast
    then have "rec_waits (lock_heap s' ?a) (lock_heap s' ?b)" using k l(8,9) a(2) by (auto simp: rec_waits_def)
    then show "rec_waits (page_locks s' pg' ! i) (page_locks s' pg' ! j)" using ij by (simp add: page_locks_def q)
  qed
  then have "queues_live s'" using wf(5) tbl by (simp add: queues_live_def)
  then have linv: "lock_inv s'" using released_wf [OF wf(1-3) rel Rq] thrs safe by (simp add: lock_inv_def)
  have "waits_for s t u" if e: "waits_for s' t u" for t u
  proof -
    obtain w f where w: "wait_lock (ltrx_heap s' t) = Some w"
      and f: "f \<in> set (locks_ahead s' w (wait_heap_no (lock_heap s' w)))"
        "has_to_wait_for (lock_heap s' w) (lock_heap s' f) (wait_heap_no (lock_heap s' w))"
        "m_trx (lock_heap s' f) = u" using e by (auto simp: waits_for_def)
    have w0: "wait_lock (ltrx_heap s t) = Some w" using w rel by (auto simp: released_def split: if_splits)
    have "is_waiting (lock_heap s' w)" using w linv by (auto simp: lock_inv_def wf_wait_def)
    then have ww: "lock_heap s' w = lock_heap s w" using l(7,8) by blast
    have sub: "rec_is_nth_bit_set (lock_heap s r) x" if "r \<in> set (ahead w (page_queue s pg'))"
      "rec_is_nth_bit_set (lock_heap s' r) x" for r x pg'
      using that bits set_ahead by blast
    have "f \<in> set (locks_ahead s w (wait_heap_no (lock_heap s w)))"
      using f(1) ww sub by (auto simp: locks_ahead_def q split: if_splits)
    then show ?thesis using w0 f(2,3) ww l(1,9) by (auto simp: waits_for_def)
  qed
  moreover have "waiting_listed {} s'"
    using inv rel unfolding full_inv_def waiting_listed_def released_def env_frame_def by metis
  ultimately show ?thesis using inv linv acyclic_subset_waits unfolding full_inv_def by metis
qed

lemma rec_reset_and_release_wait_total:
  assumes inv: "full_inv s"
  shows "\<exists>s'. rec_reset_and_release_wait pg h s = Some s' \<and> full_inv s'
     \<and> released h {r \<in> set (page_queue s pg). rec_is_nth_bit_set (lock_heap s r) h} s s'
     \<and> (\<forall>r\<in>set (page_queue s' pg). \<not> rec_is_nth_bit_set (lock_heap s' r) h)"
proof -
  have wf: "wf_locks s" "wf_wait {} s" "wf_thrs s" using inv by (auto simp: full_inv_def lock_inv_def)
  have eq: "rec_reset_and_release_wait pg h s = queue_for (release_body h) pg 0 s"
    by (simp add: rec_reset_and_release_wait_def release_body_def [abs_def])
  have keep: "rec_locks s'' pg = rec_locks s' pg" if "release_body h r s' = Some s''" for r s' s''
    using release_keeps [OF that] by simp
  show ?thesis
  proof (cases "rec_locks s pg")
    case None
    then have "queue_for (release_body h) pg 0 s = Some s" by (subst queue_for.simps) simp
    then show ?thesis using None inv eq by (auto simp: page_queue_def released_def cancels_def)
  next
    case (Some q)
    then have pq: "page_queue s pg = q" by (simp add: page_queue_def)
    have "distinct q" using wf(1) pq by (auto simp: wf_locks_def)
    moreover have "one_bit (lock_heap s r)" if "r \<in> set q" "is_waiting (lock_heap s r)" for r
      using that wf(2) pq unfolding wf_wait_def by blast
    ultimately obtain s' where s': "for_each (release_body h) q s = Some s'"
      "released h {r \<in> set q. rec_is_nth_bit_set (lock_heap s r) h} s s'" "wf_thrs s'"
      using release_for_each [OF _ wf(3), of q h] by blast
    have "rec_reset_and_release_wait pg h s = Some s'"
      using queue_for_fixed [where body = "release_body h" and i = 0, OF keep Some] s'(1) eq by simp
    moreover have "full_inv s'" using released_inv [OF inv _ s'(2,3), of pg] pq by simp
    moreover have "\<not> rec_is_nth_bit_set (lock_heap s' r) h" if "r \<in> set (page_queue s' pg)" for r
      using that released_queues(1) [OF s'(2), of pg] released_bits [OF s'(2), of r h] wf_page_member(3) [OF wf(1), of r pg] pq
      by (simp add: rec_ok_def)
    ultimately show ?thesis using s'(2) pq by blast
  qed
qed

section \<open>Removing a record\<close>

lemma released_gap_locked:
  assumes rel: "released h R s s'" and wf: "wf_locks s" and g: "gap_locked s pg k trx mode" and k: "k \<noteq> h"
  shows "gap_locked s' pg k trx mode"
proof -
  from g obtain p where p: "p \<in> set (page_queue s pg)" "granted (lock_heap s p)" "m_trx (lock_heap s p) = trx"
    "rec_is_nth_bit_set (lock_heap s p) k" "lock_mode (lock_heap s p) = mode" "\<not> rec_is_not_gap (lock_heap s p)"
    "\<not> rec_is_insert_intention (lock_heap s p)" by (auto simp: gap_locked_def Let_def)
  have "rec_is_nth_bit_set (lock_heap s' p) k"
    using released_bits [OF rel] wf_page_member(3) [OF wf p(1)] p(4) k by (simp add: rec_ok_def)
  moreover have "lock_heap s' p = lock_heap s p \<or> lock_heap s' p = rec_reset_nth_bit h (lock_heap s p)"
    using rel p(2) by (auto simp: released_def clear_wait_granted)
  then have "m_type_mode (lock_heap s' p) = m_type_mode (lock_heap s p)" "m_trx (lock_heap s' p) = m_trx (lock_heap s p)"
    by auto
  ultimately show ?thesis using p released_queues(1) [OF rel, of pg]
    by (auto simp: gap_locked_def Let_def lock_flag_bits lock_mode_def intro!: bexI [of _ p])
qed

text \<open>The locks of \<open>heap_no\<close> that \<^verbatim>\<open>rec_inherit_to_gap\<close> leaves to the successor.\<close>

definition inherited :: "lock_sys \<Rightarrow> lock_t \<Rightarrow> nat \<Rightarrow> bool" where
  "inherited s l heap_no \<longleftrightarrow> rec_is_nth_bit_set l heap_no \<and> \<not> rec_is_insert_intention l \<and> lock_mode l = LOCK_X
     \<and> isolation_level (ltrx_heap s (m_trx l)) \<noteq> TRX_ISO_READ_COMMITTED"

lemma update_delete_total:
  assumes inv: "full_inv s" and blk: "block_ok block (next_heap_no block h)" and ne: "next_heap_no block h \<noteq> h"
  shows "\<exists>s'. update_delete block h s = Some s' \<and> full_inv s'
     \<and> (\<forall>r\<in>set (page_queue s' (b_page_id block)). \<not> rec_is_nth_bit_set (lock_heap s' r) h)
     \<and> (\<forall>r\<in>set (page_queue s (b_page_id block)). inherited s (lock_heap s r) h \<longrightarrow>
          gap_locked s' (b_page_id block) (next_heap_no block h) (m_trx (lock_heap s r)) LOCK_X)"
proof -
  let ?pg = "b_page_id block" and ?n = "next_heap_no block h"
  have ne': "?pg \<noteq> ?pg \<or> ?n \<noteq> h" using ne by simp
  obtain s1 where s1: "rec_inherit_to_gap block block ?n h s = Some s1" "full_inv s1"
    "\<forall>r\<in>set (page_queue s ?pg). inherited s (lock_heap s r) h \<longrightarrow> gap_locked s1 ?pg ?n (m_trx (lock_heap s r)) LOCK_X"
    using rec_inherit_to_gap_total [OF inv blk ne'] unfolding inherited_def by blast
  obtain s' where s': "rec_reset_and_release_wait ?pg h s1 = Some s'" "full_inv s'"
    "released h {r \<in> set (page_queue s1 ?pg). rec_is_nth_bit_set (lock_heap s1 r) h} s1 s'"
    "\<forall>r\<in>set (page_queue s' ?pg). \<not> rec_is_nth_bit_set (lock_heap s' r) h"
    using rec_reset_and_release_wait_total [OF s1(2), of ?pg h] by blast
  have wf: "wf_locks s1" using s1(2) by (simp add: full_inv_def lock_inv_def)
  have "update_delete block h s = Some s'" using s1(1) s'(1) by (simp add: update_delete_def)
  then show ?thesis using s1(3) s'(2,4) released_gap_locked [OF s'(3) wf _ ne] by blast
qed

section \<open>Freeing the locks of a discarded page\<close>

text \<open>
  \<^verbatim>\<open>rec_discard\<close> drops the whole queue of the page, so the second call for the same page finds
  none and aborts.
\<close>

lemma rec_free_all_two_locks:
  assumes "wf_locks s" "page_queue s pg = p # r # q"
  shows "rec_free_all_from_discard_page pg s = None"
proof -
  have "m_page_id (lock_heap s p) = pg" "m_page_id (lock_heap s r) = pg"
    using wf_page_member(2) [OF assms(1), of _ pg] assms(2) by auto
  then show ?thesis
    by (simp add: rec_free_all_from_discard_page_def assms(2) rec_discard_def Let_def ut_a_def)
qed

end
