(* ===== verification/Lock_Check.thy ===== *)
theory Lock_Check
  imports Lock_Discard
begin

text \<open>
  The entry points row operations call before they read, modify or insert a record.  Which
  transaction holds an implicit lock on a record is read from the record and the undo logs
  (\<^verbatim>\<open>clust_rec_some_has_impl\<close>, \<^verbatim>\<open>sec_rec_some_has_impl_off_kernel\<close>); that transaction is the
  argument \<open>impl_trx\<close> here.  The page's maximum transaction id is not in this state: a result
  component tells whether the call updates it.
\<close>

section \<open>Definitions\<close>

text \<open>The results are the error, the value stored in \<^verbatim>\<open>*inherit\<close> and whether the page's maximum transaction id is updated.\<close>

definition rec_insert_check_and_lock ::
  "ulint \<Rightarrow> lock_block \<Rightarrow> nat \<Rightarrow> nat \<Rightarrow> bool \<Rightarrow> thr_ptr \<Rightarrow> lock_sys \<Rightarrow> (lock_sys \<times> db_err \<times> bool option \<times> bool) option" where
  "rec_insert_check_and_lock flags block heap_no index is_clustered thr s =
    (if flags AND BTR_NO_LOCKING_FLAG \<noteq> 0 then Some (s, DB_SUCCESS, None, False)
     else let trx = thr_get_trx s thr; next_rec_heap_no = next_heap_no block heap_no in
       if rec_locks s (b_page_id block) = None then Some (s, DB_SUCCESS, Some False, \<not> is_clustered)
       else let type_mode = LOCK_X OR LOCK_GAP OR LOCK_INSERT_INTENTION in do {
         (s1, err) \<leftarrow> (if rec_other_has_conflicting s (b_page_id block) type_mode next_rec_heap_no trx \<noteq> None
                      then rec_enqueue_waiting type_mode block next_rec_heap_no index thr s
                      else Some (s, DB_SUCCESS));
         Some (s1, err, Some True, err = DB_SUCCESS \<and> \<not> is_clustered) })"

definition rec_convert_impl_to_expl ::
  "ltrx_ptr option \<Rightarrow> lock_block \<Rightarrow> nat \<Rightarrow> nat \<Rightarrow> lock_sys \<Rightarrow> lock_sys" where
  "rec_convert_impl_to_expl impl_trx block heap_no index s =
    (case impl_trx of
       None \<Rightarrow> s
     | Some trx \<Rightarrow>
         let type_mode = LOCK_X OR LOCK_REC_NOT_GAP in
         if rec_has_expl s (b_page_id block) type_mode heap_no trx = None
         then fst (rec_add_to_queue type_mode block heap_no index trx s) else s)"

definition clust_rec_modify_check_and_lock ::
  "ulint \<Rightarrow> ltrx_ptr option \<Rightarrow> lock_block \<Rightarrow> nat \<Rightarrow> nat \<Rightarrow> thr_ptr \<Rightarrow> lock_sys \<Rightarrow> (lock_sys \<times> db_err) option" where
  "clust_rec_modify_check_and_lock flags impl_trx block heap_no index thr s =
    (if flags AND BTR_NO_LOCKING_FLAG \<noteq> 0 then Some (s, DB_SUCCESS)
     else rec_lock True (LOCK_X OR LOCK_REC_NOT_GAP) block heap_no index thr
            (rec_convert_impl_to_expl impl_trx block heap_no index s))"

definition sec_rec_modify_check_and_lock ::
  "ulint \<Rightarrow> lock_block \<Rightarrow> nat \<Rightarrow> nat \<Rightarrow> thr_ptr \<Rightarrow> lock_sys \<Rightarrow> (lock_sys \<times> db_err \<times> bool) option" where
  "sec_rec_modify_check_and_lock flags block heap_no index thr s =
    (if flags AND BTR_NO_LOCKING_FLAG \<noteq> 0 then Some (s, DB_SUCCESS, False)
     else do {
       (s1, err) \<leftarrow> rec_lock True (LOCK_X OR LOCK_REC_NOT_GAP) block heap_no index thr s;
       Some (s1, err, err = DB_SUCCESS) })"

text \<open>
  \<open>may_be_impl\<close> is the test of the page's maximum transaction id against the smallest active one.
\<close>

definition sec_rec_read_check_and_lock ::
  "ulint \<Rightarrow> bool \<Rightarrow> ltrx_ptr option \<Rightarrow> lock_block \<Rightarrow> nat \<Rightarrow> nat \<Rightarrow> lock_type_t \<Rightarrow> lock_type_t \<Rightarrow> thr_ptr \<Rightarrow> lock_sys
     \<Rightarrow> (lock_sys \<times> db_err) option" where
  "sec_rec_read_check_and_lock flags may_be_impl impl_trx block heap_no index mode gap_mode thr s =
    (if flags AND BTR_NO_LOCKING_FLAG \<noteq> 0 then Some (s, DB_SUCCESS)
     else rec_lock False (mode OR gap_mode) block heap_no index thr
            (if may_be_impl \<and> heap_no \<noteq> PAGE_HEAP_NO_SUPREMUM
             then rec_convert_impl_to_expl impl_trx block heap_no index s else s))"

definition clust_rec_read_check_and_lock ::
  "ulint \<Rightarrow> ltrx_ptr option \<Rightarrow> lock_block \<Rightarrow> nat \<Rightarrow> nat \<Rightarrow> lock_type_t \<Rightarrow> lock_type_t \<Rightarrow> thr_ptr \<Rightarrow> lock_sys
     \<Rightarrow> (lock_sys \<times> db_err) option" where
  "clust_rec_read_check_and_lock flags impl_trx block heap_no index mode gap_mode thr s =
    (if flags AND BTR_NO_LOCKING_FLAG \<noteq> 0 then Some (s, DB_SUCCESS)
     else rec_lock False (mode OR gap_mode) block heap_no index thr
            (if heap_no \<noteq> PAGE_HEAP_NO_SUPREMUM
             then rec_convert_impl_to_expl impl_trx block heap_no index s else s))"

section \<open>Implicit locks made explicit\<close>

lemma not_gap_mode_ok: "rec_mode_ok (LOCK_X OR LOCK_REC_NOT_GAP)"
  by (simp add: rec_mode_ok_def lock_flag_defs)

text \<open>
  An implicit lock is in order when no other transaction holds or waits for a conflicting lock
  before it becomes explicit.
\<close>

definition impl_ok :: "lock_sys \<Rightarrow> lock_block \<Rightarrow> nat \<Rightarrow> ltrx_ptr option \<Rightarrow> bool" where
  "impl_ok s block heap_no impl_trx = (case impl_trx of None \<Rightarrow> True | Some trx \<Rightarrow>
     rec_has_expl s (b_page_id block) (LOCK_X OR LOCK_REC_NOT_GAP) heap_no trx \<noteq> None
     \<or> rec_other_has_conflicting s (b_page_id block) (LOCK_X OR LOCK_REC_NOT_GAP) heap_no trx = None)"

lemma convert_impl_total:
  assumes inv: "full_inv s" and blk: "block_ok block h" and impl: "impl_ok s block h impl_trx"
  shows "added s (rec_convert_impl_to_expl impl_trx block h index s)"
    "\<And>trx. impl_trx = Some trx \<Longrightarrow> rec_has_expl (rec_convert_impl_to_expl impl_trx block h index s)
       (b_page_id block) (LOCK_X OR LOCK_REC_NOT_GAP) h trx \<noteq> None"
proof -
  let ?m = "LOCK_X OR LOCK_REC_NOT_GAP" and ?pg = "b_page_id block"
  have linv: "lock_inv s" and wf: "wf_locks s" using inv by (simp_all add: full_inv_def lock_inv_def)
  have m: "unat (?m AND LOCK_MODE_MASK) < 4" "\<not> bit ?m 8" "\<not> bit ?m 11" using not_gap_mode_ok by (auto simp: rec_mode_ok_def)
  have add: "added s (fst (rec_add_to_queue ?m block h index trx s))
    \<and> rec_has_expl (fst (rec_add_to_queue ?m block h index trx s)) ?pg ?m h trx \<noteq> None"
    if "rec_other_has_conflicting s ?pg ?m h trx = None" for trx
    using rec_add_granted [OF linv blk m(1,2) no_conflicting_free [OF wf m(1) that], of index]
      holds_lock_expl [OF _ m(1,3)] by blast
  show "added s (rec_convert_impl_to_expl impl_trx block h index s)"
    using add impl added_refl [OF linv] unfolding rec_convert_impl_to_expl_def impl_ok_def Let_def
    by (auto split: option.splits)
  show "rec_has_expl (rec_convert_impl_to_expl impl_trx block h index s) ?pg ?m h trx \<noteq> None"
    if "impl_trx = Some trx" for trx
  proof (cases "rec_has_expl s ?pg ?m h trx = None")
    case True
    then have "rec_other_has_conflicting s ?pg ?m h trx = None" using impl that by (simp add: impl_ok_def)
    then show ?thesis using add [of trx] True that by (simp add: rec_convert_impl_to_expl_def)
  next
    case False
    then show ?thesis using that by (auto simp: rec_convert_impl_to_expl_def Let_def)
  qed
qed

lemma added_may_request:
  assumes "added s s'" "may_request thr s"
  shows "may_request thr s'" "thr_get_trx s' thr = thr_get_trx s thr"
proof -
  show trx: "thr_get_trx s' thr = thr_get_trx s thr" using assms(1) thr_get_trx_frame unfolding added_def by blast
  have same: "thr_heap s' = thr_heap s" "fork_heap s' = fork_heap s" "ltrx_list s' = ltrx_list s"
    "\<And>t. error_state (ltrx_heap s' t) = error_state (ltrx_heap s t)" "\<And>t. signals (ltrx_heap s' t) = signals (ltrx_heap s t)"
    "\<And>t. wait_lock (ltrx_heap s' t) = wait_lock (ltrx_heap s t)"
    "\<And>t. trx_que_state (ltrx_heap s' t) = trx_que_state (ltrx_heap s t)"
    using assms(1) by (simp_all add: added_def env_frame_def que_states_def)
  have "snd (que_thr_stop thr s') = snd (que_thr_stop thr s)" by (simp add: que_thr_stop_def Let_def same)
  then show "may_request thr s'" using assms(2) trx same unfolding may_request_def by simp
qed

lemma rec_lock_added_total:
  assumes inv: "full_inv s" and thr: "may_request thr s" and a: "added s s1" and blk: "block_ok block h" "rec_mode_ok mode"
  shows "\<exists>s' e. rec_lock impl mode block h index thr s1 = Some (s', e)
    \<and> request_outcome (\<lambda>s'. rec_secured impl s' (b_page_id block) mode h (thr_get_trx s thr)) (thr_get_trx s thr) s' e"
  using rec_lock_total [OF added_full_inv [OF inv a] added_may_request(1) [OF a thr] blk, of impl index]
  by (simp add: added_may_request(2) [OF a thr])

lemma clust_rec_modify_total:
  assumes inv: "full_inv s" and thr: "may_request thr s" and blk: "block_ok block h" and impl: "impl_ok s block h impl_trx"
  shows "\<exists>s' e. clust_rec_modify_check_and_lock 0 impl_trx block h index thr s = Some (s', e)
    \<and> request_outcome (\<lambda>s'. rec_secured True s' (b_page_id block) (LOCK_X OR LOCK_REC_NOT_GAP) h (thr_get_trx s thr))
        (thr_get_trx s thr) s' e"
  using rec_lock_added_total [OF inv thr convert_impl_total(1) [OF inv blk impl, of index] blk not_gap_mode_ok, of True index]
  by (simp add: clust_rec_modify_check_and_lock_def)

lemma clust_rec_read_total:
  assumes inv: "full_inv s" and thr: "may_request thr s" and blk: "block_ok block h" "rec_mode_ok (mode OR gap_mode)"
    and impl: "impl_ok s block h impl_trx"
  shows "\<exists>s' e. clust_rec_read_check_and_lock 0 impl_trx block h index mode gap_mode thr s = Some (s', e)
    \<and> request_outcome (\<lambda>s'. rec_secured False s' (b_page_id block) (mode OR gap_mode) h (thr_get_trx s thr))
        (thr_get_trx s thr) s' e"
proof -
  have "added s (if h \<noteq> PAGE_HEAP_NO_SUPREMUM then rec_convert_impl_to_expl impl_trx block h index s else s)"
    using convert_impl_total(1) [OF inv blk(1) impl] added_refl inv by (simp add: full_inv_def)
  from rec_lock_added_total [OF inv thr this blk, of False index] show ?thesis
    by (simp add: clust_rec_read_check_and_lock_def)
qed

section \<open>Inserts\<close>

text \<open>An insert goes ahead only into a gap no other transaction locks, or with a granted insert-intention lock.\<close>

definition insert_secured :: "lock_sys \<Rightarrow> page_id \<Rightarrow> nat \<Rightarrow> ltrx_ptr \<Rightarrow> bool" where
  "insert_secured s pg next_rec trx \<longleftrightarrow>
     rec_other_has_conflicting s pg insert_intention_mode next_rec trx = None
     \<or> (\<exists>p. holds_lock s pg insert_intention_mode next_rec trx p)"

lemma rec_insert_check_total:
  assumes inv: "full_inv s" and thr: "may_request thr s" and blk: "block_ok block (next_heap_no block h)"
  shows "\<exists>s' e inh upd. rec_insert_check_and_lock 0 block h index clustered thr s = Some (s', e, Some inh, upd)
    \<and> request_outcome (\<lambda>s'. insert_secured s' (b_page_id block) (next_heap_no block h) (thr_get_trx s thr)) (thr_get_trx s thr) s' e
    \<and> (inh \<longleftrightarrow> rec_locks s (b_page_id block) \<noteq> None) \<and> (upd \<longleftrightarrow> e = DB_SUCCESS \<and> \<not> clustered)"
proof -
  let ?pg = "b_page_id block" and ?n = "next_heap_no block h" and ?trx = "thr_get_trx s thr"
  let ?m = "LOCK_X OR LOCK_GAP OR LOCK_INSERT_INTENTION"
  have linv: "lock_inv s" using inv by (simp add: full_inv_def)
  have ok: "request_outcome held ?trx s DB_SUCCESS" if "held s" for held
    using success_outcome [OF inv thr added_refl [OF linv], of held] that by blast
  consider (none) "rec_locks s ?pg = None"
    | (free) "rec_locks s ?pg \<noteq> None" "rec_other_has_conflicting s ?pg ?m ?n ?trx = None"
    | (wait) "rec_locks s ?pg \<noteq> None" "rec_other_has_conflicting s ?pg ?m ?n ?trx \<noteq> None" by blast
  then show ?thesis
  proof cases
    case none
    then have "insert_secured s ?pg ?n ?trx" by (simp add: insert_secured_def rec_other_has_conflicting_def page_queue_def)
    then show ?thesis using none ok by (auto simp: rec_insert_check_and_lock_def Let_def)
  next
    case free
    then have "insert_secured s ?pg ?n ?trx" by (simp add: insert_secured_def insert_intention_mode_def)
    then show ?thesis using free ok by (auto simp: rec_insert_check_and_lock_def Let_def)
  next
    case wait
    then obtain r where r: "r \<in> set (page_queue s ?pg)" "rec_is_nth_bit_set (lock_heap s r) ?n"
      "rec_blocks (lock_heap s r) ?trx ?m (?n = PAGE_HEAP_NO_SUPREMUM)"
      by (auto simp: rec_other_has_conflicting_def dest: find_SomeD)
    have m: "unat (?m AND LOCK_MODE_MASK) < 4" by (simp add: lock_flag_defs)
    obtain s' e where s': "rec_enqueue_waiting ?m block ?n index thr s = Some (s', e)"
      "request_outcome (\<lambda>s'. \<exists>p. holds_lock s' ?pg ?m ?n ?trx p) ?trx s' e"
      using rec_enqueue_waiting_total [OF inv thr blk m r, of index] by blast
    then have "request_outcome (\<lambda>s'. insert_secured s' ?pg ?n ?trx) ?trx s' e"
      by (auto simp: request_outcome_def insert_secured_def insert_intention_mode_def)
    moreover have "rec_insert_check_and_lock 0 block h index clustered thr s
        = Some (s', e, Some True, e = DB_SUCCESS \<and> \<not> clustered)"
      using wait s'(1) by (simp add: rec_insert_check_and_lock_def Let_def)
    ultimately show ?thesis using wait(1)
      by (intro exI [of _ s'] exI [of _ e] exI [of _ True] exI [of _ "e = DB_SUCCESS \<and> \<not> clustered"]) simp
  qed
qed

end
