(* ===== verification/Lock_Reach.thy ===== *)
theory Lock_Reach
  imports Lock_Check
begin

text \<open>
  The lock system as a transition system.  Every operation runs under the kernel mutex, so the
  steps are whole operations; \<^verbatim>\<open>release_off_kernel\<close> may let go of the mutex between two locks, so
  it is a sequence of steps, one for each lock.  What the rest of the engine does to transactions
  and query threads between them is the step \<open>client_step\<close>.

  Not among the steps are \<^verbatim>\<open>rec_move\<close> and the operations built on it (page splits to the right,
  page copies, root raises, storing and restoring the locks of a record): theory \<open>Lock_Moves\<close> shows
  that it breaks mutual exclusion.  Neither are the discarding of a page's locks, which the theory
  shows to abort, and \<^verbatim>\<open>remove_all_on_table_for_trx\<close>, which discards record locks in the same way;
  nor page reorganisation and the moves of record lists, for which nothing is proved yet.

  The invariant holds in every reachable state.  The properties of the lock system follow: no two
  transactions hold conflicting locks, every waiting request waits for one ahead of it, and the
  waits-for graph has no cycle, so every waiting transaction waits for one that can run.
\<close>

section \<open>Definitions\<close>

definition lock_init :: "lock_sys \<Rightarrow> bool" where
  "lock_init s \<longleftrightarrow> (\<forall>pg. rec_locks s pg = None) \<and> (\<forall>tb. table_locks s tb = [])
     \<and> (\<forall>t. trx_locks (ltrx_heap s t) = [] \<and> wait_lock (ltrx_heap s t) = None
          \<and> wait_thrs (ltrx_heap s t) = [] \<and> trx_que_state (ltrx_heap s t) \<noteq> TRX_QUE_LOCK_WAIT)"

text \<open>
  The engine starts and ends transactions and runs query threads.  It leaves the locks alone, keeps
  a transaction that waits in the transaction list, and does not touch the threads that wait.
\<close>

definition client_step :: "lock_sys \<Rightarrow> lock_sys \<Rightarrow> bool" where
  "client_step s s' \<longleftrightarrow> lock_frame s s'
     \<and> (\<forall>t. wait_lock (ltrx_heap s t) \<noteq> None \<longrightarrow> t \<in> set (ltrx_list s'))
     \<and> (\<forall>t. trx_que_state (ltrx_heap s' t) = TRX_QUE_LOCK_WAIT \<longleftrightarrow> trx_que_state (ltrx_heap s t) = TRX_QUE_LOCK_WAIT)
     \<and> (\<forall>t. wait_thrs (ltrx_heap s' t) = wait_thrs (ltrx_heap s t))
     \<and> (\<forall>t. \<forall>thr\<in>set (wait_thrs (ltrx_heap s t)).
          thr_state (thr_heap s' thr) = thr_state (thr_heap s thr) \<and> thr_get_trx s' thr = thr_get_trx s thr)"

inductive lock_step :: "lock_sys \<Rightarrow> lock_sys \<Rightarrow> bool" where
  client: "client_step s s' \<Longrightarrow> lock_step s s'"
| rec_lock: "may_request thr s \<Longrightarrow> block_ok block h \<Longrightarrow> rec_mode_ok mode \<Longrightarrow>
    rec_lock impl mode block h index thr s = Some (s', e) \<Longrightarrow> lock_step s s'"
| lock_table: "may_request thr s \<Longrightarrow> unat mode < 4 \<Longrightarrow> lock_table 0 table mode thr s = Some (s', e) \<Longrightarrow> lock_step s s'"
| insert_check: "may_request thr s \<Longrightarrow> block_ok block (next_heap_no block h) \<Longrightarrow>
    rec_insert_check_and_lock 0 block h index clustered thr s = Some (s', e, inh, upd) \<Longrightarrow> lock_step s s'"
| convert_impl: "block_ok block h \<Longrightarrow> impl_ok s block h impl_trx \<Longrightarrow>
    lock_step s (rec_convert_impl_to_expl impl_trx block h index s)"
| release: "wait_lock (ltrx_heap s t) = None \<Longrightarrow> trx_locks (ltrx_heap s t) \<noteq> [] \<Longrightarrow>
    lock_dequeue (last (trx_locks (ltrx_heap s t))) s = Some s' \<Longrightarrow> lock_step s s'"
| cancel: "wait_lock (ltrx_heap s t) = Some p \<Longrightarrow> cancel_waiting_and_release p s = Some s' \<Longrightarrow> lock_step s s'"
| rec_unlock: "wait_lock (ltrx_heap s t) = None \<Longrightarrow> rec_locks s (b_page_id block) \<noteq> None \<Longrightarrow>
    rec_unlock t block h mode s = Some s' \<Longrightarrow> lock_step s s'"
| update_insert: "block_ok block h \<Longrightarrow> next_heap_no block h \<noteq> h \<Longrightarrow> update_insert block h s = Some s' \<Longrightarrow> lock_step s s'"
| update_delete: "block_ok block (next_heap_no block h) \<Longrightarrow> next_heap_no block h \<noteq> h \<Longrightarrow>
    update_delete block h s = Some s' \<Longrightarrow> lock_step s s'"
| inherit: "block_ok heir h \<Longrightarrow> b_page_id heir \<noteq> b_page_id block \<or> h \<noteq> heap_no \<Longrightarrow>
    rec_inherit_to_gap heir block h heap_no s = Some s' \<Longrightarrow> lock_step s s'"
| reset_record: "rec_reset_and_release_wait pg h s = Some s' \<Longrightarrow> lock_step s s'"

inductive_cases lock_stepE: "lock_step s s'"

inductive lock_reachable :: "lock_sys \<Rightarrow> bool" where
  init: "lock_init s \<Longrightarrow> lock_reachable s"
| step: "lock_reachable s \<Longrightarrow> lock_step s s' \<Longrightarrow> lock_reachable s'"

section \<open>The invariant holds in every reachable state\<close>

lemma lock_init_inv:
  assumes "lock_init s"
  shows "full_inv s"
proof -
  have pq: "page_queue s pg = []" for pg using assms by (simp add: lock_init_def page_queue_def)
  then have q: "\<not> queued s p" for p using assms by (simp add: queued_def lock_init_def)
  have "waits_for_rel s = {}" using assms by (auto simp: waits_for_rel_def waits_for_def lock_init_def)
  then show ?thesis using assms pq q
    by (simp add: full_inv_def lock_inv_def wf_locks_def wf_wait_def wf_que_def wf_thrs_def queues_safe_def
        queues_live_def page_locks_def tbl_locks_def queue_safe_def waiting_listed_def lock_init_def acyclic_def)
qed

lemma client_step_inv:
  assumes "client_step s s'" "full_inv s"
  shows "full_inv s'"
proof -
  have fr: "lock_frame s s'" using assms(1) by (simp add: client_step_def)
  note same = lock_frame_inv [OF fr]
  have f: "lock_heap s' = lock_heap s" "table_locks s' = table_locks s"
    "\<And>t. wait_lock (ltrx_heap s' t) = wait_lock (ltrx_heap s t)" using fr by (simp_all add: lock_frame_def)
  have "locks_ahead s' = locks_ahead s" by (simp add: fun_eq_iff locks_ahead_def same(6) f)
  then have wf: "waits_for_rel s' = waits_for_rel s" by (simp add: waits_for_rel_def waits_for_def f)
  have "wf_que s'" using assms by (simp add: full_inv_def lock_inv_def wf_que_def client_step_def f)
  moreover have "wf_thrs s'"
    using assms by (simp add: full_inv_def lock_inv_def wf_thrs_def client_step_def)
  moreover have "waiting_listed {} s'"
    using assms by (simp add: full_inv_def waiting_listed_def client_step_def que_states_def f)
  ultimately show ?thesis using assms(2) same(1-4) wf by (simp add: full_inv_def lock_inv_def)
qed

lemma granted_of_runner:
  assumes "full_inv s" "wait_lock (ltrx_heap s t) = None" "p \<in> set (trx_locks (ltrx_heap s t))"
  shows "queued s p" "granted (lock_heap s p)"
proof -
  have wf: "wf_locks s" "wf_wait {} s" using assms(1) by (auto simp: full_inv_def lock_inv_def)
  then show "queued s p" using trx_locks_iff assms(3) by blast
  then show "granted (lock_heap s p)" using wf trx_locks_iff assms(2,3) by (auto simp: wf_wait_def)
qed

lemma lock_step_inv:
  assumes "lock_step s s'" "full_inv s"
  shows "full_inv s'"
  using assms
proof (induction rule: lock_step.induct)
  case (client s s')
  then show ?case using client_step_inv by blast
next
  case (rec_lock thr s block h mode impl index s' e)
  then show ?case using rec_lock_total [of s thr block h mode impl index] by (auto simp: request_outcome_def)
next
  case (lock_table thr s mode table s' e)
  then show ?case using lock_table_total [of s thr mode table] by (auto simp: request_outcome_def)
next
  case (insert_check thr s block h index clustered s' e inh upd)
  then show ?case using rec_insert_check_total [of s thr block h index clustered] by (auto simp: request_outcome_def)
next
  case (convert_impl block h s impl_trx index)
  then show ?case using convert_impl_total(1) [of s block h impl_trx index] added_full_inv by blast
next
  case (release s t s')
  define p where "p = last (trx_locks (ltrx_heap s t))"
  have p: "queued s p" "granted (lock_heap s p)"
    using granted_of_runner [OF release.prems release.hyps(1), of p] release.hyps(2) by (simp_all add: p_def)
  have inv: "lock_inv s" "wf_locks s" using release.prems by (auto simp: full_inv_def lock_inv_def)
  obtain s1 where s1: "lock_dequeue p s = Some s1" "dequeued p s s1" using lock_dequeue_total [OF inv(1) p(1)] .
  then have "s' = s1" using release.hyps(3) by (simp add: p_def)
  then show ?case using evolved_full_inv [OF release.prems dequeued_granted_inv [OF inv(1) s1(2) p(2)]]
      shrunk_evolved [OF inv(2) dequeued_shrunk [OF s1(2)]] by blast
next
  case (cancel s t p s')
  have inv: "lock_inv s" "wf_locks s" using cancel.prems by (auto simp: full_inv_def lock_inv_def)
  have p: "queued s p" "is_waiting (lock_heap s p)" using inv(1) cancel.hyps(1) by (auto simp: lock_inv_def wf_wait_def)
  obtain s1 where s1: "cancel_waiting_and_release p s = Some s1" "cancelled p s s1" using cancel_waiting_total [OF inv(1) p] .
  then have "s' = s1" using cancel.hyps(2) by simp
  then show ?case using evolved_full_inv [OF cancel.prems] shrunk_evolved [OF inv(2)] s1(2) by (auto simp: cancelled_def)
next
  case (rec_unlock s t block h mode s')
  then show ?case using rec_unlock_total [of s t block h mode] by auto
next
  case (update_insert block h s s')
  then show ?case using update_insert_total [of s block h] by auto
next
  case (update_delete block h s s')
  then show ?case using update_delete_total [of s block h] by auto
next
  case (inherit heir h block heap_no s s')
  then show ?case using rec_inherit_to_gap_total [of s heir h block heap_no] by auto
next
  case (reset_record pg h s s')
  then show ?case using rec_reset_and_release_wait_total [of s pg h] by auto
qed

lemma lock_reachable_inv: "lock_reachable s \<Longrightarrow> full_inv s"
  by (induction rule: lock_reachable.induct) (auto intro: lock_init_inv lock_step_inv)

section \<open>Who waits for whom\<close>

lemma ahead_split: "p \<notin> set xs \<Longrightarrow> ahead p (xs @ p # ys) = xs"
  by (induction xs) (auto simp: ahead_def)

text \<open>A waiting record request is blocked by a request ahead of it on the record it waits for.\<close>

lemma waiting_blocked_page:
  assumes inv: "full_inv s" and p: "p \<in> set (page_queue s pg)" "is_waiting (lock_heap s p)"
  shows "\<exists>r\<in>set (locks_ahead s p (wait_heap_no (lock_heap s p))).
    has_to_wait_for (lock_heap s p) (lock_heap s r) (wait_heap_no (lock_heap s p))"
proof -
  have wf: "wf_locks s" "wf_wait {} s" "queues_live s" using inv by (auto simp: full_inv_def lock_inv_def)
  note mem = wf_page_member [OF wf(1) p(1)]
  obtain xs ys where q: "page_queue s pg = xs @ p # ys" "p \<notin> set xs" using p(1) by (meson split_list_first)
  have "queue_live rec_waits granted (map (lock_heap s) (xs @ p # ys))"
    using wf(3) q(1) unfolding queues_live_def page_locks_def by metis
  then obtain a where a: "a \<in> set xs" "rec_waits (lock_heap s p) (lock_heap s a)" using p(2) by (auto simp: queue_live_from_append)
  then obtain h where h: "rec_is_nth_bit_set (lock_heap s p) h" "rec_is_nth_bit_set (lock_heap s a) h"
    "has_to_wait_for (lock_heap s p) (lock_heap s a) h" by (auto simp: rec_waits_def)
  have "one_bit (lock_heap s p)" using wf(2) p unfolding wf_wait_def by blast
  then have "wait_heap_no (lock_heap s p) = h" using one_bit_find [OF _ h(1)] mem(3) by (simp add: wait_heap_no_def rec_ok_def)
  moreover have "a \<in> set (locks_ahead s p h)"
    using a(1) h(2) mem(2,3) q by (simp add: locks_ahead_def rec_ok_def ahead_split)
  ultimately show ?thesis using h(3) by blast
qed

lemma waiting_blocked_table:
  assumes inv: "full_inv s" and p: "p \<in> set (table_locks s tb)" "is_waiting (lock_heap s p)"
  shows "\<exists>r\<in>set (locks_ahead s p (wait_heap_no (lock_heap s p))).
    has_to_wait_for (lock_heap s p) (lock_heap s r) (wait_heap_no (lock_heap s p))"
proof -
  have wf: "wf_locks s" "queues_live s" using inv by (auto simp: full_inv_def lock_inv_def)
  note mem = wf_table_member [OF wf(1) p(1)]
  obtain xs ys where q: "table_locks s tb = xs @ p # ys" "p \<notin> set xs" using p(1) by (meson split_list_first)
  have "queue_live table_waits granted (map (lock_heap s) (xs @ p # ys))"
    using wf(2) q(1) unfolding queues_live_def tbl_locks_def by metis
  then obtain a where a: "a \<in> set xs" "table_waits (lock_heap s p) (lock_heap s a)" using p(2) by (auto simp: queue_live_from_append)
  have type: "lock_type (lock_heap s p) \<noteq> LOCK_REC" using mem(3) by (simp add: table_ok_def lock_flag_defs)
  then have "a \<in> set (locks_ahead s p h)" for h using a(1) mem(2) q by (simp add: locks_ahead_def ahead_split)
  then show ?thesis using a(2) type by (auto simp: table_waits_def wait_heap_no_def)
qed

lemma waiting_has_edge:
  assumes inv: "full_inv s" and t: "wait_lock (ltrx_heap s t) = Some p"
  shows "\<exists>u. waits_for s t u"
proof -
  have p: "queued s p" "is_waiting (lock_heap s p)" using inv t by (auto simp: full_inv_def lock_inv_def wf_wait_def)
  then have "\<exists>r\<in>set (locks_ahead s p (wait_heap_no (lock_heap s p))).
    has_to_wait_for (lock_heap s p) (lock_heap s r) (wait_heap_no (lock_heap s p))"
    using waiting_blocked_page [OF inv] waiting_blocked_table [OF inv] unfolding queued_def by blast
  then show ?thesis using t by (auto simp: waits_for_def)
qed

lemma finite_waits_for:
  assumes "full_inv s"
  shows "finite (waits_for_rel s)"
proof -
  have wf: "wf_locks s" "wf_wait {} s" using assms by (auto simp: full_inv_def lock_inv_def)
  let ?T = "(\<lambda>r. m_trx (lock_heap s r)) ` {r. queued s r}"
  have "t \<in> ?T \<and> u \<in> ?T" if "waits_for s t u" for t u
    using that wf(2) locks_ahead_queued by (fastforce simp: waits_for_def wf_wait_def)
  then have "waits_for_rel s \<subseteq> ?T \<times> ?T" by (auto simp: waits_for_rel_def)
  then show ?thesis using finite_queued [OF wf(1)] finite_subset by blast
qed

lemma waits_for_runner:
  assumes inv: "full_inv s" and t: "wait_lock (ltrx_heap s t) \<noteq> None"
  shows "\<exists>u. (t, u) \<in> (waits_for_rel s)\<^sup>+ \<and> wait_lock (ltrx_heap s u) = None"
proof -
  have "wf ((waits_for_rel s)\<inverse>)"
    using finite_acyclic_wf_converse [OF finite_waits_for [OF inv]] inv by (simp add: full_inv_def)
  then show ?thesis using t
  proof (induction t rule: wf_induct_rule)
    case (less t)
    obtain u where u: "(t, u) \<in> waits_for_rel s"
      using waiting_has_edge [OF inv] less.prems by (auto simp: waits_for_rel_def)
    show ?case
    proof (cases "wait_lock (ltrx_heap s u) = None")
      case False
      then obtain v where "(u, v) \<in> (waits_for_rel s)\<^sup>+" "wait_lock (ltrx_heap s v) = None"
        using less.IH [of u] u by auto
      then show ?thesis using u by (meson trancl_into_trancl2)
    qed (use u in blast)
  qed
qed

end
