(* ===== verification/Lock_Props.thy ===== *)
theory Lock_Props
  imports Lock_Reach "HOL-Library.Code_Target_Nat"
begin

text \<open>
  The properties of the lock system, each with a concrete state in which it applies: transaction 1
  holds an exclusive lock on record 3 of a page, transaction 2 a shared lock on record 2 and, in
  the last state, a waiting request for record 3.
\<close>

section \<open>A concrete history\<close>

definition ex_trx :: ltrx_t where
  "ex_trx = \<lparr>trx_locks = [], wait_lock = None, trx_que_state = TRX_QUE_RUNNING, isolation_level = TRX_ISO_REPEATABLE_READ,
    deadlock_mark = 0, was_chosen_as_deadlock_victim = False, n_undo = 0, error_state = DB_SUCCESS, signals = [],
    wait_thrs = [], trx_n_active_thrs = 1\<rparr>"

definition ex_init :: lock_sys where
  "ex_init = \<lparr>lock_heap = \<lambda>_. \<lparr>m_trx = 0, m_type_mode = 0, m_object = 0, m_page_id = Page_id 0 0, m_n_bits = 0, m_bitmap = []\<rparr>,
    next_lock = 0, rec_locks = \<lambda>_. None, table_locks = \<lambda>_. [], ltrx_heap = \<lambda>_. ex_trx, ltrx_list = [1, 2, 3],
    thr_heap = \<lambda>t. \<lparr>thr_graph = t, thr_state = QUE_THR_RUNNING, thr_is_active = True\<rparr>,
    fork_heap = \<lambda>t. \<lparr>fork_state = QUE_FORK_ACTIVE, is_rollback_fork = False, fork_trx = t, fork_n_active_thrs = 1\<rparr>,
    deadlock_found = False\<rparr>"

definition ex_block :: lock_block where
  "ex_block = \<lparr>b_page_id = Page_id 0 3, b_n_heap = 5, b_heap_nos = [0, 2, 3, 4, 1]\<rparr>"

definition ex_s1 :: lock_sys where
  "ex_s1 = fst (the (rec_lock False LOCK_X ex_block 3 7 1 ex_init))"

definition ex_s2 :: lock_sys where
  "ex_s2 = fst (the (rec_lock False LOCK_S ex_block 2 7 2 ex_s1))"

text \<open>The state the deadlock check of the second request sees, the one it leaves, and the one after the thread is suspended.\<close>

definition ex_w :: lock_sys where
  "ex_w = fst (rec_create (LOCK_S OR LOCK_WAIT) ex_block 3 7 2 ex_s2)"

definition ex_d :: lock_sys where
  "ex_d = fst (the (deadlock_recursive 2 2 2 0 0 (clear_deadlock_marks ex_w)))"

definition ex_s3 :: lock_sys where
  "ex_s3 = fst (que_thr_stop 2 (suspended 2 ex_d))"

definition ex_t1 :: lock_sys where
  "ex_t1 = fst (the (lock_table 0 5 LOCK_IX 1 ex_init))"

definition ex_t2 :: lock_sys where
  "ex_t2 = fst (the (lock_table 0 5 LOCK_IX 2 ex_t1))"

lemma ex_init_reachable: "lock_reachable ex_init"
  by (rule lock_reachable.init) (simp add: lock_init_def ex_init_def ex_trx_def)

lemma rec_lock_reachable:
  assumes "lock_reachable s" "may_request thr s" "block_ok block h" "rec_mode_ok mode"
  shows "lock_reachable (fst (the (rec_lock impl mode block h index thr s)))"
proof -
  obtain s' e where "rec_lock impl mode block h index thr s = Some (s', e)"
    using rec_lock_total [OF lock_reachable_inv [OF assms(1)] assms(2-4)] by blast
  then show ?thesis using assms lock_step.rec_lock lock_reachable.step by fastforce
qed

lemma lock_table_reachable:
  assumes "lock_reachable s" "may_request thr s" "unat mode < 4"
  shows "lock_reachable (fst (the (lock_table 0 table mode thr s)))"
proof -
  obtain s' e where "lock_table 0 table mode thr s = Some (s', e)"
    using lock_table_total [OF lock_reachable_inv [OF assms(1)] assms(2,3)] by blast
  then show ?thesis using assms lock_step.lock_table lock_reachable.step by fastforce
qed

lemma ex_modes: "rec_mode_ok LOCK_X" "rec_mode_ok LOCK_S"
  by (simp_all add: rec_mode_ok_def lock_flag_defs)

lemma ex_s2_reachable: "lock_reachable ex_s1" "lock_reachable ex_s2"
proof -
  show "lock_reachable ex_s1" unfolding ex_s1_def
    by (rule rec_lock_reachable [OF ex_init_reachable _ _ ex_modes(1)]) code_simp+
  then show "lock_reachable ex_s2" unfolding ex_s2_def
    by (rule rec_lock_reachable [OF _ _ _ ex_modes(2)]) code_simp+
qed

lemma ex_t2_reachable: "lock_reachable ex_t2"
proof -
  have "lock_reachable ex_t1" unfolding ex_t1_def
    by (rule lock_table_reachable [OF ex_init_reachable]) code_simp+
  then show ?thesis unfolding ex_t2_def by (rule lock_table_reachable) code_simp+
qed

lemma ex_deadlock_check: "deadlock_occurs 2 2 ex_w = Some (ex_d, False)"
proof -
  have "map_option (\<lambda>(s, c, r). r) (deadlock_recursive 2 2 2 0 0 (clear_deadlock_marks ex_w)) = Some NO_DEADLOCK"
    by code_simp
  then obtain c where "deadlock_recursive 2 2 2 0 0 (clear_deadlock_marks ex_w) = Some (ex_d, c, NO_DEADLOCK)"
    unfolding ex_d_def by auto
  then show ?thesis unfolding deadlock_occurs_def by (subst deadlock_occurs_loop.simps) simp
qed

lemma ex_waits: "rec_lock False LOCK_S ex_block 3 7 2 ex_s2 = Some (ex_s3, DB_LOCK_WAIT)"
proof -
  have "snd (rec_lock_fast False LOCK_S ex_block 3 7 2 ex_s2) = False" by code_simp
  then have fast: "rec_lock_fast False LOCK_S ex_block 3 7 2 ex_s2 = (ex_s2, False)"
    using rec_lock_fast_unchanged by (metis prod.collapse)
  have slow: "rec_has_expl ex_s2 (b_page_id ex_block) LOCK_S 3 (thr_get_trx ex_s2 2) = None"
    "rec_other_has_conflicting ex_s2 (b_page_id ex_block) LOCK_S 3 (thr_get_trx ex_s2 2) \<noteq> None"
    "thr_get_trx ex_s2 2 = 2" "\<not> snd (que_thr_stop 2 ex_s2)" by code_simp+
  have create: "rec_create (LOCK_S OR LOCK_WAIT) ex_block 3 7 2 ex_s2 = (ex_w, 2)"
    unfolding ex_w_def by (rule prod_eqI) (simp, code_simp)
  have wait: "wait_lock (ltrx_heap ex_d 2) \<noteq> None" "snd (que_thr_stop 2 (suspended 2 ex_d))" by code_simp+
  have stop: "que_thr_stop 2 (suspended 2 ex_d) = (ex_s3, True)" unfolding ex_s3_def using wait(2) by (metis prod.collapse)
  show ?thesis
    using fast slow create wait stop ex_deadlock_check
    by (simp add: rec_lock_def rec_lock_slow_def rec_enqueue_waiting_def suspended_def Let_def)
qed

lemma ex_s3_reachable: "lock_reachable ex_s3"
proof -
  have ok: "may_request 2 ex_s2" "block_ok ex_block 3" by code_simp+
  show ?thesis using rec_lock_reachable [OF ex_s2_reachable(2) ok ex_modes(2), of False 7] ex_waits by simp
qed

section \<open>Safety\<close>

text \<open>
  C27. In every state reached by lock requests, releases and cancelled waits, inserts and deletes of
  records and gap inheritance (moving the locks of records and discarding or reorganising pages
  are not among the steps), two granted record locks of a page never conflict on a record other than the supremum: they
  belong to one transaction, have compatible modes, or one of them locks only the gap or is an
  insert intention.
\<close>
theorem lock_rec_exclusion:
  assumes "lock_reachable s" "p \<in> set (page_queue s pg)" "r \<in> set (page_queue s pg)" "p \<noteq> r"
    "\<not> is_waiting (lock_heap s p)" "\<not> is_waiting (lock_heap s r)"
  shows "\<not> rec_conflict h (lock_heap s p) (lock_heap s r)"
proof -
  have wf: "wf_locks s" "queues_safe s" using lock_reachable_inv [OF assms(1)] by (auto simp: full_inv_def lock_inv_def)
  obtain i j where ij: "i < length (page_queue s pg)" "page_queue s pg ! i = p"
    "j < length (page_queue s pg)" "page_queue s pg ! j = r" using assms(2,3) by (auto simp: in_set_conv_nth)
  have "\<not> rec_conflicts (page_locks s pg ! i) (page_locks s pg ! j)"
    by (rule recq.safe_pair)
       (use wf wf_page_member(3) [OF wf(1)] ij assms(4-6) in \<open>auto simp: queues_safe_def page_locks_def\<close>)
  then show ?thesis using ij by (auto simp: rec_conflicts_def page_locks_def)
qed

theorem lock_rec_exclusion_witness:
  "lock_reachable ex_s2 \<and> page_queue ex_s2 (Page_id 0 3) = [0, 1]
   \<and> \<not> is_waiting (lock_heap ex_s2 0) \<and> \<not> is_waiting (lock_heap ex_s2 1)
   \<and> \<not> rec_conflict 3 (lock_heap ex_s2 0) (lock_heap ex_s2 1)"
proof -
  have e: "page_queue ex_s2 (Page_id 0 3) = [0, 1]" "\<not> is_waiting (lock_heap ex_s2 0)" "\<not> is_waiting (lock_heap ex_s2 1)"
    by code_simp+
  then show ?thesis using lock_rec_exclusion [of ex_s2 0 "Page_id 0 3" 1 3] ex_s2_reachable(2) by simp
qed

text \<open>
  C28. In every state reached by the same steps, two granted locks on one table that belong to
  different transactions have compatible modes.
\<close>
theorem lock_table_exclusion:
  assumes "lock_reachable s" "p \<in> set (table_locks s tb)" "r \<in> set (table_locks s tb)"
    "\<not> is_waiting (lock_heap s p)" "\<not> is_waiting (lock_heap s r)" "m_trx (lock_heap s p) \<noteq> m_trx (lock_heap s r)"
  shows "mode_compatible (lock_mode (lock_heap s p)) (lock_mode (lock_heap s r))"
proof -
  have wf: "wf_locks s" "queues_safe s" using lock_reachable_inv [OF assms(1)] by (auto simp: full_inv_def lock_inv_def)
  obtain i j where ij: "i < length (table_locks s tb)" "table_locks s tb ! i = p"
    "j < length (table_locks s tb)" "table_locks s tb ! j = r" using assms(2,3) by (auto simp: in_set_conv_nth)
  have "\<not> table_conflict (tbl_locks s tb ! i) (tbl_locks s tb ! j)"
    by (rule tblq.safe_pair)
       (use wf wf_table_member(3) [OF wf(1)] ij assms(4-6) in \<open>auto simp: queues_safe_def tbl_locks_def\<close>)
  then show ?thesis using ij assms(6) by (auto simp: table_conflict_def tbl_locks_def)
qed

theorem lock_table_exclusion_witness:
  "lock_reachable ex_t2 \<and> table_locks ex_t2 5 = [0, 1]
   \<and> mode_compatible (lock_mode (lock_heap ex_t2 0)) (lock_mode (lock_heap ex_t2 1))"
proof -
  have e: "table_locks ex_t2 5 = [0, 1]" "\<not> is_waiting (lock_heap ex_t2 0)" "\<not> is_waiting (lock_heap ex_t2 1)"
    "m_trx (lock_heap ex_t2 0) = 1" "m_trx (lock_heap ex_t2 1) = 2"
    by code_simp+
  then show ?thesis using lock_table_exclusion [of ex_t2 0 5 1] ex_t2_reachable by simp
qed

section \<open>Waiting and deadlocks\<close>

text \<open>
  C29. The waits-for graph of every state reached by the same steps is free of cycles: a deadlock is
  broken by the request that would close it.
\<close>
theorem lock_waits_acyclic:
  assumes "lock_reachable s"
  shows "acyclic (waits_for_rel s)"
  using lock_reachable_inv [OF assms] by (simp add: full_inv_def)

theorem lock_waits_acyclic_witness: "lock_reachable ex_s3 \<and> wait_lock (ltrx_heap ex_s3 2) = Some 2 \<and> acyclic (waits_for_rel ex_s3)"
proof -
  have "wait_lock (ltrx_heap ex_s3 2) = Some 2" by code_simp
  then show ?thesis using lock_waits_acyclic [OF ex_s3_reachable] ex_s3_reachable by simp
qed

text \<open>
  C30. No wake-up is lost: in every state reached by the same steps a waiting request is its transaction's wait
  lock, the transaction is in the lock-wait state, and some request ahead of it in its queue still
  makes it wait.
\<close>
theorem lock_waiter_blocked:
  assumes "lock_reachable s" "queued s p" "is_waiting (lock_heap s p)"
  shows "wait_lock (ltrx_heap s (m_trx (lock_heap s p))) = Some p
    \<and> trx_que_state (ltrx_heap s (m_trx (lock_heap s p))) = TRX_QUE_LOCK_WAIT
    \<and> (\<exists>r\<in>set (locks_ahead s p (wait_heap_no (lock_heap s p))).
         has_to_wait_for (lock_heap s p) (lock_heap s r) (wait_heap_no (lock_heap s p)))"
proof -
  have inv: "full_inv s" by (rule lock_reachable_inv [OF assms(1)])
  have w: "wait_lock (ltrx_heap s (m_trx (lock_heap s p))) = Some p"
    using inv assms(2,3) by (auto simp: full_inv_def lock_inv_def wf_wait_def)
  then have "trx_que_state (ltrx_heap s (m_trx (lock_heap s p))) = TRX_QUE_LOCK_WAIT"
    using inv by (simp add: full_inv_def waiting_listed_def que_states_def)
  then show ?thesis using w assms(2,3) waiting_blocked_page [OF inv] waiting_blocked_table [OF inv]
    unfolding queued_def by blast
qed

theorem lock_waiter_blocked_witness:
  "queued ex_s3 2 \<and> is_waiting (lock_heap ex_s3 2)
   \<and> (\<exists>r\<in>set (locks_ahead ex_s3 2 (wait_heap_no (lock_heap ex_s3 2))).
        has_to_wait_for (lock_heap ex_s3 2) (lock_heap ex_s3 r) (wait_heap_no (lock_heap ex_s3 2)))"
proof -
  have e: "page_queue ex_s3 (Page_id 0 3) = [0, 1, 2]" "is_waiting (lock_heap ex_s3 2)" by code_simp+
  then have "2 \<in> set (page_queue ex_s3 (Page_id 0 3))" by simp
  then have q: "queued ex_s3 2" unfolding queued_def by blast
  then show ?thesis using lock_waiter_blocked [OF ex_s3_reachable q e(2)] e(2) by blast
qed

text \<open>
  C31. In every state reached by the same steps, a transaction that waits for a lock waits, directly or through
  others, for a transaction that is not waiting: someone can always run.
\<close>
theorem lock_waiter_progress:
  assumes "lock_reachable s" "wait_lock (ltrx_heap s t) \<noteq> None"
  shows "\<exists>u. (t, u) \<in> (waits_for_rel s)\<^sup>+ \<and> wait_lock (ltrx_heap s u) = None"
  by (rule waits_for_runner [OF lock_reachable_inv [OF assms(1)] assms(2)])

theorem lock_waiter_progress_witness:
  "wait_lock (ltrx_heap ex_s3 2) \<noteq> None \<and> (\<exists>u. (2, u) \<in> (waits_for_rel ex_s3)\<^sup>+ \<and> wait_lock (ltrx_heap ex_s3 u) = None)"
proof -
  have e: "wait_lock (ltrx_heap ex_s3 2) \<noteq> None" by code_simp
  then show ?thesis using lock_waiter_progress [OF ex_s3_reachable e] by blast
qed



section \<open>Requests\<close>









text \<open>
  Before a clustered record is modified, an implicit lock of another transaction is made
  explicit and then the record is locked: on success the modifying transaction has an exclusive
  lock or no other transaction's request conflicts with one.
\<close>
theorem modify_check_outcome:
  assumes "lock_reachable s" "may_request thr s" "block_ok block h" "impl_ok s block h impl_trx"
  shows "\<exists>s' e. clust_rec_modify_check_and_lock 0 impl_trx block h index thr s = Some (s', e) \<and> full_inv s'
    \<and> (e = DB_SUCCESS \<and> rec_secured True s' (b_page_id block) (LOCK_X OR LOCK_REC_NOT_GAP) h (thr_get_trx s thr)
       \<or> e = DB_LOCK_WAIT \<and> trx_que_state (ltrx_heap s' (thr_get_trx s thr)) = TRX_QUE_LOCK_WAIT
       \<or> e = DB_DEADLOCK)"
  using clust_rec_modify_total [OF lock_reachable_inv [OF assms(1)] assms(2-4), of index]
  by (auto simp: request_outcome_def que_states_def)

theorem modify_check_outcome_witness:
  "\<exists>s'. clust_rec_modify_check_and_lock 0 (Some 1) ex_block 4 7 1 ex_s2 = Some (s', DB_SUCCESS)
     \<and> rec_secured True s' (b_page_id ex_block) (LOCK_X OR LOCK_REC_NOT_GAP) 4 1"
proof -
  have e: "may_request 1 ex_s2" "block_ok ex_block 4" "impl_ok ex_s2 ex_block 4 (Some 1)" "thr_get_trx ex_s2 1 = 1"
    "map_option snd (clust_rec_modify_check_and_lock 0 (Some 1) ex_block 4 7 1 ex_s2) = Some DB_SUCCESS" by code_simp+
  show ?thesis using modify_check_outcome [OF ex_s2_reachable(2) e(1-3), of 7] e(4,5) by auto
qed

section \<open>Releasing locks\<close>

lemma release_off_kernel_reachable:
  assumes "lock_reachable s" "wait_lock (ltrx_heap s t) = None"
  shows "\<exists>s'. release_off_kernel t s = Some s' \<and> lock_reachable s' \<and> trx_locks (ltrx_heap s' t) = []"
  using assms
proof (induction "length (trx_locks (ltrx_heap s t))" arbitrary: s)
  case 0
  then show ?case by (subst release_off_kernel.simps) simp
next
  case (Suc n)
  have inv: "full_inv s" "lock_inv s" "wf_locks s"
    using lock_reachable_inv [OF Suc.prems(1)] by (auto simp: full_inv_def lock_inv_def)
  define p where "p = last (trx_locks (ltrx_heap s t))"
  have ne: "trx_locks (ltrx_heap s t) \<noteq> []" using Suc.hyps(2) by auto
  then have mem: "p \<in> set (trx_locks (ltrx_heap s t))" by (simp add: p_def)
  obtain s1 where s1: "lock_dequeue p s = Some s1" "dequeued p s s1"
    using lock_dequeue_total [OF inv(2) granted_of_runner(1) [OF inv(1) Suc.prems(2) mem]] .
  note facts = dequeued_facts [OF s1(2) inv(3)]
  have "lock_reachable s1"
    by (rule lock_reachable.step [OF Suc.prems(1) lock_step.release [OF Suc.prems(2) ne]]) (use s1(1) p_def in simp)
  moreover have "wait_lock (ltrx_heap s1 t) = None"
    using facts(9) [of t] Suc.prems(2) by (cases "wait_lock (ltrx_heap s1 t)") auto
  moreover have "n = length (trx_locks (ltrx_heap s1 t))" using Suc.hyps(2) mem facts(3) by (simp add: length_remove1)
  ultimately obtain s' where "release_off_kernel t s1 = Some s'" "lock_reachable s'" "trx_locks (ltrx_heap s' t) = []"
    using Suc.hyps(1) [of s1] by blast
  then show ?case using s1(1) ne by (subst release_off_kernel.simps) (simp add: p_def)
qed

text \<open>
  C36. Releasing the locks of a transaction that is not waiting ends, in a state that the steps of
  the lock system reach, and leaves no lock of the transaction in its list or in any queue.
\<close>
theorem release_off_kernel_correct:
  assumes "lock_reachable s" "wait_lock (ltrx_heap s t) = None"
  shows "\<exists>s'. release_off_kernel t s = Some s' \<and> lock_reachable s' \<and> trx_locks (ltrx_heap s' t) = []
    \<and> (\<forall>p. queued s' p \<longrightarrow> m_trx (lock_heap s' p) \<noteq> t)"
proof -
  obtain s' where s': "release_off_kernel t s = Some s'" "lock_reachable s'" "trx_locks (ltrx_heap s' t) = []"
    using release_off_kernel_reachable [OF assms] by blast
  have "wf_locks s'" using lock_reachable_inv [OF s'(2)] by (simp add: full_inv_def lock_inv_def)
  then show ?thesis using s' trx_locks_iff [of s' _ t] by auto
qed

theorem release_off_kernel_correct_witness:
  "trx_locks (ltrx_heap ex_s3 1) = [0] \<and> (\<exists>s'. release_off_kernel 1 ex_s3 = Some s' \<and> trx_locks (ltrx_heap s' 1) = [])"
proof -
  have e: "wait_lock (ltrx_heap ex_s3 1) = None" "trx_locks (ltrx_heap ex_s3 1) = [0]" by code_simp+
  then show ?thesis using release_off_kernel_correct [OF ex_s3_reachable e(1)] by blast
qed

text \<open>
  Unlocking a record for a transaction that is not waiting ends in a reachable state; either
  the transaction had no lock of that mode on the record and nothing changes, or one of its locks
  on the page no longer covers the record.
\<close>
theorem rec_unlock_correct:
  assumes "lock_reachable s" "wait_lock (ltrx_heap s t) = None" "rec_locks s (b_page_id block) \<noteq> None"
  shows "\<exists>s'. rec_unlock t block h mode s = Some s' \<and> lock_reachable s'
    \<and> (s' = s \<and> (\<forall>p\<in>set (page_queue s (b_page_id block)). \<not> (rec_is_nth_bit_set (lock_heap s p) h
           \<and> m_trx (lock_heap s p) = t \<and> lock_mode (lock_heap s p) = mode))
       \<or> (\<exists>p\<in>set (page_queue s (b_page_id block)). m_trx (lock_heap s p) = t \<and> \<not> rec_is_nth_bit_set (lock_heap s' p) h))"
  using rec_unlock_total [OF lock_reachable_inv [OF assms(1)] assms(2,3), of h mode]
    lock_reachable.step [OF assms(1) lock_step.rec_unlock [OF assms(2,3)]] by blast

theorem rec_unlock_correct_witness:
  "\<exists>s'. rec_unlock 1 ex_block 3 LOCK_X ex_s3 = Some s' \<and> lock_reachable s'"
proof -
  have e: "wait_lock (ltrx_heap ex_s3 1) = None" "rec_locks ex_s3 (b_page_id ex_block) \<noteq> None" by code_simp+
  show ?thesis using rec_unlock_correct [OF ex_s3_reachable e, of 3 LOCK_X] by blast
qed

end
