(* ===== verification/Lock_Moves.thy ===== *)
theory Lock_Moves
  imports Lock_Props
begin

text \<open>
  Record locks when records are inserted, removed and moved: inserts into a gap stay blocked when
  the gap is split or merged, and what goes wrong when locks are moved or a page is discarded.
\<close>

text \<open>
  C37. Splitting a gap keeps phantoms out: if another transaction's insert before the next record was
  blocked, it is blocked after the insert of a record too, both before the new record and before
  the next one.
\<close>
theorem update_insert_keeps_gaps:
  assumes "lock_reachable s" "block_ok block h" "next_heap_no block h \<noteq> h"
    "rec_other_has_conflicting s (b_page_id block) insert_intention_mode (next_heap_no block h) trx \<noteq> None"
  shows "\<exists>s'. update_insert block h s = Some s' \<and> lock_reachable s'
    \<and> rec_other_has_conflicting s' (b_page_id block) insert_intention_mode h trx \<noteq> None
    \<and> rec_other_has_conflicting s' (b_page_id block) insert_intention_mode (next_heap_no block h) trx \<noteq> None"
  using update_insert_phantom [OF lock_reachable_inv [OF assms(1)] assms(2-4)]
    lock_reachable.step [OF assms(1) lock_step.update_insert [OF assms(2,3)]] by blast

theorem update_insert_keeps_gaps_witness:
  "\<exists>s'. update_insert ex_block 2 ex_s2 = Some s'
     \<and> rec_other_has_conflicting s' (b_page_id ex_block) insert_intention_mode 2 3 \<noteq> None"
proof -
  have e: "block_ok ex_block 2" "next_heap_no ex_block 2 \<noteq> 2"
    "rec_other_has_conflicting ex_s2 (b_page_id ex_block) insert_intention_mode (next_heap_no ex_block 2) 3 \<noteq> None"
    by code_simp+
  show ?thesis using update_insert_keeps_gaps [OF ex_s2_reachable(2) e] by blast
qed

text \<open>
  C38. When a record is removed, no lock and no request covers it any more, and every transaction
  that held or waited for an exclusive lock on it (insert intentions apart), except at the READ
  COMMITTED level, holds an exclusive lock on the gap before the next record.
\<close>
theorem update_delete_inherits:
  assumes "lock_reachable s" "block_ok block (next_heap_no block h)" "next_heap_no block h \<noteq> h"
  shows "\<exists>s'. update_delete block h s = Some s' \<and> lock_reachable s'
    \<and> (\<forall>r\<in>set (page_queue s' (b_page_id block)). \<not> rec_is_nth_bit_set (lock_heap s' r) h)
    \<and> (\<forall>r\<in>set (page_queue s (b_page_id block)). inherited s (lock_heap s r) h \<longrightarrow>
         gap_locked s' (b_page_id block) (next_heap_no block h) (m_trx (lock_heap s r)) LOCK_X)"
  using update_delete_total [OF lock_reachable_inv [OF assms(1)] assms(2,3)]
    lock_reachable.step [OF assms(1) lock_step.update_delete [OF assms(2,3)]] by blast

theorem update_delete_inherits_witness:
  "\<exists>s'. update_delete ex_block 3 ex_s3 = Some s' \<and> gap_locked s' (b_page_id ex_block) 4 1 LOCK_X"
proof -
  have e: "block_ok ex_block (next_heap_no ex_block 3)" "next_heap_no ex_block 3 \<noteq> 3" "next_heap_no ex_block 3 = 4"
    "page_queue ex_s3 (b_page_id ex_block) = [0, 1, 2]" "inherited ex_s3 (lock_heap ex_s3 0) 3"
    "m_trx (lock_heap ex_s3 0) = 1" by code_simp+
  show ?thesis using update_delete_inherits [OF ex_s3_reachable e(1,2)] e(3-6) by auto
qed

section \<open>Moving the locks of a record\<close>

text \<open>The transaction holds a lock of this mode on the record itself and the gap before it.\<close>

definition plain_locked :: "lock_sys \<Rightarrow> page_id \<Rightarrow> nat \<Rightarrow> ltrx_ptr \<Rightarrow> lock_type_t \<Rightarrow> bool" where
  "plain_locked s pg h trx mode \<longleftrightarrow>
     (\<exists>p\<in>set (page_queue s pg). let l = lock_heap s p in granted l \<and> m_trx l = trx \<and> rec_is_nth_bit_set l h
        \<and> lock_mode l = mode \<and> \<not> rec_is_gap l \<and> \<not> rec_is_not_gap l \<and> \<not> rec_is_insert_intention l)"

lemma rec_add_wf:
  fixes tm :: lock_type_t
  assumes wf: "wf_locks s" and blk: "block_ok block h" "unat (tm AND LOCK_MODE_MASK) < 4" "\<not> bit tm 8"
  shows "wf_locks (fst (rec_add_to_queue tm block h index trx s))"
    "holds_lock (fst (rec_add_to_queue tm block h index trx s)) (b_page_id block) tm h trx
        (snd (rec_add_to_queue tm block h index trx s))"
proof -
  let ?pg = "b_page_id block" and ?r = "rec_add_to_queue tm block h index trx s"
  define tm' where "tm' = (if h = PAGE_HEAP_NO_SUPREMUM then (tm OR LOCK_REC) AND NOT (LOCK_GAP OR LOCK_REC_NOT_GAP)
    else tm OR LOCK_REC)"
  have mode: "tm' AND LOCK_MODE_MASK = tm AND LOCK_MODE_MASK" by (simp add: tm'_def flag_simps)
  have bits: "bit tm' 8 = bit tm 8" "bit tm' 11 = bit tm 11" "bit tm' 9 \<longrightarrow> bit tm 9" "bit tm' 10 \<longrightarrow> bit tm 10"
    by (auto simp: tm'_def bit_simps flag_simps)
  have m: "unat (tm' AND LOCK_MODE_MASK) < 4" using blk(2) mode by simp
  have bounds: "h < b_n_heap block" "b_n_heap block < 2 ^ 32" using blk(1) by (auto simp: block_ok_def)
  note l = new_rec_lock_facts [OF bounds m, of ?pg index trx] and app = rec_create_appended [OF blk(1) m, of index trx s]
  have "wf_locks (fst (rec_create tm' block h index trx s))"
    using appended_wf_locks [OF app(2) wf] l by (simp add: request_fits_def)
  moreover have "holds_lock (fst (rec_create tm' block h index trx s)) ?pg tm h trx (snd (rec_create tm' block h index trx s))"
    using app l blk(3) bits mode by (auto simp: holds_lock_def appended_def Let_def)
  moreover have "wf_locks (upd_lock p (rec_set_nth_bit h) s) \<and> holds_lock (upd_lock p (rec_set_nth_bit h) s) ?pg tm h trx p"
    if "rec_find_similar_on_page s tm' h (page_queue s ?pg) trx = Some p" for p
  proof -
    have p: "p \<in> set (page_queue s ?pg)" "m_trx (lock_heap s p) = trx" "m_type_mode (lock_heap s p) = tm'"
      "h < m_n_bits (lock_heap s p)"
      using that unfolding rec_find_similar_on_page_def rec_get_n_bits_def by (auto dest: find_SomeD)
    have "wf_bitmap (lock_heap s p)" using wf_page_member(3) [OF wf p(1)] by (simp add: rec_ok_def)
    then have "holds_lock (upd_lock p (rec_set_nth_bit h) s) ?pg tm h trx p"
      using p blk(3) bits mode by (auto simp: holds_lock_def Let_def rec_set_nth_bit_iff lock_flag_bits lock_mode_def)
    then show ?thesis using bits_upd_wf_locks [OF wf, of "rec_set_nth_bit h" p] by simp
  qed
  ultimately show "wf_locks (fst ?r)" "holds_lock (fst ?r) ?pg tm h trx (snd ?r)"
    unfolding rec_add_to_queue_def Let_def tm'_def [symmetric] by (auto split: option.splits)
qed

lemma mode_word_bits: "\<not> bit (lock_mode l) 8" "\<not> bit (lock_mode l) 9" "\<not> bit (lock_mode l) 10" "\<not> bit (lock_mode l) 11"
  "lock_mode l AND LOCK_MODE_MASK = lock_mode l"
proof -
  have m: "LOCK_MODE_MASK = mask 4" by (simp add: lock_flag_defs mask_eq_exp_minus_1)
  show "\<not> bit (lock_mode l) 8" "\<not> bit (lock_mode l) 9" "\<not> bit (lock_mode l) 10" "\<not> bit (lock_mode l) 11"
    by (simp_all add: lock_mode_def m bit_simps)
  show "lock_mode l AND LOCK_MODE_MASK = lock_mode l" by (simp add: lock_mode_def and.assoc)
qed

lemma grown_plain_locked:
  assumes "grown pg h s s'" "plain_locked s pg' k trx mode"
  shows "plain_locked s' pg' k trx mode"
  using assms(2) grown_lock [OF assms(1)]
  by (auto simp: plain_locked_def Let_def lock_flag_bits lock_mode_def) (metis)

lemma reset_plain_locked:
  assumes "wf_locks s" "p \<in> set (page_queue s pg)" "pg \<noteq> pg' \<or> h \<noteq> k" "plain_locked s pg' k trx mode"
  shows "plain_locked (upd_lock p (rec_reset_nth_bit h) s) pg' k trx mode"
proof -
  from assms(4) obtain r where r: "r \<in> set (page_queue s pg')" "granted (lock_heap s r)" "m_trx (lock_heap s r) = trx"
    "rec_is_nth_bit_set (lock_heap s r) k" "lock_mode (lock_heap s r) = mode" "\<not> rec_is_gap (lock_heap s r)"
    "\<not> rec_is_not_gap (lock_heap s r)" "\<not> rec_is_insert_intention (lock_heap s r)"
    by (auto simp: plain_locked_def Let_def)
  let ?l = "lock_heap (upd_lock p (rec_reset_nth_bit h) s) r"
  have wfb: "wf_bitmap (lock_heap s r)" using wf_page_member(3) [OF assms(1) r(1)] by (simp add: rec_ok_def)
  have "r \<noteq> p \<or> h \<noteq> k" using assms(2,3) r(1) wf_page_member(2) [OF assms(1)] by metis
  then have "rec_is_nth_bit_set ?l k" using r(4) wfb by (auto simp: rec_reset_nth_bit_iff)
  moreover have "m_type_mode ?l = m_type_mode (lock_heap s r)" "m_trx ?l = m_trx (lock_heap s r)" by simp_all
  ultimately show ?thesis using r by (auto simp: plain_locked_def Let_def lock_flag_bits lock_mode_def intro!: bexI [of _ r])
qed

definition move_body :: "lock_block \<Rightarrow> nat \<Rightarrow> nat \<Rightarrow> lock_ptr \<Rightarrow> lock_sys \<Rightarrow> lock_sys option" where
  "move_body receiver k h p s =
     (if rec_is_nth_bit_set (lock_heap s p) h then
        let l = lock_heap s p
        in Some (fst (rec_add_to_queue (lock_mode l) receiver k (m_object l) (m_trx l) (upd_lock p (rec_reset_nth_bit h) s)))
      else Some s)"

lemma rec_move_body: "rec_move receiver donator k h s = queue_for (move_body receiver k h) (b_page_id donator) 0 s"
proof -
  have "lock_mode l AND LOCK_WAIT = 0" for l using mode_word_bits(1) [of l] flag_bit_iff(1) by blast
  then show ?thesis unfolding rec_move_def
    by (intro arg_cong [where f = "\<lambda>b. queue_for b (b_page_id donator) 0 s"] ext) (simp add: move_body_def Let_def)
qed

lemma move_step:
  assumes wf: "wf_locks s" and blk: "block_ok receiver k" and p: "p \<in> set (page_queue s pg)"
    and bit: "rec_is_nth_bit_set (lock_heap s p) h"
  shows "\<exists>s'. move_body receiver k h p s = Some s' \<and> wf_locks s'
     \<and> grown (b_page_id receiver) k (upd_lock p (rec_reset_nth_bit h) s) s'
     \<and> plain_locked s' (b_page_id receiver) k (m_trx (lock_heap s p)) (lock_mode (lock_heap s p))"
proof -
  let ?l = "lock_heap s p" and ?s = "upd_lock p (rec_reset_nth_bit h) s"
  note b = mode_word_bits [of ?l]
  have wf': "wf_locks ?s" using bits_upd_wf_locks [OF wf, of "rec_reset_nth_bit h" p] by simp
  have m: "unat (lock_mode ?l AND LOCK_MODE_MASK) < 4" using wf_page_member(3) [OF wf p] b(5) by (simp add: rec_ok_def)
  note add = rec_add_wf [OF wf' blk m b(1), of "m_object ?l" "m_trx ?l"]
  have "plain_locked (fst (rec_add_to_queue (lock_mode ?l) receiver k (m_object ?l) (m_trx ?l) ?s))
      (b_page_id receiver) k (m_trx ?l) (lock_mode ?l)"
    using add(2) b by (auto simp: holds_lock_def plain_locked_def Let_def)
  then show ?thesis using bit add(1) rec_add_grown [OF wf' blk m] by (simp add: move_body_def Let_def)
qed

lemma rec_move_total:
  assumes wf: "wf_locks s" and blk: "block_ok receiver k" and ne: "b_page_id donator \<noteq> b_page_id receiver \<or> h \<noteq> k"
  shows "\<exists>s'. rec_move receiver donator k h s = Some s' \<and> wf_locks s'
     \<and> (\<forall>p\<in>set (page_queue s (b_page_id donator)). rec_is_nth_bit_set (lock_heap s p) h \<longrightarrow>
          plain_locked s' (b_page_id receiver) k (m_trx (lock_heap s p)) (lock_mode (lock_heap s p)))"
proof -
  let ?dp = "b_page_id donator" and ?rp = "b_page_id receiver"
  let ?q = "page_queue s ?dp"
  define same where "same = (\<lambda>(s1 :: lock_sys) r. m_trx (lock_heap s1 r) = m_trx (lock_heap s r) \<and> lock_mode (lock_heap s1 r) = lock_mode (lock_heap s r)
      \<and> (rec_is_nth_bit_set (lock_heap s1 r) h \<longleftrightarrow> rec_is_nth_bit_set (lock_heap s r) h))"
  define done_with where "done_with = (\<lambda>(s1 :: lock_sys) r. rec_is_nth_bit_set (lock_heap s r) h \<longrightarrow>
      plain_locked s1 ?rp k (m_trx (lock_heap s r)) (lock_mode (lock_heap s r)))"
  define J where "J = (\<lambda>i s1. wf_locks s1
      \<and> (\<exists>ext. page_queue s1 ?dp = ?q @ ext \<and> (\<forall>r\<in>set ext. \<not> rec_is_nth_bit_set (lock_heap s1 r) h))
      \<and> (\<forall>r\<in>set (drop i ?q). same s1 r) \<and> (\<forall>r\<in>set (take i ?q). done_with s1 r))"
  have dist: "distinct ?q" using wf by (simp add: wf_locks_def)
  have step: "\<exists>s2. move_body receiver k h (?q ! i) s1 = Some s2 \<and> J (i + 1) s2" if J: "J i s1" and i: "i < length ?q" for i s1
  proof -
    let ?p = "?q ! i"
    have drop: "drop i ?q = ?p # drop (i + 1) ?q" and take: "take (i + 1) ?q = take i ?q @ [?p]"
      using i by (simp_all add: Cons_nth_drop_Suc take_Suc_conv_app_nth)
    obtain ext where ext: "page_queue s1 ?dp = ?q @ ext" "\<forall>r\<in>set ext. \<not> rec_is_nth_bit_set (lock_heap s1 r) h"
      and wf1: "wf_locks s1" and sp: "same s1 ?p" and rest: "\<forall>r\<in>set (drop (i + 1) ?q). same s1 r"
      and dn: "\<forall>r\<in>set (take i ?q). done_with s1 r"
      using J unfolding J_def drop by auto
    have p: "?p \<in> set (page_queue s1 ?dp)" using ext(1) i by simp
    show ?thesis
    proof (cases "rec_is_nth_bit_set (lock_heap s1 ?p) h")
      case False
      then have "done_with s1 ?p" using sp by (simp add: same_def done_with_def)
      then have "J (i + 1) s1" using wf1 ext rest dn unfolding J_def take by auto
      then show ?thesis using False by (simp add: move_body_def)
    next
      case True
      let ?s = "upd_lock ?p (rec_reset_nth_bit h) s1"
      obtain s2 where s2: "move_body receiver k h ?p s1 = Some s2" "wf_locks s2" "grown ?rp k ?s s2"
        "plain_locked s2 ?rp k (m_trx (lock_heap s1 ?p)) (lock_mode (lock_heap s1 ?p))"
        using move_step [OF wf1 blk p True] by blast
      obtain e where e: "page_queue s2 ?dp = page_queue s1 ?dp @ e" "?dp \<noteq> ?rp \<longrightarrow> e = []"
        "\<forall>r\<in>set e. \<forall>j. rec_is_nth_bit_set (lock_heap s2 r) j \<longrightarrow> j = k"
        using grown_queue [OF s2(3), of ?dp] by auto
      have wfq: "distinct (page_queue s1 ?dp)" using wf1 by (simp add: wf_locks_def)
      have keep: "m_trx (lock_heap s2 r) = m_trx (lock_heap s1 r) \<and> lock_mode (lock_heap s2 r) = lock_mode (lock_heap s1 r)
          \<and> (rec_is_nth_bit_set (lock_heap s2 r) h \<longleftrightarrow> rec_is_nth_bit_set (lock_heap s1 r) h)"
        if r: "r \<in> set (page_queue s1 ?dp)" "r \<noteq> ?p" for r
        using grown_lock [OF s2(3), of r ?dp] r ne by (auto simp: lock_mode_def)
      have "?p \<notin> set ext" "?p \<notin> set (drop (i + 1) ?q)"
        using p wfq ext(1) nth_mem [OF i] distinct_drop [OF dist, of i] unfolding drop by auto
      have "\<not> rec_is_nth_bit_set (lock_heap s2 r) h" if "r \<in> set (ext @ e)" for r
        using that ext keep [of r] e ne \<open>?p \<notin> set ext\<close> by fastforce
      moreover have "same s2 r" if "r \<in> set (drop (i + 1) ?q)" for r
        using that rest keep [of r] ext(1) \<open>?p \<notin> set (drop (i + 1) ?q)\<close> in_set_dropD [of r "i + 1" ?q]
        by (auto simp: same_def)
      moreover have "done_with s2 r" if "r \<in> set (take i ?q)" for r
        using that dn grown_plain_locked [OF s2(3)] reset_plain_locked [OF wf1 p ne] unfolding done_with_def by blast
      moreover have "done_with s2 ?p" using s2(4) sp by (simp add: done_with_def same_def)
      ultimately have "J (i + 1) s2" using s2(2) ext(1) e(1) unfolding J_def take by auto
      then show ?thesis using s2(1) by blast
    qed
  qed
  have grow: "\<exists>ext. page_queue s1 ?dp = ?q @ ext \<and> (\<forall>r\<in>set ext. move_body receiver k h r s1 = Some s1)" if "J i s1" for i s1
    using that unfolding J_def by (auto simp: move_body_def)
  have "J 0 s" using wf by (simp add: J_def same_def)
  then have "\<exists>s'. queue_for (move_body receiver k h) ?dp 0 s = Some s' \<and> J (length ?q) s'"
    by (intro queue_for_grows [where J = J]) (use step grow in blast)+
  then show ?thesis unfolding rec_move_body by (auto simp: J_def done_with_def)
qed

section \<open>What goes wrong\<close>

text \<open>
  C39. Moving the locks of a record grants every request: the code passes on \<^verbatim>\<open>lock->mode()\<close>, which
  masks out all flags, so the wait flag is lost together with the gap and insert-intention flags.
  In every reachable state the move succeeds and leaves each transaction that had a lock or a
  waiting request on the record with a granted lock of the same mode on the new record and its
  gap; two transactions whose modes were incompatible, such as a holder and the request waiting for
  it, then both hold conflicting granted locks.
\<close>
theorem rec_move_grants_waiters:
  assumes "lock_reachable s" "block_ok receiver k" "b_page_id donator \<noteq> b_page_id receiver \<or> h \<noteq> k"
  shows "\<exists>s'. rec_move receiver donator k h s = Some s'
     \<and> (\<forall>p\<in>set (page_queue s (b_page_id donator)). rec_is_nth_bit_set (lock_heap s p) h \<longrightarrow>
          plain_locked s' (b_page_id receiver) k (m_trx (lock_heap s p)) (lock_mode (lock_heap s p)))
     \<and> (\<forall>p\<in>set (page_queue s (b_page_id donator)). \<forall>r\<in>set (page_queue s (b_page_id donator)).
          rec_is_nth_bit_set (lock_heap s p) h \<and> rec_is_nth_bit_set (lock_heap s r) h
          \<and> m_trx (lock_heap s p) \<noteq> m_trx (lock_heap s r)
          \<and> \<not> mode_compatible (lock_mode (lock_heap s p)) (lock_mode (lock_heap s r)) \<and> k \<noteq> PAGE_HEAP_NO_SUPREMUM \<longrightarrow>
          (\<exists>a\<in>set (page_queue s' (b_page_id receiver)). \<exists>b\<in>set (page_queue s' (b_page_id receiver)).
             \<not> is_waiting (lock_heap s' a) \<and> \<not> is_waiting (lock_heap s' b)
             \<and> rec_conflict k (lock_heap s' a) (lock_heap s' b)))"
proof -
  have "wf_locks s" using lock_reachable_inv [OF assms(1)] by (simp add: full_inv_def lock_inv_def)
  then obtain s' where s': "rec_move receiver donator k h s = Some s'"
    "\<forall>p\<in>set (page_queue s (b_page_id donator)). rec_is_nth_bit_set (lock_heap s p) h \<longrightarrow>
       plain_locked s' (b_page_id receiver) k (m_trx (lock_heap s p)) (lock_mode (lock_heap s p))"
    using rec_move_total [OF _ assms(2,3)] by blast
  have "\<exists>a\<in>set (page_queue s' (b_page_id receiver)). \<exists>b\<in>set (page_queue s' (b_page_id receiver)).
      \<not> is_waiting (lock_heap s' a) \<and> \<not> is_waiting (lock_heap s' b) \<and> rec_conflict k (lock_heap s' a) (lock_heap s' b)"
    if "plain_locked s' (b_page_id receiver) k t m" "plain_locked s' (b_page_id receiver) k u n" "t \<noteq> u"
      "\<not> mode_compatible m n" "k \<noteq> PAGE_HEAP_NO_SUPREMUM" for t u m n
    using that unfolding plain_locked_def Let_def rec_conflict_def by blast
  then show ?thesis using s' by blast
qed

theorem rec_move_grants_waiters_witness:
  "\<exists>s'. rec_move ex_block ex_block PAGE_HEAP_NO_INFIMUM 3 ex_s3 = Some s'
     \<and> is_waiting (lock_heap ex_s3 2) \<and> plain_locked s' (b_page_id ex_block) PAGE_HEAP_NO_INFIMUM 2 LOCK_S
     \<and> plain_locked s' (b_page_id ex_block) PAGE_HEAP_NO_INFIMUM 1 LOCK_X"
proof -
  have e: "block_ok ex_block PAGE_HEAP_NO_INFIMUM" "page_queue ex_s3 (b_page_id ex_block) = [0, 1, 2]"
    "rec_is_nth_bit_set (lock_heap ex_s3 0) 3" "m_trx (lock_heap ex_s3 0) = 1" "lock_mode (lock_heap ex_s3 0) = LOCK_X"
    "rec_is_nth_bit_set (lock_heap ex_s3 2) 3" "m_trx (lock_heap ex_s3 2) = 2" "lock_mode (lock_heap ex_s3 2) = LOCK_S"
    "is_waiting (lock_heap ex_s3 2)"
    by code_simp+
  have "b_page_id ex_block \<noteq> b_page_id ex_block \<or> 3 \<noteq> PAGE_HEAP_NO_INFIMUM" by code_simp
  from rec_move_grants_waiters [OF ex_s3_reachable e(1) this] obtain s' where
    s': "rec_move ex_block ex_block PAGE_HEAP_NO_INFIMUM 3 ex_s3 = Some s'"
      "\<forall>p\<in>set (page_queue ex_s3 (b_page_id ex_block)). rec_is_nth_bit_set (lock_heap ex_s3 p) 3 \<longrightarrow>
         plain_locked s' (b_page_id ex_block) PAGE_HEAP_NO_INFIMUM (m_trx (lock_heap ex_s3 p)) (lock_mode (lock_heap ex_s3 p))"
    by blast
  have "0 \<in> set (page_queue ex_s3 (b_page_id ex_block))" "2 \<in> set (page_queue ex_s3 (b_page_id ex_block))"
    by (simp_all add: e(2))
  from bspec [OF s'(2) this(1)] bspec [OF s'(2) this(2)] show ?thesis
    using s'(1) e(3-9) by (intro exI [of _ s']) simp
qed

text \<open>
  C40. Discarding a page with two or more lock structs aborts: the first \<^verbatim>\<open>rec_discard\<close> erases the
  page's whole queue, and the second one's assertion that a queue was erased fails.
\<close>
theorem rec_free_all_aborts:
  assumes "lock_reachable s" "2 \<le> length (page_queue s pg)"
  shows "rec_free_all_from_discard_page pg s = None"
proof -
  obtain p r q where "page_queue s pg = p # r # q"
    using assms(2) by (metis One_nat_def Suc_1 Suc_le_length_iff)
  moreover have "wf_locks s" using lock_reachable_inv [OF assms(1)] by (simp add: full_inv_def lock_inv_def)
  ultimately show ?thesis by (rule rec_free_all_two_locks [rotated])
qed

theorem rec_free_all_aborts_witness: "rec_free_all_from_discard_page (Page_id 0 3) ex_s2 = None"
proof -
  have e: "2 \<le> length (page_queue ex_s2 (Page_id 0 3))" by code_simp
  show ?thesis by (rule rec_free_all_aborts [OF ex_s2_reachable(2) e])
qed

text \<open>A waiting request behind a lock of the transaction makes \<^verbatim>\<open>trx_has_no_waiters\<close> true.\<close>

lemma in_tl_dropWhile: "k \<in> set (tl (dropWhile P q)) \<Longrightarrow> k \<in> set q"
  by (induction q) (auto split: if_splits)

lemma ahead_behind:
  assumes "f \<in> set (ahead w q)" "w \<in> set q"
  shows "w \<in> set (tl (dropWhile (\<lambda>k. k \<noteq> f) q))"
  using assms
proof (induction q)
  case (Cons x q)
  then show ?case by (cases "x = f") (auto simp: ahead_def split: if_splits dest: set_takeWhileD)
qed simp

lemma trx_has_no_waitersI:
  assumes wf: "wf_locks s" and u: "m_trx (lock_heap s f) = trx" and w: "is_waiting (lock_heap s w)"
  shows "w \<in> set (page_queue s pg) \<Longrightarrow> f \<in> set (ahead w (page_queue s pg)) \<Longrightarrow> trx_has_no_waiters s trx"
    "w \<in> set (table_locks s tb) \<Longrightarrow> f \<in> set (ahead w (table_locks s tb)) \<Longrightarrow> trx_has_no_waiters s trx"
proof -
  assume q: "w \<in> set (page_queue s pg)" "f \<in> set (ahead w (page_queue s pg))"
  then have f: "f \<in> set (page_queue s pg)" using set_ahead by blast
  note m = wf_page_member [OF wf f]
  have "lock_type (lock_heap s f) = LOCK_REC" using m(3) by (simp add: rec_ok_def)
  then show "trx_has_no_waiters s trx"
    unfolding trx_has_no_waiters_def list_ex_iff using m(2,5) u w q(1)
    by (intro bexI [of _ f]) (auto simp: Let_def list_ex_iff)
next
  assume q: "w \<in> set (table_locks s tb)" "f \<in> set (ahead w (table_locks s tb))"
  then have f: "f \<in> set (table_locks s tb)" using set_ahead by blast
  note m = wf_table_member [OF wf f]
  have "lock_type (lock_heap s f) \<noteq> LOCK_REC" using m(3) by (simp add: table_ok_def lock_flag_defs)
  then show "trx_has_no_waiters s trx"
    unfolding trx_has_no_waiters_def list_ex_iff using m(2,5) u w ahead_behind [OF q(2,1)]
    by (intro bexI [of _ f]) (auto simp: Let_def list_ex_iff)
qed

text \<open>
  \<^verbatim>\<open>is_table_exclusive\<close> looks at the first lock of the table only: in every reachable state its
  answer is whether that lock is an intention-exclusive lock of the transaction.  Locks that other
  transactions hold behind it do not change the answer.
\<close>
theorem is_table_exclusive_first_only:
  assumes "lock_reachable s"
  shows "is_table_exclusive s table trx \<longleftrightarrow> (\<exists>p q. table_locks s table = p # q
     \<and> m_trx (lock_heap s p) = trx \<and> lock_mode (lock_heap s p) = LOCK_IX)"
proof (cases "table_locks s table")
  case (Cons p q)
  have "wf_locks s" using lock_reachable_inv [OF assms] by (simp add: full_inv_def lock_inv_def)
  then have "table_ok (lock_heap s p)" using wf_table_member(3) [of s p table] Cons by simp
  then show ?thesis using Cons by (simp add: is_table_exclusive_def table_ok_def Let_def)
qed (simp add: is_table_exclusive_def)

theorem is_table_exclusive_first_only_witness:
  "is_table_exclusive ex_t2 5 1 \<and> table_locks ex_t2 5 = [0, 1] \<and> \<not> is_waiting (lock_heap ex_t2 1)
     \<and> m_trx (lock_heap ex_t2 1) = 2"
proof -
  have e: "table_locks ex_t2 5 = [0, 1]" "m_trx (lock_heap ex_t2 0) = 1" "lock_mode (lock_heap ex_t2 0) = LOCK_IX"
    "\<not> is_waiting (lock_heap ex_t2 1)" "m_trx (lock_heap ex_t2 1) = 2" by code_simp+
  then show ?thesis using is_table_exclusive_first_only [OF ex_t2_reachable, of 5 1] by simp
qed

text \<open>
  \<^verbatim>\<open>trx_has_no_waiters\<close> answers the opposite of its name and its description: in every reachable
  state it returns true when some transaction waits for the transaction, and false when no request
  is waiting at all.
\<close>
theorem trx_has_no_waiters_inverted:
  assumes "lock_reachable s"
  shows "(waits_for s t trx \<longrightarrow> trx_has_no_waiters s trx)
    \<and> ((\<forall>p. queued s p \<longrightarrow> \<not> is_waiting (lock_heap s p)) \<longrightarrow> \<not> trx_has_no_waiters s trx)"
proof
  have wf: "wf_locks s" and ww: "wf_wait {} s" using lock_reachable_inv [OF assms] by (simp_all add: full_inv_def lock_inv_def)
  show "waits_for s t trx \<longrightarrow> trx_has_no_waiters s trx"
  proof
    assume "waits_for s t trx"
    then obtain w f where w: "wait_lock (ltrx_heap s t) = Some w" and f: "f \<in> set (locks_ahead s w (wait_heap_no (lock_heap s w)))"
      and u: "m_trx (lock_heap s f) = trx" by (auto simp: waits_for_def)
    have q: "queued s w" "is_waiting (lock_heap s w)" using ww w by (auto simp: wf_wait_def)
    show "trx_has_no_waiters s trx"
      using queued_in_own_queue [OF wf q(1)] q(2) f u trx_has_no_waitersI [OF wf] by (auto simp: locks_ahead_def split: if_splits)
  qed
  show "(\<forall>p. queued s p \<longrightarrow> \<not> is_waiting (lock_heap s p)) \<longrightarrow> \<not> trx_has_no_waiters s trx"
    using in_tl_dropWhile by (fastforce simp: trx_has_no_waiters_def list_ex_iff queued_def Let_def split: if_splits)
qed

theorem trx_has_no_waiters_inverted_witness:
  "trx_has_no_waiters ex_s3 1 \<and> \<not> trx_has_no_waiters ex_init 1"
proof -
  have w: "wait_lock (ltrx_heap ex_s3 2) = Some 2" "wait_heap_no (lock_heap ex_s3 2) = 3" "locks_ahead ex_s3 2 3 = [0]"
    "has_to_wait_for (lock_heap ex_s3 2) (lock_heap ex_s3 0) 3" "m_trx (lock_heap ex_s3 0) = 1"
    by code_simp+
  then have "waits_for ex_s3 2 1" by (auto simp: waits_for_def)
  moreover have "\<not> queued ex_init p" for p by (simp add: queued_def ex_init_def page_queue_def)
  ultimately show ?thesis
    using trx_has_no_waiters_inverted [OF ex_s3_reachable] trx_has_no_waiters_inverted [OF ex_init_reachable] by blast
qed

end
