(* ===== verification/Spec2Isabelle.thy ===== *)
theory Spec2Isabelle
  imports Mach_Data Mtr_Log Fut_List Ut_List Read_View Lock_Moves
begin

text \<open>
  \<^bold>\<open>Verification library of Embedded InnoDB.\<close>

  Embedded InnoDB is a transactional storage engine: clients start transactions, read and write
  rows through B-trees of 16 KB pages, and see consistent snapshots while other transactions run.
  All changes of pages go through mini-transactions that log them; a lock system keeps writers
  apart; read views decide which transactions a reader sees; a purge thread removes old versions
  that no view needs.  The library models the parts that carry this logic and can be stated
  without files, latches and threads.  Paths below are relative to \<^verbatim>\<open>src/\<close>.

  \<^bold>\<open>Parts and theories.\<close>

  \<^item> \<open>Prelude\<close>: machine types (\<open>byte\<close>, \<open>uint16\<close>, \<open>uint32\<close>, \<open>uint64\<close>, \<open>ulint\<close>), memories
    (functions from addresses to bytes), and arithmetic on words through \<open>unat\<close> (collection
    \<open>unat_arith_simps\<close>).

  \<^item> \<open>Mach_Data\<close>: \<^verbatim>\<open>include/mach0data.h\<close> and \<^verbatim>\<open>mach/mach0data.cc\<close>, the integers of the file
    format.  One definition per reader, writer, size function and log parser; a pointer is an
    address and every writer returns the new memory.  The locales \<open>byte_codec\<close> and
    \<open>var_codec\<close> state what a reader and a writer of a field promise each other, for fixed and
    variable length; they are interpreted for each width and for the compressed format.  The
    lemmas give round trips with exact frames, the answer of the parsers for every end of the
    log buffer, the memcmp order of stored integers, and where the 6-byte,
    7-byte and much-compressed readers go wrong.  The host is little-endian.

  \<^item> \<open>Mtr_Log\<close>: \<^verbatim>\<open>mtr/mtr0log.cc\<close>, \<^verbatim>\<open>include/mtr0log.h\<close> and the handle of
    \<^verbatim>\<open>include/mtr0mtr.h\<close>.  The log of a mini-transaction (a \<^verbatim>\<open>Dyn_array\<close>) is one linear memory
    with the address of its first unused byte.  The theorems say that replaying the record of a
    page write on the old page gives the new page, for every end of the buffer.

  \<^item> \<open>Two_Way_List\<close>: the locale \<open>two_way_store\<close>, the contract between the doubly linked list
    algorithms and the store that holds the links.  \<open>Fut_List\<close> (\<^verbatim>\<open>fut/fut0lst.cc\<close>,
    \<^verbatim>\<open>include/fut0lst.h\<close>, \<^verbatim>\<open>include/fut0fut.h\<close>) interprets it on page frames with logged
    writes, \<open>Ut_List\<close> (\<^verbatim>\<open>include/ut0lst.h\<close>) on link fields of memory objects; both prove that
    the operations of the source implement the operations on sequences.  The later theories use
    HOL lists for the intrusive lists on the strength of \<open>Ut_List\<close>.

  \<^item> \<open>Read_View\<close>: \<^verbatim>\<open>read/read0read.cc\<close>, \<^verbatim>\<open>include/read0read.h\<close> and what belongs to it in
    \<^verbatim>\<open>trx/trx0trx.cc\<close>, \<^verbatim>\<open>trx/trx0sys.cc\<close>, \<^verbatim>\<open>include/trx0sys.h\<close> and \<^verbatim>\<open>trx/trx0purge.cc\<close>: the
    list of transactions, ids and numbers, read views, cursor views and the purge view.  Each
    section under the kernel mutex is a function; \<open>trx_step\<close> interleaves them and \<open>trx_run\<close>
    counts the ids handed out.  The theorems are the snapshot property of a new view, the safety
    of the purge view, the visibility test, and that ids are not reused after a restart.

  \<^item> \<open>Grant_Queue\<close>: the locale \<open>grant_queue\<close>, what a lock queue promises: granted requests do
    not conflict and every waiting request waits for one ahead of it.  \<open>Lock_Queue\<close> interprets it
    on the record-lock queue of a page and on the lock list of a table.

  \<^item> \<open>Lock_Types\<close>, \<open>Lock_Sys\<close>, \<open>Lock_Check\<close>: \<^verbatim>\<open>include/lock0types.h\<close>, \<^verbatim>\<open>lock/lock0lock.cc\<close>
    and the operations on query threads they call (\<^verbatim>\<open>que/que0que.cc\<close>).  \<open>lock_sys\<close> holds the
    lock structs, the queue of each page and table, the transactions and their threads; one
    definition per operation.  A failed \<^verbatim>\<open>ut_a\<close> is \<open>None\<close>.  \<open>Lock_Queue\<close>, \<open>Lock_Deadlock\<close>,
    \<open>Lock_Request\<close>, \<open>Lock_Table\<close>, \<open>Lock_Release\<close>, \<open>Lock_Inherit\<close> and \<open>Lock_Discard\<close> show
    what each operation does to the invariant: the well-formedness of queues and waits, mutual
    exclusion, no lost wake-up and an acyclic waits-for graph.

  \<^item> \<open>Lock_Reach\<close>: the lock system as a transition system; \<open>Lock_Props\<close> and \<open>Lock_Moves\<close>: its
    properties.

  \<^bold>\<open>How the parts interact.\<close>  List operations in pages write through \<open>mlog_write_ulint\<close>, so
  \<open>Fut_List\<close> imports \<open>Mtr_Log\<close>, whose records are built from the formats of \<open>Mach_Data\<close>.  The
  transaction part and the lock part share the kernel mutex and the transaction object but no
  field; each theory has the fields it needs.  Commit releases the locks between the two sections
  \<open>commit_in_memory\<close> and \<open>commit_close_view\<close>, which is why they are separate steps.

  \<^bold>\<open>Loops and bounds.\<close>  Loops over HOL lists are structural.  Iteration over intrusive lists, the
  loop over a live lock queue, the release of all locks and the retry loop of the deadlock check
  are \<open>partial_function\<close>s into \<open>option\<close>, and it is proved that they return on the states the
  engine reaches.  The recursion of the deadlock search ends by the source's own depth limit.  The
  word sizes are those of the source (64-bit \<^verbatim>\<open>ulint\<close>); the visibility test truncates a
  difference to 32 bits as the source does, and the properties that depend on it say how far
  apart the ids may be.  A page has fewer than \<open>2 ^ 32\<close> records.

  \<^bold>\<open>Assumptions visible in the statements.\<close>  \<open>trx_run\<close> starts from recovered transactions in
  descending order of their ids (recovery does not always produce that order, as the library
  shows) and excludes views opened by a recovered prepared transaction, whose number is a dummy
  value.  \<open>lock_step\<close> excludes \<^verbatim>\<open>rec_move\<close> and the operations built on it, discarding and
  reorganising pages and moving record lists; \<open>client_step\<close> says what the rest of the engine may
  do to transactions and threads between lock operations.  Implicit locks enter as the parameter
  \<open>impl_trx\<close>, the transaction that the record names, under \<open>impl_ok\<close>.

  \<^bold>\<open>Not modelled.\<close>  B-trees, pages and records, the buffer pool, files and file space, the log
  buffer, checkpoints and the recovery driver, undo logs and rollback segments, the data
  dictionary, query execution and the client interface: they need latches, I/O and threads, or
  lower layers that come first.  Planned next are records and page directories, then undo records
  and the redo parsers of record operations.
\<close>

end
